(* ===== verification/Prelude.thy ===== *)
theory Prelude
  imports Main "HOL-Library.Word"
begin

text \<open>
  Shared vocabulary of the development: the machine integers of the Rust
  sources, the \<open>Result\<close> type, the checked and saturating operations of the
  standard library on unsigned words, little-endian byte encodings, and the
  generic lemmas on lists and words that the component theories rely on.
\<close>

section \<open>Machine integers and results\<close>

type_synonym u8 = "8 word"
type_synonym u16 = "16 word"
type_synonym u32 = "32 word"
type_synonym u64 = "64 word"
type_synonym bytes = "8 word list"

text \<open>A half-open byte range, \<open>std::ops::Range<u64>\<close>.\<close>

type_synonym range64 = "64 word \<times> 64 word"

text \<open>\<open>Result<T, E>\<close> is the sum type; \<open>Err\<close> is the left injection.\<close>

type_synonym ('e, 'a) result = "'e + 'a"

abbreviation Err :: "'e \<Rightarrow> 'e + 'a" where
  "Err \<equiv> Inl"

abbreviation Ok :: "'a \<Rightarrow> 'e + 'a" where
  "Ok \<equiv> Inr"

text \<open>The \<open>?\<close> operator and \<open>map_err\<close>.\<close>

definition and_then :: "'e + 'a \<Rightarrow> ('a \<Rightarrow> 'e + 'b) \<Rightarrow> 'e + 'b" where
  "and_then r f = (case r of Inl e \<Rightarrow> Inl e | Inr a \<Rightarrow> f a)"

definition map_err :: "('e \<Rightarrow> 'f) \<Rightarrow> 'e + 'a \<Rightarrow> 'f + 'a" where
  "map_err f r = (case r of Inl e \<Rightarrow> Inl (f e) | Inr a \<Rightarrow> Inr a)"

definition ok_or :: "'e \<Rightarrow> 'a option \<Rightarrow> 'e + 'a" where
  "ok_or e r = (case r of None \<Rightarrow> Inl e | Some a \<Rightarrow> Inr a)"

section \<open>Checked and saturating arithmetic\<close>

definition checked_add :: "'a::len word \<Rightarrow> 'a word \<Rightarrow> 'a word option" where
  "checked_add a b = (if unat a + unat b < 2 ^ LENGTH('a) then Some (a + b) else None)"

definition checked_sub :: "'a::len word \<Rightarrow> 'a word \<Rightarrow> 'a word option" where
  "checked_sub a b = (if b \<le> a then Some (a - b) else None)"

definition checked_mul :: "'a::len word \<Rightarrow> 'a word \<Rightarrow> 'a word option" where
  "checked_mul a b = (if unat a * unat b < 2 ^ LENGTH('a) then Some (a * b) else None)"

definition saturating_add :: "'a::len word \<Rightarrow> 'a word \<Rightarrow> 'a word" where
  "saturating_add a b = (if unat a + unat b < 2 ^ LENGTH('a) then a + b else - 1)"

definition saturating_sub :: "'a::len word \<Rightarrow> 'a word \<Rightarrow> 'a word" where
  "saturating_sub a b = (if b \<le> a then a - b else 0)"

definition saturating_mul :: "'a::len word \<Rightarrow> 'a word \<Rightarrow> 'a word" where
  "saturating_mul a b = (if unat a * unat b < 2 ^ LENGTH('a) then a * b else - 1)"

text \<open>\<open>uN::try_from(usize)\<close>: the checked narrowing of a length.\<close>

definition try_from_nat :: "nat \<Rightarrow> 'a::len word option" where
  "try_from_nat n = (if n < 2 ^ LENGTH('a) then Some (of_nat n) else None)"

section \<open>Little-endian byte strings\<close>

text \<open>\<open>to_le_bytes\<close> and \<open>from_le_bytes\<close>, on \<open>n\<close> bytes.\<close>

fun le_bytes :: "nat \<Rightarrow> nat \<Rightarrow> bytes" where
  "le_bytes 0 x = []"
| "le_bytes (Suc n) x = of_nat (x mod 256) # le_bytes n (x div 256)"

fun le_value :: "bytes \<Rightarrow> nat" where
  "le_value [] = 0"
| "le_value (b # bs) = unat b + 256 * le_value bs"

text \<open>The fixed widths of the sources.\<close>

definition word_to_le :: "nat \<Rightarrow> 'a::len word \<Rightarrow> bytes" where
  "word_to_le n w = le_bytes n (unat w)"

definition word_of_le :: "bytes \<Rightarrow> 'a::len word" where
  "word_of_le bs = of_nat (le_value bs)"

section \<open>Collections of facts\<close>

named_theorems result_simps \<open>unfolding of the Result combinators\<close>
named_theorems arith_simps \<open>checked and saturating word arithmetic\<close>

section \<open>Results\<close>

lemma and_then_simps [simp, result_simps]:
  "and_then (Inl e) f = Inl e"
  "and_then (Inr a) f = f a"
  by (simp_all add: and_then_def)

lemma and_then_eq_Inr:
  "and_then r f = Inr b \<longleftrightarrow> (\<exists>a. r = Inr a \<and> f a = Inr b)"
  by (cases r) auto

lemma and_then_eq_Inl:
  "and_then r f = Inl e \<longleftrightarrow> r = Inl e \<or> (\<exists>a. r = Inr a \<and> f a = Inl e)"
  by (cases r) auto

lemma map_err_simps [simp, result_simps]:
  "map_err f (Inl e) = Inl (f e)"
  "map_err f (Inr a) = Inr a"
  by (simp_all add: map_err_def)

lemma map_err_eq_Inr [simp]: "map_err f r = Inr a \<longleftrightarrow> r = Inr a"
  by (cases r) auto

lemma ok_or_simps [simp, result_simps]:
  "ok_or e None = Inl e"
  "ok_or e (Some a) = Inr a"
  by (simp_all add: ok_or_def)

lemma ok_or_eq_Inr [simp]: "ok_or e r = Inr a \<longleftrightarrow> r = Some a"
  by (cases r) auto

section \<open>Words\<close>

lemma word_lt_unat: "a < b \<longleftrightarrow> unat a < unat b"
  by (rule word_less_nat_alt)

lemma word_le_unat: "a \<le> b \<longleftrightarrow> unat a \<le> unat b"
  by (rule word_le_nat_alt)

lemma unat_lt_2p [simp]: "unat (x :: 'a::len word) < 2 ^ LENGTH('a)"
  by (rule unsigned_less)

lemma checked_add_Some:
  fixes a b :: "'a::len word"
  shows "checked_add a b = Some c \<longleftrightarrow> unat c = unat a + unat b"
proof -
  have "unat (a + b) = unat a + unat b" if "unat a + unat b < 2 ^ LENGTH('a)"
    using that by (simp add: unat_word_ariths)
  moreover have "unat c < 2 ^ LENGTH('a)"
    by simp
  ultimately show ?thesis
    unfolding checked_add_def
    by (smt (verit) option.inject option.distinct(1) word_unat_eq_iff)
qed

lemma checked_add_None:
  fixes a b :: "'a::len word"
  shows "checked_add a b = None \<longleftrightarrow> 2 ^ LENGTH('a) \<le> unat a + unat b"
  by (simp add: checked_add_def not_less)

lemma unat_minus_le:
  fixes a b :: "'a::len word"
  assumes "b \<le> a"
  shows "unat (a - b) = unat a - unat b"
  using assms by (rule unat_sub)

lemma checked_sub_Some:
  fixes a b :: "'a::len word"
  shows "checked_sub a b = Some c \<longleftrightarrow> unat a = unat b + unat c"
proof
  assume "checked_sub a b = Some c"
  then have "b \<le> a" and "c = a - b"
    by (simp_all add: checked_sub_def split: if_splits)
  then show "unat a = unat b + unat c"
    by (simp add: unat_minus_le word_le_unat)
next
  assume eq: "unat a = unat b + unat c"
  then have "b \<le> a"
    by (simp add: word_le_unat)
  moreover have "unat (a - b) = unat c"
    using eq \<open>b \<le> a\<close> by (simp add: unat_minus_le)
  ultimately show "checked_sub a b = Some c"
    by (simp add: checked_sub_def word_unat_eq_iff)
qed

lemma checked_sub_None:
  "checked_sub a b = None \<longleftrightarrow> unat a < unat b"
  by (simp add: checked_sub_def word_le_unat not_le)

lemma checked_mul_Some:
  fixes a b :: "'a::len word"
  shows "checked_mul a b = Some c \<longleftrightarrow> unat c = unat a * unat b"
proof -
  have "unat (a * b) = unat a * unat b" if "unat a * unat b < 2 ^ LENGTH('a)"
    using that by (simp add: unat_word_ariths)
  moreover have "unat c < 2 ^ LENGTH('a)"
    by simp
  ultimately show ?thesis
    unfolding checked_mul_def
    by (smt (verit) option.inject option.distinct(1) word_unat_eq_iff)
qed

lemma checked_mul_None:
  fixes a b :: "'a::len word"
  shows "checked_mul a b = None \<longleftrightarrow> 2 ^ LENGTH('a) \<le> unat a * unat b"
  by (simp add: checked_mul_def not_less)

lemma unat_minus_one_word: "unat (- 1 :: 'a::len word) = 2 ^ LENGTH('a) - 1"
  by (simp add: unsigned_minus_1_eq_mask mask_eq_exp_minus_1)

lemma unat_saturating_add:
  fixes a b :: "'a::len word"
  shows "unat (saturating_add a b) = min (unat a + unat b) (2 ^ LENGTH('a) - 1)"
  by (auto simp: saturating_add_def unat_word_ariths unat_minus_one_word min_def not_less)

lemma unat_saturating_sub:
  "unat (saturating_sub a b) = unat a - unat b"
  by (auto simp: saturating_sub_def unat_minus_le word_le_unat)

lemma unat_saturating_mul:
  fixes a b :: "'a::len word"
  shows "unat (saturating_mul a b) = min (unat a * unat b) (2 ^ LENGTH('a) - 1)"
proof (cases "unat a * unat b < 2 ^ LENGTH('a)")
  case True
  then have "unat (a * b) = unat a * unat b"
    by (simp add: unat_word_ariths)
  with True show ?thesis
    by (simp add: saturating_mul_def)
next
  case False
  then have "2 ^ LENGTH('a) - 1 \<le> unat a * unat b"
    by linarith
  with False show ?thesis
    by (simp add: saturating_mul_def unat_minus_one_word del: One_nat_def)
qed

lemma try_from_nat_Some:
  "try_from_nat n = Some (w :: 'a::len word) \<longleftrightarrow> unat w = n"
proof
  assume "try_from_nat n = Some w"
  then show "unat w = n"
    by (auto simp: try_from_nat_def unat_of_nat split: if_splits)
next
  assume "unat w = n"
  then show "try_from_nat n = Some w"
    by (auto simp: try_from_nat_def)
qed

lemma try_from_nat_None:
  "try_from_nat n = (None :: 'a::len word option) \<longleftrightarrow> 2 ^ LENGTH('a) \<le> n"
  by (simp add: try_from_nat_def not_less)

lemma try_from_nat_unat [simp]: "try_from_nat (unat w) = Some w"
  by (simp add: try_from_nat_Some)

lemmas checked_facts [arith_simps] =
  checked_add_Some checked_add_None checked_sub_Some checked_sub_None
  checked_mul_Some checked_mul_None unat_saturating_add unat_saturating_sub
  unat_saturating_mul try_from_nat_Some try_from_nat_None

lemma checked_add_SomeD:
  fixes a b c :: "'a::len word"
  assumes "checked_add a b = Some c"
  shows "a \<le> c" and "b \<le> c" and "unat c = unat a + unat b" and "c = a + b"
  using assms
  by (simp_all add: word_le_unat checked_add_Some word_unat_eq_iff unat_word_ariths)
     (metis mod_less unat_lt_2p)

section \<open>Little-endian encodings\<close>

lemma length_le_bytes [simp]: "length (le_bytes n x) = n"
  by (induction n arbitrary: x) auto

lemma le_value_le_bytes: "le_value (le_bytes n x) = x mod 256 ^ n"
proof (induction n arbitrary: x)
  case (Suc n)
  have "unat (of_nat (x mod 256) :: u8) = x mod 256"
    by (simp add: unat_of_nat)
  then show ?case
    using Suc by (simp add: mod_mult2_eq)
qed simp

lemma le_value_less: "le_value bs < 256 ^ length bs"
proof (induction bs)
  case (Cons b bs)
  have "unat b < 256"
    using unat_lt_2p [of b] by simp
  moreover have "256 * le_value bs + 256 \<le> 256 * 256 ^ length bs"
    using Cons by (metis Suc_leI mult_Suc_right mult_le_mono2 add.commute)
  ultimately show ?case
    by simp
qed simp

lemma le_bytes_le_value: "length bs = n \<Longrightarrow> le_bytes n (le_value bs) = bs"
proof (induction bs arbitrary: n)
  case (Cons b bs)
  have "unat b < 256"
    using unat_lt_2p [of b] by simp
  then show ?case
    using Cons by auto
qed simp

lemma length_word_to_le [simp]: "length (word_to_le n w) = n"
  by (simp add: word_to_le_def)

lemma word_of_to_le:
  assumes "LENGTH('a) = 8 * n"
  shows "word_of_le (word_to_le n (w :: 'a::len word)) = w"
proof -
  have "unat w < 256 ^ n"
    using unat_lt_2p [of w] assms by (simp add: power_mult)
  then show ?thesis
    by (simp add: word_of_le_def word_to_le_def le_value_le_bytes)
qed

lemma word_to_of_le:
  assumes "LENGTH('a) = 8 * n" and "length bs = n"
  shows "word_to_le n (word_of_le bs :: 'a::len word) = bs"
proof -
  have "le_value bs < 2 ^ LENGTH('a)"
    using le_value_less [of bs] assms by (simp add: power_mult)
  then show ?thesis
    by (simp add: word_of_le_def word_to_le_def unat_of_nat le_bytes_le_value assms(2))
qed

lemma word_le_inverse [simp]:
  "word_of_le (word_to_le 2 (a :: u16)) = a"
  "word_of_le (word_to_le 4 (b :: u32)) = b"
  "word_of_le (word_to_le 8 (c :: u64)) = c"
  by (simp_all add: word_of_to_le)

lemma word_le_canonical [simp]:
  "length bs = 2 \<Longrightarrow> word_to_le 2 (word_of_le bs :: u16) = bs"
  "length bs = 4 \<Longrightarrow> word_to_le 4 (word_of_le bs :: u32) = bs"
  "length bs = 8 \<Longrightarrow> word_to_le 8 (word_of_le bs :: u64) = bs"
  by (simp_all add: word_to_of_le)

section \<open>Lists\<close>

lemma take_append_exact [simp]: "length xs = n \<Longrightarrow> take n (xs @ ys) = xs"
  by simp

lemma drop_append_exact [simp]: "length xs = n \<Longrightarrow> drop n (xs @ ys) = ys"
  by simp

text \<open>The bytes \<open>[s, e)\<close> of a byte string, \<open>&bytes[s..e]\<close> when in range.\<close>

definition chunk :: "nat \<Rightarrow> nat \<Rightarrow> 'a list \<Rightarrow> 'a list" where
  "chunk s e xs = take (e - s) (drop s xs)"

lemma length_chunk [simp]: "length (chunk s e xs) = min (e - s) (length xs - s)"
  by (simp add: chunk_def min.commute)

lemma nth_chunk [simp]:
  "i < e - s \<Longrightarrow> e \<le> length xs \<Longrightarrow> chunk s e xs ! i = xs ! (s + i)"
  by (simp add: chunk_def)

lemma chunk_cong:
  assumes "e \<le> length xs" and "e \<le> length ys"
    and "\<And>i. s \<le> i \<Longrightarrow> i < e \<Longrightarrow> xs ! i = ys ! i"
  shows "chunk s e xs = chunk s e ys"
  by (rule nth_equalityI) (use assms in auto)

lemma chunk_full [simp]: "chunk 0 (length xs) xs = xs"
  by (simp add: chunk_def)

lemma chunk_append_chunk:
  "s \<le> m \<Longrightarrow> m \<le> e \<Longrightarrow> chunk s m xs @ chunk m e xs = chunk s e xs"
  using take_add [of "m - s" "e - m" "drop s xs"] by (simp add: chunk_def)

lemma chunk_append:
  "chunk s e (xs @ ys) = chunk s e xs @ chunk (s - length xs) (e - length xs) ys"
  by (cases "s \<le> length xs") (auto simp: chunk_def)

lemma chunk_beyond [simp]: "length xs \<le> s \<Longrightarrow> chunk s e xs = []"
  by (simp add: chunk_def)

lemma chunk_empty [simp]: "e \<le> s \<Longrightarrow> chunk s e xs = []"
  by (simp add: chunk_def)

lemma chunk_all [simp]: "length xs \<le> e \<Longrightarrow> chunk 0 e xs = xs"
  by (simp add: chunk_def)

lemma chunk_take: "e \<le> n \<Longrightarrow> chunk s e (take n xs) = chunk s e xs"
  by (simp add: chunk_def drop_take min_def)

lemma chunk_0: "chunk 0 n xs = take n xs"
  by (simp add: chunk_def)

lemma chunk_Cons: "0 < s \<Longrightarrow> chunk s e (x # xs) = chunk (s - 1) (e - 1) xs"
  by (cases s) (auto simp: chunk_def)

end
