(* ===== verification/IoModel.thy ===== *)
theory IoModel
  imports Prelude
begin

text \<open>
  The parts of \<open>std::io\<close> and \<open>std::fs\<close> the storage code uses.

  A reader is the sequence of answers the operating system will give to successive \<open>read\<close> calls: a
  non-empty piece of data, \<open>Interrupted\<close>, or a failure; the empty sequence is end of file.  A piece
  longer than the caller's buffer is delivered in part and the remainder stays in the reader.

  A file keeps the bytes every reader sees (\<open>f_cache\<close>) apart from the bytes known to be on stable
  storage (\<open>f_stable\<close>), and a schedule of faults, one entry consumed per primitive operation.  A
  failed write may have transferred any prefix of its bytes first.  After a crash the file holds,
  at each position, either its stable or its cached byte; an append-only file holds its stable
  bytes followed by some prefix of what was appended since.
\<close>

section \<open>Errors\<close>

datatype io_kind =
    IoNotFound | IoAlreadyExists | IoInterrupted | IoInvalidInput | IoInvalidData
  | IoUnexpectedEof | IoWriteZero | IoOther

datatype io_error = IoError (io_kind_of: io_kind) (raw_os_error: "int option")

text \<open>\<open>io::Error::new(kind, ..)\<close> carries no operating-system code.\<close>

definition io_new :: "io_kind \<Rightarrow> io_error" where
  "io_new k = IoError k None"

datatype platform = Unix | Windows

section \<open>Paths\<close>

text \<open>
  A path is its text, as on Unix.  \<open>Path::file_name\<close> is the last component when that is a normal
  one: empty and \<open>.\<close> components do not count, and \<open>..\<close> is not a name.
\<close>

type_synonym path = string

fun split_on :: "'a \<Rightarrow> 'a list \<Rightarrow> 'a list list" where
  "split_on sep [] = [[]]"
| "split_on sep (c # cs) =
     (if c = sep then [] # split_on sep cs
      else (case split_on sep cs of [] \<Rightarrow> [[c]] | w # ws \<Rightarrow> (c # w) # ws))"

definition path_components :: "path \<Rightarrow> string list" where
  "path_components p = filter (\<lambda>c. c \<noteq> [] \<and> c \<noteq> ''.'') (split_on CHR ''/'' p)"

definition path_file_name :: "path \<Rightarrow> string option" where
  "path_file_name p =
     (let cs = path_components p in
      if cs = [] \<or> last cs = ''..'' then None else Some (last cs))"

section \<open>Readers\<close>

datatype read_event = RdData bytes | RdInterrupted | RdFail io_error

type_synonym reader = "read_event list"

text \<open>The bytes a reader will deliver if nothing fails.\<close>

fun stream :: "reader \<Rightarrow> bytes" where
  "stream [] = []"
| "stream (RdData d # rd) = d @ stream rd"
| "stream (_ # rd) = stream rd"

text \<open>No failure, and no zero-length read before the end.\<close>

fun healthy :: "reader \<Rightarrow> bool" where
  "healthy [] = True"
| "healthy (RdData d # rd) = (d \<noteq> [] \<and> healthy rd)"
| "healthy (RdInterrupted # rd) = healthy rd"
| "healthy (RdFail e # rd) = False"

section \<open>Files\<close>

datatype fault = NoFault | Fault nat io_error

record os_file =
  f_cache :: bytes
  f_stable :: bytes
  f_faults :: "fault list"

text \<open>The next entry of the schedule; an exhausted schedule means no more faults.\<close>

definition next_fault :: "os_file \<Rightarrow> fault \<times> os_file" where
  "next_fault f =
     (case f_faults f of [] \<Rightarrow> (NoFault, f) | x # xs \<Rightarrow> (x, f\<lparr>f_faults := xs\<rparr>))"

definition overwrite :: "bytes \<Rightarrow> nat \<Rightarrow> bytes \<Rightarrow> bytes" where
  "overwrite old off bs = take off old @ bs @ drop (off + length bs) old"

text \<open>\<open>FileExt::write_all_at\<close> inside the current length, \<open>Write::write_all\<close> at the end.\<close>

definition file_write_at :: "os_file \<Rightarrow> nat \<Rightarrow> bytes \<Rightarrow> os_file \<times> (io_error + unit)" where
  "file_write_at f off bs =
     (case next_fault f of
        (NoFault, g) \<Rightarrow> (g\<lparr>f_cache := overwrite (f_cache g) off bs\<rparr>, Ok ())
      | (Fault n e, g) \<Rightarrow> (g\<lparr>f_cache := overwrite (f_cache g) off (take n bs)\<rparr>, Err e))"

definition file_append :: "os_file \<Rightarrow> bytes \<Rightarrow> os_file \<times> (io_error + unit)" where
  "file_append f bs =
     (case next_fault f of
        (NoFault, g) \<Rightarrow> (g\<lparr>f_cache := f_cache g @ bs\<rparr>, Ok ())
      | (Fault n e, g) \<Rightarrow> (g\<lparr>f_cache := f_cache g @ take n bs\<rparr>, Err e))"

definition file_sync :: "os_file \<Rightarrow> os_file \<times> (io_error + unit)" where
  "file_sync f =
     (case next_fault f of
        (NoFault, g) \<Rightarrow> (g\<lparr>f_stable := f_cache g\<rparr>, Ok ())
      | (Fault n e, g) \<Rightarrow> (g, Err e))"

definition file_set_len :: "os_file \<Rightarrow> nat \<Rightarrow> os_file \<times> (io_error + unit)" where
  "file_set_len f n =
     (case next_fault f of
        (NoFault, g) \<Rightarrow> (g\<lparr>f_cache := take n (f_cache g) @ replicate (n - length (f_cache g)) 0\<rparr>, Ok ())
      | (Fault _ e, g) \<Rightarrow> (g, Err e))"

section \<open>Crashes\<close>

definition crash_image :: "bytes \<Rightarrow> bytes \<Rightarrow> bytes \<Rightarrow> bool" where
  "crash_image stab cache c =
     (min (length stab) (length cache) \<le> length c \<and>
      (\<forall>i < length c. (i < length stab \<and> c ! i = stab ! i) \<or> (i < length cache \<and> c ! i = cache ! i)))"

definition crash_append_image :: "bytes \<Rightarrow> bytes \<Rightarrow> bytes \<Rightarrow> bool" where
  "crash_append_image stab cache c =
     (\<exists>n. length stab \<le> n \<and> n \<le> length cache \<and> take (length stab) cache = stab \<and> c = take n cache)"

section \<open>Reading\<close>

fun read_loop :: "reader \<Rightarrow> nat \<Rightarrow> bytes \<Rightarrow> reader \<times> (io_error + bytes)" where
  "read_loop rd 0 acc = (rd, Ok acc)"
| "read_loop [] n acc = ([], Ok acc)"
| "read_loop (RdInterrupted # rd) n acc = read_loop rd n acc"
| "read_loop (RdFail e # rd) n acc = (rd, Err e)"
| "read_loop (RdData d # rd) n acc =
     (if d = [] then (rd, Ok acc)
      else if length d \<le> n then read_loop rd (n - length d) (acc @ d)
      else (RdData (drop n d) # rd, Ok (acc @ take n d)))"

definition read_up_to :: "reader \<Rightarrow> nat \<Rightarrow> reader \<times> (io_error + bytes)" where
  "read_up_to rd n = read_loop rd n []"

lemma read_loop_size:
  "read_loop rd n acc = (rd', Ok bs) \<Longrightarrow>
     length acc \<le> length bs \<and> length (stream rd') + length bs \<le> length (stream rd) + length acc"
proof (induction rd n acc arbitrary: rd' bs rule: read_loop.induct)
  case (5 d rd n acc)
  then show ?case
    by (fastforce split: if_splits)
qed auto

lemma read_up_to_size:
  "read_up_to rd n = (rd', Ok bs) \<Longrightarrow> length (stream rd') + length bs \<le> length (stream rd)"
  using read_loop_size [of rd n "[]"] by (fastforce simp: read_up_to_def)

lemma read_loop_healthy:
  "healthy rd \<Longrightarrow>
   \<exists>rd'. read_loop rd n acc = (rd', Ok (acc @ take n (stream rd))) \<and>
         stream rd' = drop n (stream rd) \<and> healthy rd'"
proof (induction rd n acc rule: read_loop.induct)
  case (5 d rd n acc)
  then show ?case
    by (cases "length d \<le> Suc n") auto
qed auto

lemma read_up_to_healthy:
  assumes "healthy rd"
  obtains rd' where "read_up_to rd n = (rd', Ok (take n (stream rd)))"
    "stream rd' = drop n (stream rd)" "healthy rd'"
  using read_loop_healthy [OF assms, of n "[]"] by (auto simp: read_up_to_def)

section \<open>File lemmas\<close>

lemma next_fault_content:
  "next_fault f = (x, g) \<Longrightarrow> f_cache g = f_cache f \<and> f_stable g = f_stable f"
  by (auto simp: next_fault_def split: list.splits)

lemma file_write_at_result:
  assumes "file_write_at f off bs = (g, res)"
  shows "f_stable g = f_stable f"
    and "res = Ok u \<Longrightarrow> f_cache g = overwrite (f_cache f) off bs"
    and "\<exists>n. f_cache g = overwrite (f_cache f) off (take n bs)"
proof -
  obtain x h where nf: "next_fault f = (x, h)"
    by (cases "next_fault f")
  have "f_cache g = overwrite (f_cache f) off (take (length bs) bs)" if "x = NoFault"
    using assms nf next_fault_content [OF nf] that by (auto simp: file_write_at_def)
  then show "\<exists>n. f_cache g = overwrite (f_cache f) off (take n bs)"
    using assms nf next_fault_content [OF nf]
    by (cases x) (blast, auto simp: file_write_at_def)
  show "f_stable g = f_stable f" "res = Ok u \<Longrightarrow> f_cache g = overwrite (f_cache f) off bs"
    using assms nf next_fault_content [OF nf] by (cases x; auto simp: file_write_at_def)+
qed

lemma file_append_result:
  assumes "file_append f bs = (g, res)"
  shows "f_stable g = f_stable f"
    and "res = Ok u \<Longrightarrow> f_cache g = f_cache f @ bs"
    and "\<exists>n. f_cache g = f_cache f @ take n bs"
proof -
  obtain x h where nf: "next_fault f = (x, h)"
    by (cases "next_fault f")
  have "f_cache g = f_cache f @ take (length bs) bs" if "x = NoFault"
    using assms nf next_fault_content [OF nf] that by (auto simp: file_append_def)
  then show "\<exists>n. f_cache g = f_cache f @ take n bs"
    using assms nf next_fault_content [OF nf]
    by (cases x) (blast, auto simp: file_append_def)
  show "f_stable g = f_stable f" "res = Ok u \<Longrightarrow> f_cache g = f_cache f @ bs"
    using assms nf next_fault_content [OF nf] by (cases x; auto simp: file_append_def)+
qed

lemma file_sync_result:
  assumes "file_sync f = (g, res)"
  shows "f_cache g = f_cache f"
    and "res = Ok u \<Longrightarrow> f_stable g = f_cache f"
    and "res = Err e \<Longrightarrow> f_stable g = f_stable f"
proof -
  obtain x h where nf: "next_fault f = (x, h)"
    by (cases "next_fault f")
  show "f_cache g = f_cache f" "res = Ok u \<Longrightarrow> f_stable g = f_cache f"
    "res = Err e \<Longrightarrow> f_stable g = f_stable f"
    using assms nf next_fault_content [OF nf] by (cases x; auto simp: file_sync_def)+
qed

lemma length_overwrite:
  "off + length bs \<le> length old \<Longrightarrow> length (overwrite old off bs) = length old"
  by (simp add: overwrite_def)

lemma nth_overwrite:
  assumes "off + length bs \<le> length old" and "i < length old"
  shows "overwrite old off bs ! i =
    (if off \<le> i \<and> i < off + length bs then bs ! (i - off) else old ! i)"
  using assms by (auto simp: overwrite_def nth_append min_def)

lemma chunk_overwrite_same:
  "off + length bs \<le> length old \<Longrightarrow> chunk off (off + length bs) (overwrite old off bs) = bs"
  by (rule nth_equalityI) (simp_all add: length_overwrite nth_overwrite)

lemma chunk_overwrite_other:
  assumes "off + length bs \<le> length old" and "e \<le> length old" and "e \<le> off \<or> off + length bs \<le> s"
  shows "chunk s e (overwrite old off bs) = chunk s e old"
  using assms by (intro chunk_cong) (auto simp: length_overwrite nth_overwrite)

lemma crash_image_refl: "crash_image stab cache cache"
  by (simp add: crash_image_def)

lemma crash_image_agree:
  assumes "crash_image stab cache c" and "e \<le> length stab" and "e \<le> length cache"
    and "chunk s e stab = chunk s e cache"
  shows "chunk s e c = chunk s e stab \<and> e \<le> length c"
proof -
  have len: "e \<le> length c"
    using assms(1-3) by (auto simp: crash_image_def)
  have "c ! i = stab ! i" if "s \<le> i" "i < e" for i
  proof -
    have "stab ! i = cache ! i"
      using assms(2-4) that nth_chunk [of "i - s" e s stab] nth_chunk [of "i - s" e s cache] by simp
    moreover have "i < length c"
      using len that by simp
    ultimately show ?thesis
      using assms(1) by (auto simp: crash_image_def)
  qed
  with len assms(2) show ?thesis
    by (auto intro: chunk_cong)
qed

end
