(* ===== verification/RangeSink.thy ===== *)
theory RangeSink
  imports IoModel
begin

text \<open>
  Where fetched bytes go, \<open>downpour-http/src/sink.rs\<close>.  The trait \<open>SinkTarget\<close> is a record of operations on
  a target state; \<open>RangeSink\<close> is the append-only window a backend writes through.

  The locale \<open>byte_target\<close> is what a window needs of its target; its lemmas say what a sequence of appends
  does to the target's bytes.
\<close>

datatype sink_error =
    BeyondGrant u64 u64 u64
  | NoSpace u64
  | SinkIo u64 io_error
  | LengthOverflow

record 't sink_target =
  tg_write_at :: "'t \<Rightarrow> u64 \<Rightarrow> bytes \<Rightarrow> 't \<times> (sink_error + unit)"
  tg_verify_and_rename :: "'t \<Rightarrow> path \<Rightarrow> 't \<times> (sink_error + unit)"
  tg_durable_prefix_end :: "'t \<Rightarrow> u64"
  tg_sync :: "'t \<Rightarrow> 't \<times> (sink_error + unit)"

text \<open>The methods the trait provides to targets that do not define them.\<close>

definition default_verify_and_rename :: "'t \<Rightarrow> path \<Rightarrow> 't \<times> (sink_error + unit)" where
  "default_verify_and_rename t final_path = (t, Err (SinkIo 0 (io_new IoOther)))"

definition default_durable_prefix_end :: "'t \<Rightarrow> u64" where
  "default_durable_prefix_end t = 0"

record 't range_sink =
  sk_target :: 't
  sk_base_offset :: u64
  sk_written :: u64
  sk_limit :: "u64 option"

definition sink_new :: "'t \<Rightarrow> u64 \<Rightarrow> u64 option \<Rightarrow> 't range_sink" where
  "sink_new t base_offset limit =
     \<lparr>sk_target = t, sk_base_offset = base_offset, sk_written = 0, sk_limit = limit\<rparr>"

definition beyond_limit :: "'t range_sink \<Rightarrow> u64 \<Rightarrow> sink_error option" where
  "beyond_limit sk len =
     (case sk_limit sk of
        Some limit \<Rightarrow>
          if saturating_add (sk_written sk) len > limit then Some (BeyondGrant limit (sk_written sk) len) else None
      | None \<Rightarrow> None)"

definition sink_accept :: "'t sink_target \<Rightarrow> 't range_sink \<Rightarrow> bytes \<Rightarrow> 't range_sink \<times> (sink_error + unit)" where
  "sink_accept T sk bs =
     (case try_from_nat (length bs) of
        None \<Rightarrow> (sk, Err LengthOverflow)
      | Some len \<Rightarrow>
          (case beyond_limit sk len of
             Some e \<Rightarrow> (sk, Err e)
           | None \<Rightarrow>
               (case checked_add (sk_base_offset sk) (sk_written sk) of
                  None \<Rightarrow> (sk, Err LengthOverflow)
                | Some offset \<Rightarrow>
                    (case tg_write_at T (sk_target sk) offset bs of
                       (t, Err e) \<Rightarrow> (sk\<lparr>sk_target := t\<rparr>, Err e)
                     | (t, Ok _) \<Rightarrow>
                         (sk\<lparr>sk_target := t, sk_written := saturating_add (sk_written sk) len\<rparr>, Ok ())))))"

definition sink_sync :: "'t sink_target \<Rightarrow> 't range_sink \<Rightarrow> 't range_sink \<times> (sink_error + unit)" where
  "sink_sync T sk = (let (t, r) = tg_sync T (sk_target sk) in (sk\<lparr>sk_target := t\<rparr>, r))"

definition next_offset :: "'t range_sink \<Rightarrow> u64" where
  "next_offset sk = saturating_add (sk_base_offset sk) (sk_written sk)"

definition rebase :: "'t range_sink \<Rightarrow> u64 \<Rightarrow> u64 option \<Rightarrow> 't range_sink" where
  "rebase sk base_offset limit = sk\<lparr>sk_base_offset := base_offset, sk_written := 0, sk_limit := limit\<rparr>"

definition sink_verify_and_rename ::
    "'t sink_target \<Rightarrow> 't range_sink \<Rightarrow> path \<Rightarrow> 't range_sink \<times> (sink_error + unit)" where
  "sink_verify_and_rename T sk final_path =
     (let (t, r) = tg_verify_and_rename T (sk_target sk) final_path in (sk\<lparr>sk_target := t\<rparr>, r))"

definition sink_durable_prefix_end :: "'t sink_target \<Rightarrow> 't range_sink \<Rightarrow> u64" where
  "sink_durable_prefix_end T sk = tg_durable_prefix_end T (sk_target sk)"

section \<open>The window\<close>

text \<open>The byte at a position after \<open>bs\<close> was written at \<open>off\<close>.\<close>

definition patched :: "(nat \<Rightarrow> u8) \<Rightarrow> nat \<Rightarrow> bytes \<Rightarrow> nat \<Rightarrow> u8" where
  "patched f off bs i = (if off \<le> i \<and> i < off + length bs then bs ! (i - off) else f i)"

text \<open>The end of a window in exact arithmetic: its next write starts here.\<close>

definition cursor :: "'t range_sink \<Rightarrow> nat" where
  "cursor sk = unat (sk_base_offset sk) + unat (sk_written sk)"

definition window_end :: "'t range_sink \<Rightarrow> nat" where
  "window_end sk = (case sk_limit sk of Some n \<Rightarrow> unat (sk_base_offset sk) + unat n | None \<Rightarrow> 2 ^ 64 + 2 ^ 64)"

lemma patched_Nil [simp]: "patched f off [] = f"
  by (auto simp: patched_def fun_eq_iff)

lemma patched_append: "patched (patched f off a) (off + length a) b = patched f off (a @ b)"
  by (auto simp: patched_def nth_append fun_eq_iff)

lemma window_end_update [simp]:
  "window_end (sk\<lparr>sk_target := t\<rparr>) = window_end sk" "window_end (sk\<lparr>sk_written := n\<rparr>) = window_end sk"
  "cursor (sk\<lparr>sk_target := t\<rparr>) = cursor sk" "cursor (sk\<lparr>sk_written := n\<rparr>) = unat (sk_base_offset sk) + unat n"
  by (simp_all add: window_end_def cursor_def split: option.split)

lemma sink_accept_Err:
  "sink_accept T sk bs = (sk', Err e) \<Longrightarrow> sk' = sk \<or> (\<exists>len offset t. try_from_nat (length bs) = Some (len :: u64) \<and>
     beyond_limit sk len = None \<and> checked_add (sk_base_offset sk) (sk_written sk) = Some offset \<and>
     tg_write_at T (sk_target sk) offset bs = (t, Err e) \<and> sk' = sk\<lparr>sk_target := t\<rparr>)"
  unfolding sink_accept_def
  by (cases "try_from_nat (length bs) :: u64 option"; simp; cases "beyond_limit sk (the (try_from_nat (length bs)))"; simp;
      cases "checked_add (sk_base_offset sk) (sk_written sk)"; simp split: prod.splits sum.splits)

text \<open>\<open>visible\<close> is what a reader of the target would see, \<open>ok\<close> an invariant of the target.\<close>

locale byte_target =
  fixes T :: "'t sink_target" and visible :: "'t \<Rightarrow> nat \<Rightarrow> u8" and ok :: "'t \<Rightarrow> bool"
  assumes write_done: "ok t \<Longrightarrow> tg_write_at T t off bs = (t', Ok ()) \<Longrightarrow>
      ok t' \<and> visible t' = patched (visible t) (unat off) bs \<and> unat off + length bs < 2 ^ 64"
    and write_failed: "ok t \<Longrightarrow> tg_write_at T t off bs = (t', Err e) \<Longrightarrow>
      ok t' \<and> (\<exists>n. visible t' = patched (visible t) (unat off) (take n bs) \<and> unat off + length (take n bs) < 2 ^ 64)"
    and sync_keeps: "ok t \<Longrightarrow> tg_sync T t = (t', r) \<Longrightarrow> ok t' \<and> visible t' = visible t"
begin

text \<open>A window in use: its target is fine and its counter has not saturated.\<close>

definition window_ok :: "'t range_sink \<Rightarrow> bool" where
  "window_ok sk = (ok (sk_target sk) \<and> cursor sk < 2 ^ 64 \<and> cursor sk \<le> window_end sk)"

lemma accept_done:
  assumes "window_ok sk" and "sink_accept T sk bs = (sk', Ok ())"
  shows "window_ok sk'" "visible (sk_target sk') = patched (visible (sk_target sk)) (cursor sk) bs"
    "cursor sk' = cursor sk + length bs" "cursor sk' \<le> window_end sk" "window_end sk' = window_end sk"
    "unat (sk_written sk') = unat (sk_written sk) + length bs"
    "sk_base_offset sk' = sk_base_offset sk" "sk_limit sk' = sk_limit sk"
proof -
  obtain len offset t where len: "try_from_nat (length bs) = Some (len :: u64)" and lim: "beyond_limit sk len = None"
    and off: "checked_add (sk_base_offset sk) (sk_written sk) = Some offset"
    and w: "tg_write_at T (sk_target sk) offset bs = (t, Ok ())"
    and sk': "sk' = sk\<lparr>sk_target := t, sk_written := saturating_add (sk_written sk) len\<rparr>"
    using assms(2) by (auto simp: sink_accept_def split: option.splits prod.splits sum.splits)
  have o: "unat offset = cursor sk" and l: "unat len = length bs"
    using off len by (auto simp: cursor_def checked_add_Some try_from_nat_Some)
  have d: "ok t" "visible t = patched (visible (sk_target sk)) (cursor sk) bs" "cursor sk + length bs < 2 ^ 64"
    using write_done [OF _ w] assms(1) o by (auto simp: window_ok_def)
  have wr: "unat (saturating_add (sk_written sk) len) = unat (sk_written sk) + length bs"
    using d(3) l by (simp add: unat_saturating_add cursor_def)
  then have le: "cursor sk + length bs \<le> window_end sk"
    using lim d(3) by (auto simp: beyond_limit_def window_end_def cursor_def word_less_nat_alt not_less split: option.splits if_splits)
  show "window_ok sk'" "visible (sk_target sk') = patched (visible (sk_target sk)) (cursor sk) bs"
    "cursor sk' = cursor sk + length bs" "cursor sk' \<le> window_end sk" "window_end sk' = window_end sk"
    "unat (sk_written sk') = unat (sk_written sk) + length bs"
    "sk_base_offset sk' = sk_base_offset sk" "sk_limit sk' = sk_limit sk"
    using d wr le by (simp_all add: sk' window_ok_def) (simp_all add: cursor_def)
qed

lemma accept_failed:
  assumes "window_ok sk" and "sink_accept T sk bs = (sk', Err e)"
  shows "window_ok sk' \<and> (\<exists>n. visible (sk_target sk') = patched (visible (sk_target sk)) (cursor sk) (take n bs) \<and>
      cursor sk + length (take n bs) \<le> window_end sk) \<and>
    sk_base_offset sk' = sk_base_offset sk \<and> sk_limit sk' = sk_limit sk \<and> sk_written sk' = sk_written sk"
proof -
  consider "sk' = sk"
    | len offset t where "try_from_nat (length bs) = Some (len :: u64)" "beyond_limit sk len = None"
      "checked_add (sk_base_offset sk) (sk_written sk) = Some offset"
      "tg_write_at T (sk_target sk) offset bs = (t, Err e)" "sk' = sk\<lparr>sk_target := t\<rparr>"
    using sink_accept_Err [OF assms(2)] by blast
  then show ?thesis
  proof cases
    case 1
    then show ?thesis
      using assms(1) by (auto simp: window_ok_def intro!: exI [of _ 0])
  next
    case (2 len offset t)
    have o: "unat offset = cursor sk" and l: "unat len = length bs"
      using 2(3,1) by (auto simp: cursor_def checked_add_Some try_from_nat_Some)
    obtain n where n: "ok t" "visible t = patched (visible (sk_target sk)) (cursor sk) (take n bs)"
      "cursor sk + length (take n bs) < 2 ^ 64"
      using write_failed [OF _ 2(4)] assms(1) o by (auto simp: window_ok_def)
    have "cursor sk + length (take n bs) \<le> window_end sk"
      using 2(2) n(3) l
      by (auto simp: beyond_limit_def window_end_def cursor_def word_less_nat_alt not_less unat_saturating_add
          split: option.splits if_splits)
    then show ?thesis
      using assms(1) n by (auto simp: 2(5) window_ok_def)
  qed
qed

end

end
