(* ===== verification/AsciiText.thy ===== *)
theory AsciiText
  imports Prelude
begin

text \<open>
  The string operations of \<open>core::str\<close> the header code uses, on ASCII text (what
  \<open>HeaderValue::to_str\<close> delivers).  A string is a list of characters and its bytes are their codes.
\<close>

section \<open>Operations\<close>

definition ord_of :: "char \<Rightarrow> nat" where
  "ord_of c = of_char c"

definition is_ascii_digit :: "char \<Rightarrow> bool" where
  "is_ascii_digit c = (48 \<le> ord_of c \<and> ord_of c \<le> 57)"

definition is_ascii_upper :: "char \<Rightarrow> bool" where
  "is_ascii_upper c = (65 \<le> ord_of c \<and> ord_of c \<le> 90)"

text \<open>\<open>u8::is_ascii_whitespace\<close> (no vertical tab), and the ASCII part of \<open>char::is_whitespace\<close>.\<close>

definition is_ascii_whitespace :: "char \<Rightarrow> bool" where
  "is_ascii_whitespace c = (ord_of c \<in> {9, 10, 12, 13, 32})"

definition is_whitespace :: "char \<Rightarrow> bool" where
  "is_whitespace c = (ord_of c = 32 \<or> 9 \<le> ord_of c \<and> ord_of c \<le> 13)"

definition is_control :: "char \<Rightarrow> bool" where
  "is_control c = (ord_of c < 32 \<or> ord_of c = 127)"

definition to_ascii_lower :: "char \<Rightarrow> char" where
  "to_ascii_lower c = (if is_ascii_upper c then char_of (ord_of c + 32) else c)"

definition to_ascii_lowercase :: "string \<Rightarrow> string" where
  "to_ascii_lowercase s = map to_ascii_lower s"

definition eq_ignore_ascii_case :: "string \<Rightarrow> string \<Rightarrow> bool" where
  "eq_ignore_ascii_case a b = (to_ascii_lowercase a = to_ascii_lowercase b)"

definition trim_start_matches :: "(char \<Rightarrow> bool) \<Rightarrow> string \<Rightarrow> string" where
  "trim_start_matches P s = dropWhile P s"

definition trim_end_matches :: "(char \<Rightarrow> bool) \<Rightarrow> string \<Rightarrow> string" where
  "trim_end_matches P s = rev (dropWhile P (rev s))"

definition trim :: "string \<Rightarrow> string" where
  "trim s = trim_end_matches is_whitespace (trim_start_matches is_whitespace s)"

fun split_once :: "char \<Rightarrow> string \<Rightarrow> (string \<times> string) option" where
  "split_once sep [] = None"
| "split_once sep (c # cs) =
     (if c = sep then Some ([], cs)
      else map_option (\<lambda>(a, b). (c # a, b)) (split_once sep cs))"

definition starts_with :: "string \<Rightarrow> string \<Rightarrow> bool" where
  "starts_with s p = (take (length p) s = p)"

definition strip_prefix :: "string \<Rightarrow> string \<Rightarrow> string option" where
  "strip_prefix s p = (if starts_with s p then Some (drop (length p) s) else None)"

definition strip_suffix :: "string \<Rightarrow> string \<Rightarrow> string option" where
  "strip_suffix s p = map_option rev (strip_prefix (rev s) (rev p))"

section \<open>Decimal numbers\<close>

fun decimal :: "nat \<Rightarrow> string" where
  "decimal n = (if n < 10 then [char_of (48 + n)] else decimal (n div 10) @ [char_of (48 + n mod 10)])"

declare decimal.simps [simp del]

definition decimal_value :: "string \<Rightarrow> nat" where
  "decimal_value s = foldl (\<lambda>a c. 10 * a + (ord_of c - 48)) 0 s"

text \<open>\<open>str::parse::<u64>\<close> on a digit sequence, and \<open>format!\<close> of a \<open>u64\<close>.\<close>

definition parse_u64 :: "string \<Rightarrow> u64 option" where
  "parse_u64 s = (if s \<noteq> [] \<and> list_all is_ascii_digit s then try_from_nat (decimal_value s) else None)"

definition show_u64 :: "u64 \<Rightarrow> string" where
  "show_u64 n = decimal (unat n)"

section \<open>Lemmas\<close>

lemma ord_of_digit [simp]: "d < 10 \<Longrightarrow> ord_of (char_of (48 + d :: nat)) = 48 + d"
  by (simp add: ord_of_def of_char_of)

lemma decimal_digits: "decimal n \<noteq> [] \<and> list_all is_ascii_digit (decimal n)"
proof (induction n rule: decimal.induct)
  case (1 n)
  then show ?case
    by (subst (1 2) decimal.simps) (auto simp: list_all_iff is_ascii_digit_def)
qed

lemma decimal_value_decimal [simp]: "decimal_value (decimal n) = n"
proof (induction n rule: decimal.induct)
  case (1 n)
  then show ?case
    by (subst decimal.simps) (auto simp: decimal_value_def)
qed

lemma parse_show_u64 [simp]: "parse_u64 (show_u64 n) = Some n"
  using decimal_digits [of "unat n"] by (simp add: parse_u64_def show_u64_def)

lemma show_u64_chars: "show_u64 n \<noteq> []" "c \<in> set (show_u64 n) \<Longrightarrow> is_ascii_digit c"
  using decimal_digits [of "unat n"] by (auto simp: show_u64_def list_all_iff)

lemma split_once_append [simp]: "sep \<notin> set a \<Longrightarrow> split_once sep (a @ sep # b) = Some (a, b)"
  by (induction a) auto

lemma split_once_Some: "split_once sep s = Some (a, b) \<longleftrightarrow> s = a @ sep # b \<and> sep \<notin> set a"
proof
  show "split_once sep s = Some (a, b) \<Longrightarrow> s = a @ sep # b \<and> sep \<notin> set a"
    by (induction s arbitrary: a) (auto split: if_splits)
qed auto

lemma trim_id:
  assumes "s \<noteq> []" and "\<not> is_whitespace (hd s)" and "\<not> is_whitespace (last s)"
  shows "trim s = s"
proof -
  have "dropWhile is_whitespace s = s"
    using assms by (cases s) auto
  moreover have "dropWhile is_whitespace (rev s) = rev s"
    using assms by (cases "rev s") (auto simp: hd_rev [symmetric] simp del: hd_rev)
  ultimately show ?thesis
    by (simp add: trim_def trim_start_matches_def trim_end_matches_def)
qed

lemma digit_not:
  assumes "is_ascii_digit c"
  shows "\<not> is_whitespace c" "\<not> is_ascii_whitespace c"
  using assms by (auto simp: is_ascii_digit_def is_whitespace_def is_ascii_whitespace_def)

lemma not_space [simp]:
  "\<not> is_whitespace CHR ''*''" "\<not> is_whitespace CHR ''b''" "\<not> is_ascii_whitespace CHR ''*''" "\<not> is_ascii_whitespace CHR ''-''"
  by (simp_all add: is_whitespace_def is_ascii_whitespace_def ord_of_def)

lemma not_digit [simp]:
  "\<not> is_ascii_digit CHR '' ''" "\<not> is_ascii_digit CHR ''/''" "\<not> is_ascii_digit CHR ''-''" "\<not> is_ascii_digit CHR ''*''"
  by (simp_all add: is_ascii_digit_def ord_of_def)

end
