(* ===== verification/Retry.thy ===== *)
theory Retry
  imports AsciiText
begin

text \<open>
  Retry and back-off, \<open>downpour-http/src/retry.rs\<close>.  A \<open>Duration\<close> is a number of nanoseconds below
  \<open>2 ^ 64\<close> seconds, a \<open>SystemTime\<close> the signed nanoseconds since the epoch.  The clock (\<open>now\<close> and its
  sub-second part, the source of the jitter) and the parser of HTTP dates are arguments.
\<close>

type_synonym duration = nat
type_synonym system_time = int

definition NANOS_PER_SEC :: nat where "NANOS_PER_SEC = 1000000000"

definition from_secs :: "u64 \<Rightarrow> duration" where
  "from_secs s = unat s * NANOS_PER_SEC"

definition from_millis :: "u64 \<Rightarrow> duration" where
  "from_millis m = unat m * 1000000"

definition duration_checked_mul :: "duration \<Rightarrow> u32 \<Rightarrow> duration option" where
  "duration_checked_mul d k = (if d * unat k < 2 ^ 64 * NANOS_PER_SEC then Some (d * unat k) else None)"

definition as_millis :: "duration \<Rightarrow> nat" where
  "as_millis d = d div 1000000"

definition duration_since :: "system_time \<Rightarrow> system_time \<Rightarrow> duration option" where
  "duration_since later earlier = (if earlier \<le> later then Some (nat (later - earlier)) else None)"

section \<open>Classification\<close>

datatype transient_kind =
    ConnectionReset | TkTimeout | RateLimited | ServiceUnavailable | ServerError | TkTruncatedBody | NotRetryable

definition from_status :: "u16 \<Rightarrow> transient_kind option" where
  "from_status status =
     (if status \<in> {401, 403, 410} then None
      else if status = 408 then Some TkTimeout
      else if status = 429 then Some RateLimited
      else if status = 503 then Some ServiceUnavailable
      else if 500 \<le> status \<and> status \<le> 599 then Some ServerError
      else if 400 \<le> status \<and> status \<le> 499 then Some NotRetryable
      else None)"

fun is_retryable :: "transient_kind \<Rightarrow> bool" where
  "is_retryable kind = (kind \<noteq> NotRetryable)"

section \<open>The policy\<close>

datatype retry_decision = RetryAfter duration | GiveUp

record retry_policy =
  pol_max_retries :: u32
  pol_base_delay :: duration
  pol_max_delay :: duration
  pol_max_server_delay :: duration

definition default_policy :: retry_policy where
  "default_policy =
     \<lparr>pol_max_retries = 5, pol_base_delay = from_millis 500, pol_max_delay = from_secs 30,
      pol_max_server_delay = from_secs 3600\<rparr>"

definition fast_for_tests :: retry_policy where
  "fast_for_tests =
     \<lparr>pol_max_retries = 5, pol_base_delay = from_millis 10, pol_max_delay = from_millis 50,
      pol_max_server_delay = from_secs 3600\<rparr>"

definition checked_shl :: "u32 \<Rightarrow> u32 \<Rightarrow> u32 option" where
  "checked_shl a n = (if n < 32 then Some (push_bit (unat n) a) else None)"

definition backoff :: "retry_policy \<Rightarrow> u64 \<Rightarrow> u32 \<Rightarrow> duration" where
  "backoff pol jitter attempt =
     (let factor = (case checked_shl 1 (min attempt 16) of Some k \<Rightarrow> k | None \<Rightarrow> - 1);
          exponential = min (case duration_checked_mul (pol_base_delay pol) factor of
                               Some d \<Rightarrow> d | None \<Rightarrow> pol_max_delay pol) (pol_max_delay pol);
          millis = (case try_from_nat (as_millis exponential) of Some m \<Rightarrow> m | None \<Rightarrow> - 1) :: u64;
          half = millis div 2;
          spread = (if half = 0 then 0 else jitter mod max half 1)
      in from_millis (max (saturating_add half spread) 1))"

definition parse_retry_after :: "(string \<Rightarrow> system_time option) \<Rightarrow> string \<Rightarrow> system_time \<Rightarrow> duration option" where
  "parse_retry_after parse_http_date value now =
     (let trimmed = trim value in
      if trimmed = [] then None
      else if list_all is_ascii_digit trimmed then map_option from_secs (parse_u64 trimmed)
      else
        (case parse_http_date trimmed of
           None \<Rightarrow> None
         | Some at \<Rightarrow> Some (case duration_since at now of Some d \<Rightarrow> d | None \<Rightarrow> 0)))"

text \<open>What the policy reads besides its arguments.\<close>

record clock =
  ck_parse_http_date :: "string \<Rightarrow> system_time option"
  ck_now :: system_time
  ck_jitter :: u64

definition decide :: "retry_policy \<Rightarrow> clock \<Rightarrow> transient_kind \<Rightarrow> u32 \<Rightarrow> string option \<Rightarrow> retry_decision" where
  "decide pol ck kind attempt retry_after =
     (if \<not> is_retryable kind \<or> attempt \<ge> pol_max_retries pol then GiveUp
      else
        (case Option.bind retry_after (\<lambda>header. parse_retry_after (ck_parse_http_date ck) header (ck_now ck)) of
           Some requested \<Rightarrow> RetryAfter (min requested (pol_max_server_delay pol))
         | None \<Rightarrow> RetryAfter (backoff pol (ck_jitter ck) attempt)))"

section \<open>Attempts per origin\<close>

type_synonym retry_state = "string \<rightharpoonup> u32"

definition attempts :: "retry_state \<Rightarrow> string \<Rightarrow> u32" where
  "attempts st origin = (case st origin of Some n \<Rightarrow> n | None \<Rightarrow> 0)"

definition record_failure :: "retry_state \<Rightarrow> string \<Rightarrow> retry_state \<times> u32" where
  "record_failure st origin =
     (let n = saturating_add (case st origin of Some k \<Rightarrow> k | None \<Rightarrow> 0) 1 in (st(origin \<mapsto> n), n))"

definition retry_reset :: "retry_state \<Rightarrow> string \<Rightarrow> retry_state" where
  "retry_reset st origin = st(origin := None)"

section \<open>Lemmas\<close>

text \<open>The curve before jitter.\<close>

definition full_delay :: "retry_policy \<Rightarrow> u32 \<Rightarrow> duration" where
  "full_delay pol attempt = min (pol_base_delay pol * 2 ^ min (unat attempt) 16) (pol_max_delay pol)"

lemma shift_factor: "checked_shl 1 (min attempt 16) = Some (2 ^ min (unat attempt) 16)"
  "unat (2 ^ min (unat attempt) 16 :: u32) = 2 ^ min (unat attempt) 16"
proof -
  have m: "unat (min attempt 16) = min (unat attempt) 16"
    by (simp add: min_def word_le_nat_alt)
  then have "min attempt 16 < 32"
    by (simp add: word_less_nat_alt)
  then show "checked_shl 1 (min attempt 16) = Some (2 ^ min (unat attempt) 16)"
    by (simp add: checked_shl_def m push_bit_eq_mult)
  have "(2 :: nat) ^ min (unat attempt) 16 \<le> 2 ^ 16"
    by (rule power_increasing) simp_all
  then have "unat (of_nat (2 ^ min (unat attempt) 16) :: u32) = 2 ^ min (unat attempt) 16"
    by (simp add: unat_of_nat del: of_nat_power)
  then show "unat (2 ^ min (unat attempt) 16 :: u32) = 2 ^ min (unat attempt) 16"
    by simp
qed

lemma backoff_window:
  assumes "pol_max_delay pol < 2 ^ 64 * 1000000"
  shows "\<exists>m. backoff pol jitter attempt = m * 1000000 \<and> 1 \<le> m \<and>
    as_millis (full_delay pol attempt) div 2 \<le> m \<and> m \<le> max 1 (as_millis (full_delay pol attempt))"
proof -
  let ?f = "full_delay pol attempt"
  have full: "min (case duration_checked_mul (pol_base_delay pol) (2 ^ min (unat attempt) 16) of
      Some d \<Rightarrow> d | None \<Rightarrow> pol_max_delay pol) (pol_max_delay pol) = ?f"
    using assms by (auto simp: duration_checked_mul_def full_delay_def shift_factor(2) NANOS_PER_SEC_def)
  have fits: "as_millis ?f < 2 ^ 64"
    using assms by (auto simp: full_delay_def as_millis_def min_def less_mult_imp_div_less)
  define millis :: u64 where "millis = of_nat (as_millis ?f)"
  have ms: "(try_from_nat (as_millis ?f) :: u64 option) = Some millis" "unat millis = as_millis ?f"
    using fits by (simp_all add: try_from_nat_def millis_def unat_of_nat)
  define half where "half = millis div 2"
  have h: "unat half = as_millis ?f div 2"
    by (simp add: half_def unat_div_distrib ms(2))
  define spread where "spread = (if half = 0 then 0 else jitter mod max half 1)"
  have one: "max half 1 = half" if "half \<noteq> 0"
  proof (rule max.absorb1)
    have "unat half \<noteq> 0"
      using that by (simp add: unat_eq_zero)
    then show "1 \<le> half"
      by (simp add: word_le_nat_alt)
  qed
  have sp: "unat spread < max 1 (unat half)"
  proof (cases "half = 0")
    case False
    then have "0 < unat half"
      by (simp add: unat_gt_0)
    then show ?thesis
      using False one by (simp add: spread_def unat_mod_distrib)
  qed (simp add: spread_def)
  have sum: "unat (saturating_add half spread) = unat half + unat spread"
    using sp h fits by (simp add: unat_saturating_add)
  have "backoff pol jitter attempt = from_millis (max (saturating_add half spread) 1)"
    by (simp add: backoff_def shift_factor full ms(1) half_def spread_def Let_def)
  moreover have "unat (max (saturating_add half spread) 1) = max (unat half + unat spread) 1"
    by (simp add: max_def word_le_nat_alt sum)
  ultimately have "backoff pol jitter attempt = max (unat half + unat spread) 1 * 1000000"
    by (simp add: from_millis_def)
  moreover have "unat half \<le> max (unat half + unat spread) 1" "max (unat half + unat spread) 1 \<le> max 1 (as_millis ?f)"
    using sp h by linarith+
  ultimately show ?thesis
    using h by (metis max.cobounded2)
qed

lemma retry_after_seconds: "parse_retry_after pd (show_u64 n) now = Some (from_secs n)"
proof -
  have "trim (show_u64 n) = show_u64 n"
    using show_u64_chars(1) [of n] show_u64_chars(2) [of _ n] digit_not(1) by (intro trim_id) (auto simp: hd_in_set)
  moreover have "list_all is_ascii_digit (show_u64 n)" "show_u64 n \<noteq> []"
    using show_u64_chars(1) [of n] show_u64_chars(2) [of _ n] by (auto simp: list_all_iff)
  ultimately show ?thesis
    by (simp add: parse_retry_after_def Let_def)
qed



end
