(* ===== verification/ContentRange.thy ===== *)
theory ContentRange
  imports AsciiText
begin

text \<open>
  \<open>Range\<close> and \<open>Content-Range\<close> headers, \<open>downpour-types/src/content_range.rs\<close>: the printer, the strict
  parser, and the check of a response range against the requested one.
\<close>

section \<open>Data\<close>

datatype byte_range_spec =
    FromTo u64 u64
  | From u64
  | Suffix u64

datatype content_range =
    CrBytes u64 u64 "u64 option"
  | CrUnsatisfied u64

datatype content_range_error =
    CrEmpty
  | CrUnsupportedUnit string
  | CrMalformed string
  | CrReversed u64 u64
  | CrLastByteBeyondComplete u64 u64
  | CrNumericOverflow

datatype range_mismatch =
    RmUnsatisfied
  | RmWrongStart u64 u64
  | RmEndBeyondRequest u64 u64
  | RmUnverifiableSuffix

section \<open>Operations\<close>

fun header_value :: "byte_range_spec \<Rightarrow> string" where
  "header_value (FromTo f l) = ''bytes='' @ show_u64 f @ ''-'' @ show_u64 l"
| "header_value (From f) = ''bytes='' @ show_u64 f @ ''-''"
| "header_value (Suffix n) = ''bytes=-'' @ show_u64 n"

fun requested_len :: "byte_range_spec \<Rightarrow> u64 option" where
  "requested_len (FromTo f l) = (case checked_sub l f of None \<Rightarrow> None | Some d \<Rightarrow> checked_add d 1)"
| "requested_len (From _) = None"
| "requested_len (Suffix n) = Some n"

text \<open>The subtraction and the addition of \<open>len\<close> are plain machine arithmetic.\<close>

fun cr_len :: "content_range \<Rightarrow> u64 option" where
  "cr_len (CrBytes f l _) = Some (l - f + 1)"
| "cr_len (CrUnsatisfied _) = None"

definition cr_is_empty :: "content_range \<Rightarrow> bool" where
  "cr_is_empty r = (cr_len r = None)"

fun cr_complete_length :: "content_range \<Rightarrow> u64 option" where
  "cr_complete_length (CrBytes _ _ n) = n"
| "cr_complete_length (CrUnsatisfied n) = Some n"

fun is_consistent_with :: "content_range \<Rightarrow> byte_range_spec \<Rightarrow> range_mismatch + unit" where
  "is_consistent_with (CrUnsatisfied _) requested = Err RmUnsatisfied"
| "is_consistent_with (CrBytes f l total_len) (FromTo want_first want_last) =
     (if f \<noteq> want_first then Err (RmWrongStart want_first f)
      else if l > want_last then Err (RmEndBeyondRequest want_last l)
      else Ok ())"
| "is_consistent_with (CrBytes f l total_len) (From want_first) =
     (if f \<noteq> want_first then Err (RmWrongStart want_first f) else Ok ())"
| "is_consistent_with (CrBytes f l total_len) (Suffix n) =
     (case total_len of
        None \<Rightarrow> Err RmUnverifiableSuffix
      | Some complete_length \<Rightarrow>
          (let want_first = saturating_sub complete_length n; want_last = complete_length - 1 in
           if f \<noteq> want_first then Err (RmWrongStart want_first f)
           else if l \<noteq> want_last then Err (RmEndBeyondRequest want_last l)
           else Ok ()))"

fun display :: "content_range \<Rightarrow> string" where
  "display (CrBytes f l (Some n)) = ''bytes '' @ show_u64 f @ ''-'' @ show_u64 l @ ''/'' @ show_u64 n"
| "display (CrBytes f l None) = ''bytes '' @ show_u64 f @ ''-'' @ show_u64 l @ ''/*''"
| "display (CrUnsatisfied n) = ''bytes */'' @ show_u64 n"

definition parse_decimal :: "string \<Rightarrow> content_range_error + u64" where
  "parse_decimal s =
     (if s = [] \<or> \<not> list_all is_ascii_digit s then Err (CrMalformed ''expected a decimal digit sequence'')
      else ok_or CrNumericOverflow (parse_u64 s))"

text \<open>The strict part, after the unit: the range and the complete length around the slash.\<close>

definition parse_parts :: "string \<Rightarrow> string \<Rightarrow> content_range_error + content_range" where
  "parse_parts range_part length_part =
     (if range_part = [] \<or> length_part = [] then Err (CrMalformed ''empty range or complete-length'')
      else if list_ex is_ascii_whitespace range_part \<or> list_ex is_ascii_whitespace length_part
      then Err (CrMalformed ''internal whitespace'')
      else
        and_then (if length_part = ''*'' then Ok None
                  else and_then (parse_decimal length_part) (\<lambda>n. Ok (Some n))) (\<lambda>complete_length.
        if range_part = ''*''
        then (case complete_length of
                Some n \<Rightarrow> Ok (CrUnsatisfied n)
              | None \<Rightarrow> Err (CrMalformed ''both the range and the complete-length are unknown''))
        else
          and_then (ok_or (CrMalformed ''no '-' between the byte positions'') (split_once CHR ''-'' range_part))
            (\<lambda>(first_raw, last_raw).
          and_then (parse_decimal first_raw) (\<lambda>f.
          and_then (parse_decimal last_raw) (\<lambda>l.
          if f > l then Err (CrReversed f l)
          else if l = - 1 then Err CrNumericOverflow
          else (case complete_length of
                  Some n \<Rightarrow> if l \<ge> n then Err (CrLastByteBeyondComplete l n)
                            else Ok (CrBytes f l (Some n))
                | None \<Rightarrow> Ok (CrBytes f l None)))))))"

definition from_str :: "string \<Rightarrow> content_range_error + content_range" where
  "from_str raw =
     (let s = trim raw in
      if s = [] then Err CrEmpty
      else
        and_then (ok_or (CrMalformed ''no space after the range unit'') (split_once CHR '' '' s)) (\<lambda>(unit_name, rest).
        if \<not> eq_ignore_ascii_case unit_name ''bytes'' then Err (CrUnsupportedUnit unit_name)
        else
          and_then (ok_or (CrMalformed ''no '/' before the complete-length'')
              (split_once CHR ''/'' (trim_start_matches (\<lambda>c. c = CHR '' '') rest))) (\<lambda>(range_part, length_part).
            parse_parts range_part length_part)))"

section \<open>Lemmas\<close>

text \<open>What the parser guarantees of a range it accepts.\<close>

fun cr_valid :: "content_range \<Rightarrow> bool" where
  "cr_valid (CrBytes f l n) = (f \<le> l \<and> l \<noteq> - 1 \<and> (case n of None \<Rightarrow> True | Some c \<Rightarrow> l < c))"
| "cr_valid (CrUnsatisfied _) = True"

lemma parse_decimal_show [simp]: "parse_decimal (show_u64 n) = Ok n"
  using show_u64_chars(1) [of n] show_u64_chars(2) [of _ n] by (auto simp: parse_decimal_def list_all_iff)

lemma from_str_valid: "from_str raw = Ok r \<Longrightarrow> cr_valid r"
  by (auto simp: from_str_def parse_parts_def Let_def and_then_eq_Inr not_less not_le split: if_splits option.splits)

lemma show_u64_no [simp]:
  "CHR ''/'' \<notin> set (show_u64 n)" "CHR ''-'' \<notin> set (show_u64 n)" "CHR '' '' \<notin> set (show_u64 n)"
  "show_u64 n \<noteq> ''*''" "\<not> list_ex is_ascii_whitespace (show_u64 n)" "show_u64 n \<noteq> []"
  by (auto simp: show_u64_chars(1) list_ex_iff dest: show_u64_chars(2) digit_not)
     (metis list.set_intros(1) not_digit(4) show_u64_chars(2))

lemma last_show_u64 [simp]: "\<not> is_whitespace (last (show_u64 n))" "hd (show_u64 n) \<noteq> CHR '' ''"
proof -
  have "is_ascii_digit (last (show_u64 n))" and h: "is_ascii_digit (hd (show_u64 n))"
    using show_u64_chars(2) [of _ n] by auto
  then show "\<not> is_whitespace (last (show_u64 n))"
    using digit_not(1) by blast
  show "hd (show_u64 n) \<noteq> CHR '' ''"
    using h by (metis not_digit(1))
qed

lemma cr_len_exact:
  assumes "cr_valid (CrBytes f l n)"
  shows "unat (l - f + 1) = unat l - unat f + 1"
proof -
  have "unat (l - f) = unat l - unat f"
    using assms by (simp add: unat_minus_le)
  moreover have "unat l \<noteq> 2 ^ 64 - 1"
    using assms by (simp add: word_unat_eq_iff unat_minus_one_word)
  then have "unat l - unat f + 1 < 2 ^ 64"
    using unat_lt_2p [of l] by simp
  ultimately show ?thesis
    by (simp add: unat_word_ariths)
qed

definition display_body :: "content_range \<Rightarrow> string \<times> string" where
  "display_body r = (case r of
     CrBytes f l n \<Rightarrow> (show_u64 f @ ''-'' @ show_u64 l, case n of Some c \<Rightarrow> show_u64 c | None \<Rightarrow> ''*'')
   | CrUnsatisfied n \<Rightarrow> (''*'', show_u64 n))"

lemma display_parts: "display r = ''bytes '' @ fst (display_body r) @ ''/'' @ snd (display_body r)"
  by (cases r rule: display.cases) (simp_all add: display_body_def)

lemma display_body_facts:
  "CHR ''/'' \<notin> set (fst (display_body r))" "fst (display_body r) \<noteq> []" "snd (display_body r) \<noteq> []"
  "hd (fst (display_body r)) \<noteq> CHR '' ''" "\<not> is_whitespace (last (snd (display_body r)))"
  "\<not> list_ex is_ascii_whitespace (fst (display_body r))" "\<not> list_ex is_ascii_whitespace (snd (display_body r))"
  by (auto simp: display_body_def hd_append
      split: content_range.splits option.splits)

lemma from_str_display:
  assumes "cr_valid r"
  shows "from_str (display r) = Ok r"
proof -
  note F = display_body_facts [of r]
  have t: "trim (display r) = display r"
    by (rule trim_id) (use F in \<open>simp_all add: display_parts\<close>)
  have s: "split_once CHR '' '' (display r) = Some (''bytes'', fst (display_body r) @ ''/'' @ snd (display_body r))"
    by (simp add: display_parts)
  have d: "trim_start_matches (\<lambda>c. c = CHR '' '') (fst (display_body r) @ CHR ''/'' # snd (display_body r)) =
      fst (display_body r) @ CHR ''/'' # snd (display_body r)"
    using F(2,4) by (cases "fst (display_body r)") (simp_all add: trim_start_matches_def)
  have ne: "display r \<noteq> []"
    by (simp add: display_parts)
  have "from_str (display r) = parse_parts (fst (display_body r)) (snd (display_body r))"
    using ne by (simp add: from_str_def t s d split_once_append [OF F(1)] eq_ignore_ascii_case_def Let_def split_beta)
  also have "\<dots> = Ok r"
  proof (cases r)
    case (CrBytes f l n)
    have "fst (display_body r) \<noteq> ''*''" and sp: "split_once CHR ''-'' (fst (display_body r)) = Some (show_u64 f, show_u64 l)"
      using CrBytes by (simp_all add: display_body_def append_eq_Cons_conv)
    moreover have "(if snd (display_body r) = ''*'' then Ok None
        else and_then (parse_decimal (snd (display_body r))) (\<lambda>n. Ok (Some n))) = Ok n"
      using CrBytes by (simp add: display_body_def split: option.splits)
    ultimately show ?thesis
      using CrBytes assms F by (auto simp: parse_parts_def not_less split: option.splits)
  next
    case (CrUnsatisfied n)
    then show ?thesis
      using F by (simp add: parse_parts_def display_body_def)
  qed
  finally show ?thesis .
qed

section \<open>Properties\<close>

text \<open>
  C36.  The \<open>Content-Range\<close> codec.  Every range the parser accepts has its first byte at or before its last,
  a length that does not overflow, and its last byte inside a stated complete length; printing it and
  parsing the text gives it back, and so does every range with these properties.
\<close>

theorem content_range_roundtrip:
  "(\<forall>raw. from_str raw = Ok r \<longrightarrow> cr_valid r) \<and>
   (cr_valid r \<longrightarrow> from_str (display r) = Ok r) \<and>
   (\<forall>f l n. r = CrBytes f l n \<and> cr_valid r \<longrightarrow> map_option unat (cr_len r) = Some (unat l - unat f + 1))"
  using from_str_valid from_str_display cr_len_exact by auto

theorem content_range_roundtrip_witness:
  "from_str ''bytes 10-19/100'' = Ok (CrBytes 10 19 (Some 100))"
proof -
  have "display (CrBytes 10 19 (Some 100)) = ''bytes 10-19/100''"
    by (simp add: show_u64_def decimal.simps char_of_def bit_0)
  then show ?thesis
    using content_range_roundtrip [of "CrBytes 10 19 (Some 100)"] by simp
qed
end
