(* ===== verification/Remote.thy ===== *)
theory Remote
  imports ContentRange IoModel
begin

text \<open>
  What the capability probe learned, \<open>downpour-types/src/remote.rs\<close>: the evidence type \<open>RangeProof\<close> and its
  only constructor, validators, and server digests.
\<close>

section \<open>Range evidence\<close>

record range_observation =
  ob_requested :: byte_range_spec
  ob_status :: u16
  ob_content_range :: "string option"
  ob_content_encoding :: "string option"
  ob_body_len :: u64

record range_proof =
  rp_total_length :: u64
  rp_observed :: content_range
  rp_requested :: byte_range_spec
  rp_observation :: range_observation

datatype range_proof_error =
    StatusNot206 u16
  | UnexpectedContentEncoding string
  | ContentRangeAbsent
  | ContentRangeMalformed content_range_error
  | ContentRangeMismatch range_mismatch
  | TotalLengthUnknown
  | BodyLengthMismatch u64 u64

definition encoding_acceptable :: "string \<Rightarrow> bool" where
  "encoding_acceptable e = (trim e = [] \<or> eq_ignore_ascii_case (trim e) ''identity'')"

definition from_observed_response ::
    "byte_range_spec \<Rightarrow> u16 \<Rightarrow> string option \<Rightarrow> string option \<Rightarrow> u64 \<Rightarrow> range_proof_error + range_proof" where
  "from_observed_response requested status content_range content_encoding body_len =
     (let observation = \<lparr>ob_requested = requested, ob_status = status, ob_content_range = content_range,
                         ob_content_encoding = content_encoding, ob_body_len = body_len\<rparr> in
      if status \<noteq> 206 then Err (StatusNot206 status)
      else
        and_then (case content_encoding of
                    Some e \<Rightarrow> if \<not> encoding_acceptable e then Err (UnexpectedContentEncoding (trim e)) else Ok ()
                  | None \<Rightarrow> Ok ()) (\<lambda>_.
        and_then (ok_or ContentRangeAbsent content_range) (\<lambda>header.
        and_then (map_err ContentRangeMalformed (from_str header)) (\<lambda>observed.
        and_then (map_err ContentRangeMismatch (is_consistent_with observed requested)) (\<lambda>_.
        and_then (ok_or TotalLengthUnknown (cr_complete_length observed)) (\<lambda>total_len.
        and_then (ok_or TotalLengthUnknown (cr_len observed)) (\<lambda>expected.
        if body_len \<noteq> expected then Err (BodyLengthMismatch expected body_len)
        else Ok \<lparr>rp_total_length = total_len, rp_observed = observed, rp_requested = requested,
                 rp_observation = observation\<rparr>)))))))"

datatype range_support = Proven range_proof | Absent | Unknown

fun is_proven :: "range_support \<Rightarrow> bool" where
  "is_proven (Proven _) = True"
| "is_proven _ = False"

fun rs_total_length :: "range_support \<Rightarrow> u64 option" where
  "rs_total_length (Proven p) = Some (rp_total_length p)"
| "rs_total_length _ = None"

section \<open>Validators\<close>

datatype validator = StrongETag string | LastModified string | NoValidator

definition from_headers :: "string option \<Rightarrow> string option \<Rightarrow> validator" where
  "from_headers etag last_modified =
     (if (case etag of
            Some e \<Rightarrow> trim e \<noteq> [] \<and> \<not> starts_with (trim e) ''W/'' \<and> starts_with (trim e) [CHR 0x22]
          | None \<Rightarrow> False)
      then StrongETag (trim (the etag))
      else if (case last_modified of Some d \<Rightarrow> trim d \<noteq> [] | None \<Rightarrow> False)
      then LastModified (trim (the last_modified))
      else NoValidator)"

fun is_strong :: "validator \<Rightarrow> bool" where
  "is_strong (StrongETag _) = True"
| "is_strong _ = False"

fun if_range_value :: "validator \<Rightarrow> string option" where
  "if_range_value (StrongETag v) = Some v"
| "if_range_value (LastModified v) = Some v"
| "if_range_value NoValidator = None"

section \<open>Server digests\<close>

datatype digest_algorithm = Sha256 | Sha512

fun token :: "digest_algorithm \<Rightarrow> string" where
  "token Sha256 = ''sha-256''"
| "token Sha512 = ''sha-512''"

record content_digest =
  cd_algorithm :: digest_algorithm
  cd_encoded :: string

text \<open>One dictionary member: \<open>None\<close> is the \<open>continue\<close> of the loop.\<close>

definition digest_member :: "string \<Rightarrow> content_digest option" where
  "digest_member member_text =
     (case split_once CHR ''='' member_text of
        None \<Rightarrow> None
      | Some (key, value) \<Rightarrow>
          (let name = to_ascii_lowercase (trim key) in
           case (if name = ''sha-256'' then Some Sha256 else if name = ''sha-512'' then Some Sha512 else None) of
             None \<Rightarrow> None
           | Some algorithm \<Rightarrow>
               (case strip_prefix (trim value) '':'' of
                  None \<Rightarrow> None
                | Some v \<Rightarrow>
                    (case strip_suffix v '':'' of
                       None \<Rightarrow> None
                     | Some encoded \<Rightarrow>
                         if encoded = [] then None
                         else Some \<lparr>cd_algorithm = algorithm, cd_encoded = encoded\<rparr>))))"

fun digest_loop :: "content_digest option \<Rightarrow> string list \<Rightarrow> content_digest option" where
  "digest_loop best [] = best"
| "digest_loop best (m # ms) =
     (case digest_member m of
        None \<Rightarrow> digest_loop best ms
      | Some candidate \<Rightarrow>
          (let stronger = (case best of
              Some current \<Rightarrow> cd_algorithm candidate = Sha512 \<and> cd_algorithm current = Sha256
            | None \<Rightarrow> True)
           in digest_loop (if stronger then Some candidate else best) ms))"

definition cd_parse :: "string \<Rightarrow> content_digest option" where
  "cd_parse raw = digest_loop None (split_on CHR '','' raw)"

section \<open>Protocol\<close>

datatype negotiated_protocol = Http11 | Http2 | Http3

fun protocol_name :: "negotiated_protocol \<Rightarrow> string" where
  "protocol_name Http11 = ''HTTP/1.1''"
| "protocol_name Http2 = ''HTTP/2''"
| "protocol_name Http3 = ''HTTP/3''"

section \<open>Properties\<close>

lemma observed_response_facts:
  assumes "from_observed_response req status cr ce body = Ok proof"
  shows "status = 206 \<and> (\<forall>e. ce = Some e \<longrightarrow> encoding_acceptable e) \<and>
    (\<exists>raw f l n. cr = Some raw \<and> from_str raw = Ok (CrBytes f l (Some n)) \<and>
       rp_observed proof = CrBytes f l (Some n) \<and> rp_total_length proof = n \<and>
       f \<le> l \<and> l < n \<and> unat body = unat l - unat f + 1 \<and>
       (case req of
          FromTo a b \<Rightarrow> f = a \<and> l \<le> b
        | From a \<Rightarrow> f = a
        | Suffix k \<Rightarrow> unat f = unat n - unat k \<and> unat l + 1 = unat n)) \<and>
    (let ob = rp_observation proof in
     from_observed_response (ob_requested ob) (ob_status ob) (ob_content_range ob) (ob_content_encoding ob)
       (ob_body_len ob) = Ok proof)"
proof -
  obtain raw obs n len where raw: "cr = Some raw" and obs: "from_str raw = Ok obs"
    and con: "is_consistent_with obs req = Ok ()" and n: "cr_complete_length obs = Some n"
    and len: "cr_len obs = Some body" and st: "status = 206" and enc: "\<forall>e. ce = Some e \<longrightarrow> encoding_acceptable e"
    and pr: "proof = \<lparr>rp_total_length = n, rp_observed = obs, rp_requested = req,
      rp_observation = \<lparr>ob_requested = req, ob_status = status, ob_content_range = cr,
        ob_content_encoding = ce, ob_body_len = body\<rparr>\<rparr>"
    using assms
    by (auto simp: from_observed_response_def Let_def and_then_eq_Inr split: if_splits option.splits)
  obtain f l where bytes: "obs = CrBytes f l (Some n)"
    using n con by (cases obs) auto
  then have v: "cr_valid (CrBytes f l (Some n))"
    using from_str_valid [OF obs] by simp
  have ln: "unat l < unat n"
    using v by (simp add: word_lt_unat)
  have u1: "unat (n - 1) + 1 = unat n"
  proof -
    have "(1 :: u64) \<le> n"
      using ln by (simp add: word_le_unat)
    then have "unat (n - 1) = unat n - 1"
      using unat_minus_le [of 1 n] by simp
    then show ?thesis
      using ln by simp
  qed
  have "case req of FromTo a b \<Rightarrow> f = a \<and> l \<le> b | From a \<Rightarrow> f = a
      | Suffix k \<Rightarrow> unat f = unat n - unat k \<and> unat l + 1 = unat n"
    using con u1 by (cases req) (auto simp: bytes Let_def unat_saturating_sub not_less split: if_splits)
  moreover have "unat body = unat l - unat f + 1"
    using len cr_len_exact [OF v] bytes by simp
  moreover have "from_observed_response req status cr ce body = Ok proof"
    by (rule assms)
  ultimately show ?thesis
    using raw obs bytes st enc pr v by (auto simp: Let_def)
qed

text \<open>
  C35.  Range support is proven, never assumed.  A \<open>RangeProof\<close> exists only for a 206 answer without a
  content coding whose \<open>Content-Range\<close> parses, starts exactly where the request asked, does not end beyond
  it, states the total length, and describes exactly as many bytes as the body had; and re-validating the
  stored observation gives the same proof.
\<close>

theorem range_proof_sound:
  assumes "from_observed_response req status cr ce body = Ok proof"
  shows "status = 206 \<and> (\<forall>e. ce = Some e \<longrightarrow> encoding_acceptable e) \<and>
    (\<exists>raw f l n. cr = Some raw \<and> from_str raw = Ok (CrBytes f l (Some n)) \<and>
       rp_observed proof = CrBytes f l (Some n) \<and> rp_total_length proof = n \<and>
       f \<le> l \<and> l < n \<and> unat body = unat l - unat f + 1 \<and>
       (case req of
          FromTo a b \<Rightarrow> f = a \<and> l \<le> b
        | From a \<Rightarrow> f = a
        | Suffix k \<Rightarrow> unat f = unat n - unat k \<and> unat l + 1 = unat n)) \<and>
    (let ob = rp_observation proof in
     from_observed_response (ob_requested ob) (ob_status ob) (ob_content_range ob) (ob_content_encoding ob)
       (ob_body_len ob) = Ok proof)"
  using assms by (rule observed_response_facts)

theorem range_proof_sound_witness:
  "\<exists>proof f l n. from_observed_response (FromTo 0 9) 206 (Some (display (CrBytes 0 4 (Some 100)))) (Some '' Identity'') 5 = Ok proof \<and>
     rp_observed proof = CrBytes f l (Some n) \<and> f = 0 \<and> l \<le> 9 \<and> l < n"
proof -
  have "from_str (display (CrBytes 0 4 (Some 100))) = Ok (CrBytes 0 4 (Some 100))"
    by (rule from_str_display) simp
  moreover have "encoding_acceptable '' Identity''"
    by (simp add: encoding_acceptable_def trim_def trim_start_matches_def trim_end_matches_def is_whitespace_def
        eq_ignore_ascii_case_def to_ascii_lowercase_def to_ascii_lower_def is_ascii_upper_def ord_of_def char_of_def bit_0)
  ultimately obtain p where p: "from_observed_response (FromTo 0 9) 206 (Some (display (CrBytes 0 4 (Some 100))))
      (Some '' Identity'') 5 = Ok p"
    by (simp add: from_observed_response_def Let_def del: display.simps)
  from range_proof_sound [OF this] p show ?thesis
    by auto
qed

end
