(* ===== verification/Utf8.thy ===== *)
theory Utf8
  imports Prelude
begin

text \<open>
  Rust text.  A \<open>str\<close> is a list of Unicode scalar values, its bytes are their UTF-8 encoding, and \<open>len\<close>
  counts these bytes.  \<open>str::from_utf8\<close> is the strict decoder: no overlong form, no surrogate, nothing
  above U+10FFFF.
\<close>

type_synonym rust_char = nat
type_synonym rust_str = "rust_char list"

definition lit :: "string \<Rightarrow> rust_str" where
  "lit s = map of_char s"

section \<open>Well-formed UTF-8\<close>

definition utf8_cont :: "u8 \<Rightarrow> bool" where
  "utf8_cont b = (0x80 \<le> b \<and> b \<le> 0xbf)"

definition utf8_second :: "u8 \<Rightarrow> u8 \<Rightarrow> bool" where
  "utf8_second lead b =
     ((if lead = 0xe0 then 0xa0 else if lead = 0xf0 then 0x90 else 0x80) \<le> b \<and>
      b \<le> (if lead = 0xed then 0x9f else if lead = 0xf4 then 0x8f else 0xbf))"

fun utf8_valid :: "bytes \<Rightarrow> bool" where
  "utf8_valid [] = True"
| "utf8_valid (b # bs) =
     (if b \<le> 0x7f then utf8_valid bs
      else if 0xc2 \<le> b \<and> b \<le> 0xdf then
        (case bs of c1 # r \<Rightarrow> utf8_cont c1 \<and> utf8_valid r | _ \<Rightarrow> False)
      else if 0xe0 \<le> b \<and> b \<le> 0xef then
        (case bs of c1 # c2 # r \<Rightarrow> utf8_second b c1 \<and> utf8_cont c2 \<and> utf8_valid r | _ \<Rightarrow> False)
      else if 0xf0 \<le> b \<and> b \<le> 0xf4 then
        (case bs of c1 # c2 # c3 # r \<Rightarrow> utf8_second b c1 \<and> utf8_cont c2 \<and> utf8_cont c3 \<and> utf8_valid r
         | _ \<Rightarrow> False)
      else False)"

text \<open>The payload bits of a lead byte below \<open>limit\<close> and of a continuation byte.\<close>

definition lead_bits :: "u8 \<Rightarrow> nat \<Rightarrow> nat" where
  "lead_bits b limit = unat b mod limit"

definition cont_bits :: "u8 \<Rightarrow> nat" where
  "cont_bits b = unat b mod 64"

fun from_utf8 :: "bytes \<Rightarrow> rust_str option" where
  "from_utf8 [] = Some []"
| "from_utf8 (b # bs) =
     (if b \<le> 0x7f then map_option (Cons (unat b)) (from_utf8 bs)
      else if 0xc2 \<le> b \<and> b \<le> 0xdf then
        (case bs of
           c1 # r \<Rightarrow> if utf8_cont c1 then map_option (Cons (lead_bits b 32 * 64 + cont_bits c1)) (from_utf8 r) else None
         | _ \<Rightarrow> None)
      else if 0xe0 \<le> b \<and> b \<le> 0xef then
        (case bs of
           c1 # c2 # r \<Rightarrow>
             if utf8_second b c1 \<and> utf8_cont c2
             then map_option (Cons (lead_bits b 16 * 64 ^ 2 + cont_bits c1 * 64 + cont_bits c2)) (from_utf8 r) else None
         | _ \<Rightarrow> None)
      else if 0xf0 \<le> b \<and> b \<le> 0xf4 then
        (case bs of
           c1 # c2 # c3 # r \<Rightarrow>
             if utf8_second b c1 \<and> utf8_cont c2 \<and> utf8_cont c3
             then map_option (Cons (lead_bits b 8 * 64 ^ 3 + cont_bits c1 * 64 ^ 2 + cont_bits c2 * 64 + cont_bits c3))
                    (from_utf8 r)
             else None
         | _ \<Rightarrow> None)
      else None)"

section \<open>Lengths in bytes\<close>

definition utf8_width :: "rust_char \<Rightarrow> nat" where
  "utf8_width c = (if c < 0x80 then 1 else if c < 0x800 then 2 else if c < 0x10000 then 3 else 4)"

definition str_len :: "rust_str \<Rightarrow> nat" where
  "str_len s = sum_list (map utf8_width s)"

text \<open>\<open>str::get(..n)\<close>: the prefix of \<open>n\<close> bytes, when \<open>n\<close> is a character boundary of the text.\<close>

fun get_to :: "rust_str \<Rightarrow> nat \<Rightarrow> rust_str option" where
  "get_to s 0 = Some []"
| "get_to [] (Suc n) = None"
| "get_to (c # s) (Suc n) =
     (if utf8_width c \<le> Suc n then map_option (Cons c) (get_to s (Suc n - utf8_width c)) else None)"

lemma get_to_code [code]:
  "get_to s n = (if n = 0 then Some [] else case s of [] \<Rightarrow> None | c # cs \<Rightarrow>
     if utf8_width c \<le> n then map_option (Cons c) (get_to cs (n - utf8_width c)) else None)"
  by (cases n; cases s) auto

definition is_char_boundary :: "rust_str \<Rightarrow> nat \<Rightarrow> bool" where
  "is_char_boundary s n = (get_to s n \<noteq> None)"

section \<open>Lemmas\<close>

lemma from_utf8_valid: "from_utf8 bs \<noteq> None \<longleftrightarrow> utf8_valid bs"
proof (induction "length bs" arbitrary: bs rule: less_induct)
  case less
  show ?case
  proof (cases bs)
    case (Cons b t)
    have IH: "(\<exists>y. from_utf8 r = Some y) \<longleftrightarrow> utf8_valid r" if "length r \<le> length t" for r
      using less [of r] that Cons by auto
    show ?thesis
      unfolding Cons from_utf8.simps utf8_valid.simps
      by (cases "b \<le> 0x7f"; cases "0xc2 \<le> b \<and> b \<le> 0xdf"; cases "0xe0 \<le> b \<and> b \<le> 0xef"; cases "0xf0 \<le> b \<and> b \<le> 0xf4";
          simp only: if_True if_False simp_thms; auto simp: IH split: list.split)
  qed simp
qed

lemma utf8_width_pos [simp]: "0 < utf8_width c" "utf8_width c \<noteq> 0"
  by (auto simp: utf8_width_def)

lemma utf8_width_le: "utf8_width c \<le> 4"
  by (simp add: utf8_width_def)

lemma str_len_simps [simp]:
  "str_len [] = 0" "str_len (c # s) = utf8_width c + str_len s" "str_len (s @ t) = str_len s + str_len t"
  by (simp_all add: str_len_def)

lemma str_len_0 [simp]: "str_len s = 0 \<longleftrightarrow> s = []"
  by (cases s) simp_all

lemma get_to_prefix [simp]: "get_to (h @ t) (str_len h) = Some h"
proof (induction h)
  case Nil
  then show ?case by (cases t) simp_all
next
  case (Cons c h)
  obtain n where "str_len (c # h) = Suc n"
    by (metis gr0_conv_Suc str_len_0 list.discI not_gr_zero)
  then show ?case
    using Cons by (metis append_Cons diff_add_inverse get_to.simps(3) le_add1 option.map(2) str_len_simps(2))
qed

lemma get_to_Some: "get_to s n = Some h \<Longrightarrow> str_len h = n \<and> (\<exists>t. s = h @ t)"
  by (induction s n arbitrary: h rule: get_to.induct) (auto split: if_splits)

end
