(* ===== verification/Filename.thy ===== *)
theory Filename
  imports Utf8
begin

text \<open>
  File names from servers, \<open>downpour-types/src/filename.rs\<close>: the choice of a name from
  \<open>Content-Disposition\<close> and the URL, and its reduction to one safe path component.

  The splitting of a URL path and percent decoding belong to other crates; they are the fields of
  \<open>name_env\<close>.  The byte loop of \<open>split_parameters\<close> looks for ASCII bytes only, which occur in UTF-8 text
  exactly as these characters, so it runs over characters here.
\<close>

record 'u name_env =
  ne_path_segments :: "'u \<Rightarrow> rust_str list option"
  ne_percent_decode :: "rust_str \<Rightarrow> bytes"

section \<open>Sanitising\<close>

definition DEFAULT_NAME :: rust_str where "DEFAULT_NAME = lit ''download''"
definition MAX_NAME_BYTES :: nat where "MAX_NAME_BYTES = 255"
definition PART_SUFFIX_BYTES :: nat where "PART_SUFFIX_BYTES = str_len (lit ''.dppart'')"
definition MAX_TRUNCATED_BYTES :: nat where "MAX_TRUNCATED_BYTES = MAX_NAME_BYTES - 1 - PART_SUFFIX_BYTES"

definition RESERVED_STEMS :: "rust_str list" where
  "RESERVED_STEMS = map lit
     [''CON'', ''PRN'', ''AUX'', ''NUL'', ''COM1'', ''COM2'', ''COM3'', ''COM4'', ''COM5'', ''COM6'', ''COM7'', ''COM8'',
      ''COM9'', ''LPT1'', ''LPT2'', ''LPT3'', ''LPT4'', ''LPT5'', ''LPT6'', ''LPT7'', ''LPT8'', ''LPT9'']"

abbreviation ch_dot :: rust_char where "ch_dot \<equiv> 46"
abbreviation ch_space :: rust_char where "ch_space \<equiv> 32"
abbreviation ch_underscore :: rust_char where "ch_underscore \<equiv> 95"
abbreviation ch_slash :: rust_char where "ch_slash \<equiv> 47"
abbreviation ch_backslash :: rust_char where "ch_backslash \<equiv> 92"

text \<open>The characters \<open>< > : " | ? * / \\<close> in this order.\<close>

definition ILLEGAL :: "rust_char list" where
  "ILLEGAL = [60, 62, 58, 34, 124, 63, 42, ch_slash, ch_backslash]"

text \<open>\<open>char::is_control\<close> is the general category Cc.\<close>

definition char_is_control :: "rust_char \<Rightarrow> bool" where
  "char_is_control c = (c < 32 \<or> 127 \<le> c \<and> c \<le> 159)"

definition ascii_lower :: "rust_char \<Rightarrow> rust_char" where
  "ascii_lower c = (if 65 \<le> c \<and> c \<le> 90 then c + 32 else c)"

definition str_eq_ignore_case :: "rust_str \<Rightarrow> rust_str \<Rightarrow> bool" where
  "str_eq_ignore_case a b = (map ascii_lower a = map ascii_lower b)"

definition is_reserved_stem :: "rust_str \<Rightarrow> bool" where
  "is_reserved_stem name = list_ex (str_eq_ignore_case (takeWhile (\<lambda>c. c \<noteq> ch_dot) name)) RESERVED_STEMS"

text \<open>The loop steps \<open>end\<close> down to a character boundary.\<close>

fun boundary_below :: "rust_str \<Rightarrow> nat \<Rightarrow> nat" where
  "boundary_below s 0 = 0"
| "boundary_below s (Suc n) = (if is_char_boundary s (Suc n) then Suc n else boundary_below s n)"

definition truncate_at_char_boundary :: "rust_str \<Rightarrow> nat \<Rightarrow> rust_str" where
  "truncate_at_char_boundary s max_bytes =
     (if str_len s \<le> max_bytes then s
      else (case get_to s (boundary_below s max_bytes) of Some h \<Rightarrow> h | None \<Rightarrow> []))"

text \<open>\<open>str::rfind\<close> of a character, as the text before the last occurrence and the text after it.\<close>

definition rsplit_once :: "rust_char \<Rightarrow> rust_str \<Rightarrow> (rust_str \<times> rust_str) option" where
  "rsplit_once c s =
     (if c \<in> set s
      then Some (rev (tl (dropWhile (\<lambda>x. x \<noteq> c) (rev s))), rev (takeWhile (\<lambda>x. x \<noteq> c) (rev s)))
      else None)"

definition MAX_GROUP_BYTES :: nat where "MAX_GROUP_BYTES = 8"

text \<open>\<open>extension_loop n head ext\<close>: \<open>n\<close> rounds are left, \<open>head\<close> is the name up to \<open>start\<close>, \<open>ext\<close> the rest.\<close>

fun extension_loop :: "nat \<Rightarrow> rust_str \<Rightarrow> rust_str \<Rightarrow> rust_str" where
  "extension_loop 0 head ext = ext"
| "extension_loop (Suc n) head ext =
     (case rsplit_once ch_dot head of
        None \<Rightarrow> ext
      | Some (before, grp) \<Rightarrow>
          if before = [] then ext
          else if grp = [] \<or> str_len grp > MAX_GROUP_BYTES \<or> ch_space \<in> set grp then ext
          else extension_loop n before (ch_dot # grp @ ext))"

definition extension_to_keep :: "rust_str \<Rightarrow> rust_str" where
  "extension_to_keep name = extension_loop 2 name []"

definition str_trim_end :: "rust_char set \<Rightarrow> rust_str \<Rightarrow> rust_str" where
  "str_trim_end cs s = rev (dropWhile (\<lambda>c. c \<in> cs) (rev s))"

definition truncate_keeping_extension :: "rust_str \<Rightarrow> rust_str" where
  "truncate_keeping_extension name =
     (let extension = extension_to_keep name;
          head_budget = MAX_TRUNCATED_BYTES - str_len extension;
          head = (case get_to name (str_len name - str_len extension) of Some h \<Rightarrow> h | None \<Rightarrow> []);
          head = str_trim_end {ch_dot, ch_space} (truncate_at_char_boundary head head_budget)
      in head @ extension)"

text \<open>\<open>rsplit(['/', '\\']).next()\<close>.\<close>

definition last_component :: "rust_str \<Rightarrow> rust_str" where
  "last_component raw = rev (takeWhile (\<lambda>c. c \<noteq> ch_slash \<and> c \<noteq> ch_backslash) (rev raw))"

definition clean :: "rust_str \<Rightarrow> rust_str option" where
  "clean raw =
     (let base = last_component raw;
          replaced = map (\<lambda>c. if char_is_control c \<or> c \<in> set ILLEGAL then ch_underscore else c) base;
          trimmed = str_trim_end {ch_dot, ch_space} (dropWhile (\<lambda>c. c = ch_space) replaced);
          sized = (if str_len trimmed > MAX_NAME_BYTES then truncate_keeping_extension trimmed else trimmed)
      in if sized = [] then None
         else Some (if is_reserved_stem sized then ch_underscore # sized else sized))"

definition sanitise :: "rust_str \<Rightarrow> rust_str" where
  "sanitise raw = (case clean raw of Some name \<Rightarrow> name | None \<Rightarrow> DEFAULT_NAME)"

section \<open>Content-Disposition\<close>

text \<open>\<open>str::trim\<close> removes Unicode white space.\<close>

definition char_is_whitespace :: "rust_char \<Rightarrow> bool" where
  "char_is_whitespace c =
     (9 \<le> c \<and> c \<le> 13 \<or> c \<in> {0x20, 0x85, 0xa0, 0x1680, 0x2028, 0x2029, 0x202f, 0x205f, 0x3000} \<or> 0x2000 \<le> c \<and> c \<le> 0x200a)"

definition str_trim :: "rust_str \<Rightarrow> rust_str" where
  "str_trim s = rev (dropWhile char_is_whitespace (rev (dropWhile char_is_whitespace s)))"

definition str_split_once :: "rust_char \<Rightarrow> rust_str \<Rightarrow> (rust_str \<times> rust_str) option" where
  "str_split_once c s =
     (if c \<in> set s then Some (takeWhile (\<lambda>x. x \<noteq> c) s, tl (dropWhile (\<lambda>x. x \<noteq> c) s)) else None)"

text \<open>\<open>split_loop in_quotes escaped part rest\<close>; 59 is a semicolon, 34 a quotation mark.\<close>

fun split_loop :: "bool \<Rightarrow> bool \<Rightarrow> rust_str \<Rightarrow> rust_str \<Rightarrow> rust_str list" where
  "split_loop in_quotes escaped part [] = [part]"
| "split_loop in_quotes escaped part (c # cs) =
     (if escaped then split_loop in_quotes False (part @ [c]) cs
      else if c = ch_backslash \<and> in_quotes then split_loop in_quotes True (part @ [c]) cs
      else if c = 34 then split_loop (\<not> in_quotes) False (part @ [c]) cs
      else if c = 59 \<and> \<not> in_quotes then part # split_loop in_quotes False [] cs
      else split_loop in_quotes False (part @ [c]) cs)"

definition split_parameters :: "rust_str \<Rightarrow> rust_str list" where
  "split_parameters header = split_loop False False [] header"

fun unescape :: "rust_str \<Rightarrow> rust_str" where
  "unescape [] = []"
| "unescape [c] = (if c = ch_backslash then [] else [c])"
| "unescape (c # d # cs) = (if c = ch_backslash then d # unescape cs else c # unescape (d # cs))"

definition unquote :: "rust_str \<Rightarrow> rust_str" where
  "unquote value =
     (if 2 \<le> length value \<and> hd value = 34 \<and> last value = 34 then unescape (butlast (tl value)) else value)"

definition decode_extended_value :: "(rust_str \<Rightarrow> bytes) \<Rightarrow> rust_str \<Rightarrow> rust_str option" where
  "decode_extended_value percent_decode value =
     (case str_split_once 39 value of
        None \<Rightarrow> None
      | Some (charset, rest) \<Rightarrow>
          (case str_split_once 39 rest of
             None \<Rightarrow> None
           | Some (_, encoded) \<Rightarrow>
               (let bs = percent_decode encoded in
                if str_eq_ignore_case charset (lit ''utf-8'') then from_utf8 bs
                else if str_eq_ignore_case charset (lit ''iso-8859-1'') then Some (map unat bs)
                else None)))"

fun disposition_loop ::
    "(rust_str \<Rightarrow> bytes) \<Rightarrow> rust_str option \<Rightarrow> rust_str option \<Rightarrow> rust_str list \<Rightarrow> rust_str option" where
  "disposition_loop percent_decode plain extended [] = (case extended of Some e \<Rightarrow> Some e | None \<Rightarrow> plain)"
| "disposition_loop percent_decode plain extended (p # ps) =
     (case str_split_once 61 p of
        None \<Rightarrow> disposition_loop percent_decode plain extended ps
      | Some (name, value) \<Rightarrow>
          (let name = str_trim name; value = unquote (str_trim value) in
           if str_eq_ignore_case name (lit ''filename*'')
           then disposition_loop percent_decode plain
                  (case extended of None \<Rightarrow> decode_extended_value percent_decode value | Some e \<Rightarrow> Some e) ps
           else if str_eq_ignore_case name (lit ''filename'') \<and> plain = None
           then disposition_loop percent_decode (Some value) extended ps
           else disposition_loop percent_decode plain extended ps))"

definition from_content_disposition :: "(rust_str \<Rightarrow> bytes) \<Rightarrow> rust_str \<Rightarrow> rust_str option" where
  "from_content_disposition percent_decode header = disposition_loop percent_decode None None (split_parameters header)"

definition from_url_path :: "'u name_env \<Rightarrow> 'u \<Rightarrow> rust_str option" where
  "from_url_path env u =
     (case ne_path_segments env u of
        None \<Rightarrow> None
      | Some segments \<Rightarrow>
          if segments = [] \<or> last segments = [] then None else from_utf8 (ne_percent_decode env (last segments)))"

definition resolve :: "'u name_env \<Rightarrow> rust_str option \<Rightarrow> 'u \<Rightarrow> rust_str" where
  "resolve env content_disposition u =
     (case Option.bind (Option.bind content_disposition (from_content_disposition (ne_percent_decode env))) clean of
        Some name \<Rightarrow> name
      | None \<Rightarrow>
          (case Option.bind (from_url_path env u) clean of
             Some name \<Rightarrow> name
           | None \<Rightarrow> DEFAULT_NAME))"

section \<open>What a clean name is\<close>

text \<open>One normal path component that every supported file system keeps as it is.\<close>

definition portable_char :: "rust_char \<Rightarrow> bool" where
  "portable_char c = (32 \<le> c \<and> \<not> (127 \<le> c \<and> c \<le> 159) \<and> c \<notin> of_char ` {CHR ''<'', CHR ''>'', CHR '':'', CHR 0x22,
     CHR ''|'', CHR ''?'', CHR ''*'', CHR ''/'', CHR 0x5c})"

definition safe_name :: "rust_str \<Rightarrow> bool" where
  "safe_name s =
     (s \<noteq> [] \<and> s \<noteq> lit ''.'' \<and> s \<noteq> lit ''..'' \<and>
      list_all portable_char s \<and>
      hd s \<noteq> ch_space \<and> last s \<noteq> ch_dot \<and> last s \<noteq> ch_space \<and> \<not> is_reserved_stem s)"

section \<open>Trimming and truncating\<close>

lemma trim_end_prefix: "\<exists>t. s = str_trim_end P s @ t"
proof -
  have "s = rev (dropWhile (\<lambda>c. c \<in> P) (rev s)) @ rev (takeWhile (\<lambda>c. c \<in> P) (rev s))"
    by (metis rev_append rev_rev_ident takeWhile_dropWhile_id)
  then show ?thesis
    unfolding str_trim_end_def by blast
qed

lemma trim_end_last: "str_trim_end P s \<noteq> [] \<Longrightarrow> last (str_trim_end P s) \<notin> P"
  by (metis hd_dropWhile last_rev rev_is_Nil_conv str_trim_end_def)

lemma trim_end_id: "s = [] \<or> last s \<notin> P \<Longrightarrow> str_trim_end P s = s"
  by (cases s rule: rev_cases) (auto simp: str_trim_end_def)

lemma truncate_prefix:
  "\<exists>t. s = truncate_at_char_boundary s n @ t" "str_len (truncate_at_char_boundary s n) \<le> n"
proof -
  have b: "boundary_below s n \<le> n" for n
    by (induction n) auto
  show "\<exists>t. s = truncate_at_char_boundary s n @ t" "str_len (truncate_at_char_boundary s n) \<le> n"
    using b [of n] by (auto simp: truncate_at_char_boundary_def split: option.splits dest: get_to_Some)
qed

lemma rsplit_once_Some:
  assumes "rsplit_once c s = Some (a, b)"
  shows "s = a @ c # b" "c \<notin> set b"
proof -
  let ?r = "dropWhile (\<lambda>x. x \<noteq> c) (rev s)"
  have c: "c \<in> set s" and a: "a = rev (tl ?r)" and b: "b = rev (takeWhile (\<lambda>x. x \<noteq> c) (rev s))"
    using assms by (auto simp: rsplit_once_def split: if_splits)
  have "?r \<noteq> []"
    using c by (auto simp: dropWhile_eq_Nil_conv)
  then have "?r = c # tl ?r"
    using hd_dropWhile [of "\<lambda>x. x \<noteq> c" "rev s"] by (metis (full_types) list.collapse)
  then have "rev s = takeWhile (\<lambda>x. x \<noteq> c) (rev s) @ c # tl ?r"
    by (metis takeWhile_dropWhile_id)
  then have "rev (rev s) = rev (takeWhile (\<lambda>x. x \<noteq> c) (rev s) @ c # tl ?r)"
    by (rule arg_cong)
  then show "s = a @ c # b"
    by (simp add: a b)
  show "c \<notin> set b"
    unfolding b by (auto dest: set_takeWhileD)
qed

lemma extension_loop_spec:
  "\<exists>h g. extension_loop n head ext = g @ ext \<and> head = h @ g \<and> str_len g \<le> n * Suc MAX_GROUP_BYTES \<and>
     (g \<noteq> [] \<longrightarrow> hd g = ch_dot \<and> h \<noteq> [])"
proof (induction n arbitrary: head ext)
  case (Suc n)
  show ?case
  proof (cases "rsplit_once ch_dot head")
    case (Some p)
    obtain a g where p: "p = (a, g)" by (cases p)
    note sp = rsplit_once_Some [OF Some [unfolded p]]
    show ?thesis
    proof (cases "a = [] \<or> g = [] \<or> str_len g > MAX_GROUP_BYTES \<or> ch_space \<in> set g")
      case True
      then show ?thesis using Some p by auto
    next
      case False
      obtain h g' where g': "extension_loop n a (ch_dot # g @ ext) = g' @ ch_dot # g @ ext" "a = h @ g'"
        "str_len g' \<le> n * Suc MAX_GROUP_BYTES" "g' \<noteq> [] \<longrightarrow> hd g' = ch_dot \<and> h \<noteq> []"
        using Suc [of a "ch_dot # g @ ext"] by blast
      have "hd (g' @ ch_dot # g) = ch_dot" "h \<noteq> []"
        using g' False by (cases g'; auto)+
      then show ?thesis
        using Some p False g' sp(1)
        by (intro exI [of _ h] exI [of _ "g' @ ch_dot # g"]) (auto simp: utf8_width_def)
    qed
  qed auto
qed auto

lemma extension_to_keep_spec:
  obtains h where "name = h @ extension_to_keep name" "str_len (extension_to_keep name) \<le> 18"
    "extension_to_keep name \<noteq> [] \<Longrightarrow> hd (extension_to_keep name) = ch_dot"
proof -
  obtain h g where hg: "extension_loop 2 name [] = g @ []" "name = h @ g" "str_len g \<le> 2 * Suc MAX_GROUP_BYTES"
    "g \<noteq> [] \<longrightarrow> hd g = ch_dot \<and> h \<noteq> []"
    using extension_loop_spec [of 2 name "[]"] by blast
  then have g: "extension_to_keep name = g"
    by (simp add: extension_to_keep_def)
  show thesis
    by (rule that [of h]; unfold g; use hg in \<open>simp add: MAX_GROUP_BYTES_def\<close>)
qed

lemma truncated_name:
  assumes "name \<noteq> []" and "hd name \<noteq> ch_space" and "last name \<noteq> ch_dot" and "last name \<noteq> ch_space"
  shows "str_len (truncate_keeping_extension name) \<le> MAX_TRUNCATED_BYTES"
    and "set (truncate_keeping_extension name) \<subseteq> set name"
    and "truncate_keeping_extension name \<noteq> [] \<Longrightarrow>
      hd (truncate_keeping_extension name) \<noteq> ch_space \<and> last (truncate_keeping_extension name) \<notin> {ch_dot, ch_space}"
proof -
  let ?e = "extension_to_keep name"
  obtain h where h: "name = h @ ?e" "str_len ?e \<le> 18" "?e \<noteq> [] \<Longrightarrow> hd ?e = ch_dot"
    using extension_to_keep_spec [of name] by blast
  let ?t = "truncate_at_char_boundary h (MAX_TRUNCATED_BYTES - str_len ?e)"
  let ?h = "str_trim_end {ch_dot, ch_space} ?t"
  have "get_to name (str_len name - str_len ?e) = Some h"
    using h(1) by (metis add_diff_cancel_right' get_to_prefix str_len_simps(3))
  then have t: "truncate_keeping_extension name = ?h @ ?e"
    by (simp add: truncate_keeping_extension_def Let_def)
  obtain t1 t2 where pre: "h = ?t @ t1" "?t = ?h @ t2"
    using truncate_prefix(1) trim_end_prefix by metis
  have "str_len ?h \<le> str_len ?t"
    using pre(2) by (metis le_add1 str_len_simps(3))
  moreover have "str_len ?t \<le> MAX_TRUNCATED_BYTES - str_len ?e"
    by (rule truncate_prefix)
  ultimately show "str_len (truncate_keeping_extension name) \<le> MAX_TRUNCATED_BYTES"
    using h(2) by (simp add: t MAX_TRUNCATED_BYTES_def MAX_NAME_BYTES_def PART_SUFFIX_BYTES_def lit_def utf8_width_def)
  have sub: "set ?h \<subseteq> set h"
    using pre by (metis Un_upper1 order_trans set_append)
  then show "set (truncate_keeping_extension name) \<subseteq> set name"
    using h(1) by (metis Un_mono set_append subset_refl t)
  assume ne: "truncate_keeping_extension name \<noteq> []"
  have "hd (?h @ ?e) \<noteq> ch_space"
  proof (cases "?h = []")
    case True
    then show ?thesis using ne h(3) by (auto simp: t)
  next
    case False
    then have "hd ?h = hd name"
      using pre h(1) by (metis append.assoc hd_append2)
    then show ?thesis using False assms(2) by simp
  qed
  moreover have "last (?h @ ?e) \<notin> {ch_dot, ch_space}"
  proof (cases "?e = []")
    case True
    then show ?thesis using ne trim_end_last [of "{ch_dot, ch_space}" ?t] by (simp add: t)
  next
    case False
    then have "last (?h @ ?e) = last name" using h(1) by (metis last_append)
    then show ?thesis using assms by simp
  qed
  ultimately show "hd (truncate_keeping_extension name) \<noteq> ch_space \<and> last (truncate_keeping_extension name) \<notin> {ch_dot, ch_space}"
    by (simp add: t)
qed

section \<open>Clean names\<close>

abbreviation plain_char :: "rust_char \<Rightarrow> bool" where
  "plain_char c \<equiv> \<not> char_is_control c \<and> c \<notin> set ILLEGAL"

lemma portable_plain: "portable_char c \<longleftrightarrow> plain_char c"
  by (auto simp: portable_char_def char_is_control_def ILLEGAL_def)

text \<open>What \<open>clean\<close> has after step 3.\<close>

definition trimmed_name :: "rust_str \<Rightarrow> rust_str" where
  "trimmed_name raw =
     str_trim_end {ch_dot, ch_space} (dropWhile (\<lambda>c. c = ch_space)
       (map (\<lambda>c. if char_is_control c \<or> c \<in> set ILLEGAL then ch_underscore else c) (last_component raw)))"

definition sized_name :: "rust_str \<Rightarrow> rust_str" where
  "sized_name t = (if str_len t > MAX_NAME_BYTES then truncate_keeping_extension t else t)"

lemma clean_sized:
  "clean raw = (let s = sized_name (trimmed_name raw) in
     if s = [] then None else Some (if is_reserved_stem s then ch_underscore # s else s))"
  by (simp add: clean_def trimmed_name_def sized_name_def Let_def)

lemma underscore_plain [simp]: "plain_char ch_underscore" "\<not> is_reserved_stem (ch_underscore # s)"
  by (simp_all add: char_is_control_def ILLEGAL_def is_reserved_stem_def RESERVED_STEMS_def str_eq_ignore_case_def
      lit_def ascii_lower_def)

lemma trimmed_facts:
  shows "list_all plain_char (trimmed_name raw)"
    and "trimmed_name raw \<noteq> [] \<Longrightarrow> hd (trimmed_name raw) \<noteq> ch_space \<and> last (trimmed_name raw) \<notin> {ch_dot, ch_space}"
proof -
  let ?m = "map (\<lambda>c. if char_is_control c \<or> c \<in> set ILLEGAL then ch_underscore else c) (last_component raw)"
  let ?d = "dropWhile (\<lambda>c. c = ch_space) ?m"
  obtain t where t: "?d = trimmed_name raw @ t"
    using trim_end_prefix [of ?d] by (auto simp: trimmed_name_def)
  have "set ?d = set (trimmed_name raw) \<union> set t"
    by (simp only: t set_append)
  then have "set (trimmed_name raw) \<subseteq> set ?m"
    using set_dropWhileD [of _ "\<lambda>c. c = ch_space" ?m] by blast
  moreover have "list_all plain_char ?m"
    by (auto simp: list_all_iff)
  ultimately show "list_all plain_char (trimmed_name raw)"
    unfolding list_all_iff by blast
  assume ne: "trimmed_name raw \<noteq> []"
  then have "hd ?d = hd (trimmed_name raw)" "?d \<noteq> []"
    using t by auto
  then have "hd (trimmed_name raw) \<noteq> ch_space"
    using hd_dropWhile [of "\<lambda>c. c = ch_space" ?m] by metis
  then show "hd (trimmed_name raw) \<noteq> ch_space \<and> last (trimmed_name raw) \<notin> {ch_dot, ch_space}"
    using ne trim_end_last [of "{ch_dot, ch_space}" ?d] by (simp add: trimmed_name_def)
qed

lemma sized_facts:
  assumes "sized_name (trimmed_name raw) = s" and "s \<noteq> []"
  shows "list_all plain_char s" "hd s \<noteq> ch_space" "last s \<notin> {ch_dot, ch_space}" "str_len s \<le> MAX_NAME_BYTES"
proof -
  have ne: "trimmed_name raw \<noteq> []"
    using assms by (auto simp: sized_name_def MAX_NAME_BYTES_def)
  note t = truncated_name [of "trimmed_name raw", OF ne]
  show "list_all plain_char s" "hd s \<noteq> ch_space" "last s \<notin> {ch_dot, ch_space}" "str_len s \<le> MAX_NAME_BYTES"
    using assms trimmed_facts [of raw] ne t
    by (auto simp: sized_name_def list_all_iff MAX_TRUNCATED_BYTES_def split: if_splits)
qed

lemma safe_nameI:
  assumes "s \<noteq> []" "list_all plain_char s" "hd s \<noteq> ch_space" "last s \<notin> {ch_dot, ch_space}" "\<not> is_reserved_stem s"
  shows "safe_name s"
  using assms by (auto simp: safe_name_def lit_def list_all_iff portable_plain)

lemma clean_safe:
  assumes "clean raw = Some name"
  shows "safe_name name" "str_len name \<le> Suc MAX_NAME_BYTES"
proof -
  let ?s = "sized_name (trimmed_name raw)"
  have s: "?s \<noteq> []" "name = (if is_reserved_stem ?s then ch_underscore # ?s else ?s)"
    using assms by (auto simp: clean_sized Let_def split: if_splits)
  note f = sized_facts [OF refl s(1)]
  show "safe_name name"
    using s f by (auto intro!: safe_nameI)
  show "str_len name \<le> Suc MAX_NAME_BYTES"
    using s f by (auto simp: utf8_width_def)
qed

lemma default_safe: "safe_name DEFAULT_NAME" "str_len DEFAULT_NAME = 8"
  by (simp_all add: DEFAULT_NAME_def lit_def safe_name_def portable_char_def char_is_control_def ILLEGAL_def utf8_width_def is_reserved_stem_def
      RESERVED_STEMS_def str_eq_ignore_case_def ascii_lower_def)

lemma plain_not_separator: "plain_char c \<Longrightarrow> c \<noteq> ch_slash \<and> c \<noteq> ch_backslash"
  by (auto simp: ILLEGAL_def)

lemma trimmed_id:
  assumes "list_all plain_char s" "s \<noteq> []" "hd s \<noteq> ch_space" "last s \<notin> {ch_dot, ch_space}"
  shows "trimmed_name s = s"
proof -
  have "takeWhile (\<lambda>c. c \<noteq> ch_slash \<and> c \<noteq> ch_backslash) (rev s) = rev s"
    using assms(1) plain_not_separator by (simp only: takeWhile_eq_all_conv list_all_iff set_rev) blast
  then have "last_component s = s"
    by (simp only: last_component_def rev_rev_ident)
  moreover have "map (\<lambda>c. if char_is_control c \<or> c \<in> set ILLEGAL then ch_underscore else c) s = s"
    using assms(1) by (auto simp: list_all_iff intro!: map_idI)
  moreover have "dropWhile (\<lambda>c. c = ch_space) s = s"
    using assms(2,3) by (cases s) auto
  ultimately show ?thesis
    using assms(4) by (simp add: trimmed_name_def trim_end_id)
qed

text \<open>
  C37.  A name taken from a server cannot leave the directory it is joined to.  Whatever the header and the
  URL say, the resolved name and every sanitised name is one normal component: not empty, not \<open>.\<close> or \<open>..\<close>,
  free of separators, control characters and characters Windows forbids, without a leading space or a
  trailing dot or space, not a device name, and at most 256 bytes long.
\<close>

theorem resolved_name_safe:
  "safe_name (resolve env content_disposition u) \<and> str_len (resolve env content_disposition u) \<le> Suc MAX_NAME_BYTES \<and>
   safe_name (sanitise raw) \<and> str_len (sanitise raw) \<le> Suc MAX_NAME_BYTES"
  using default_safe clean_safe
  by (auto simp: resolve_def sanitise_def MAX_NAME_BYTES_def Option.bind_eq_Some_conv split: option.splits)

lemma sanitise_facts: "safe_name (sanitise raw)"
  using default_safe clean_safe by (auto simp: sanitise_def split: option.splits)

lemma sanitise_short:
  assumes "safe_name s" "str_len s \<le> MAX_NAME_BYTES"
  shows "sanitise s = s"
  using assms trimmed_id [of s] by (auto simp: safe_name_def list_all_iff portable_plain sanitise_def clean_sized sized_name_def Let_def)

lemma sanitise_long:
  assumes "safe_name s" "str_len s > MAX_NAME_BYTES"
  shows "str_len (sanitise s) \<le> Suc MAX_TRUNCATED_BYTES"
proof -
  have "trimmed_name s = s"
    using assms by (intro trimmed_id) (auto simp: safe_name_def list_all_iff portable_plain)
  then have "sized_name (trimmed_name s) = truncate_keeping_extension s"
    using assms(2) by (simp add: sized_name_def)
  moreover have "str_len (truncate_keeping_extension s) \<le> MAX_TRUNCATED_BYTES"
    using assms(1) by (intro truncated_name) (auto simp: safe_name_def)
  ultimately show ?thesis
    using default_safe(2)
    by (auto simp: sanitise_def clean_sized Let_def utf8_width_def MAX_TRUNCATED_BYTES_def MAX_NAME_BYTES_def
        PART_SUFFIX_BYTES_def lit_def)
qed

text \<open>A reserved stem of exactly the byte limit.\<close>

definition long_device :: rust_str where
  "long_device = lit ''CON.'' @ replicate 251 97"

lemma sanitise_long_device: "sanitise long_device = ch_underscore # long_device" "str_len long_device = MAX_NAME_BYTES"
proof -
  have w: "str_len (replicate n 97) = n" for n
    by (induction n) (simp_all add: utf8_width_def)
  show l: "str_len long_device = MAX_NAME_BYTES"
    by (simp add: long_device_def lit_def MAX_NAME_BYTES_def w) (simp add: utf8_width_def)
  have "trimmed_name long_device = long_device"
    by (rule trimmed_id) (auto simp: long_device_def lit_def list_all_iff char_is_control_def ILLEGAL_def)
  moreover have "is_reserved_stem long_device"
    by (simp add: long_device_def lit_def is_reserved_stem_def RESERVED_STEMS_def str_eq_ignore_case_def ascii_lower_def)
  moreover have "long_device \<noteq> []"
    by (simp add: long_device_def lit_def)
  ultimately show "sanitise long_device = ch_underscore # long_device"
    using l by (simp add: sanitise_def clean_sized sized_name_def Let_def)
qed

text \<open>
  C38.  Sanitising is idempotent exactly on the results of at most 255 bytes.  The exception exists: a device
  stem in a name of exactly 255 bytes gets its prefix after the length check, so the result has 256
  bytes, and sanitising it again shortens it to another name.
\<close>

theorem sanitise_idempotent_iff:
  "(sanitise (sanitise raw) = sanitise raw \<longleftrightarrow> str_len (sanitise raw) \<le> MAX_NAME_BYTES) \<and>
   str_len (sanitise long_device) = 256 \<and> sanitise (sanitise long_device) \<noteq> sanitise long_device"
proof -
  have iff: "sanitise (sanitise raw) = sanitise raw \<longleftrightarrow> str_len (sanitise raw) \<le> MAX_NAME_BYTES" for raw
  proof (cases "str_len (sanitise raw) \<le> MAX_NAME_BYTES")
    case True
    then show ?thesis by (simp add: sanitise_short sanitise_facts)
  next
    case False
    then have "str_len (sanitise (sanitise raw)) < str_len (sanitise raw)"
      using sanitise_long [OF sanitise_facts, of raw] by (simp add: MAX_TRUNCATED_BYTES_def MAX_NAME_BYTES_def)
    then show ?thesis using False by auto
  qed
  then show ?thesis
    using sanitise_long_device iff [of long_device] by (simp add: MAX_NAME_BYTES_def utf8_width_def)
qed

end
