(* ===== verification/HttpBackend.thy ===== *)
theory HttpBackend
  imports RangeSink Retry Remote Filename
begin

text \<open>
  The HTTP backend of \<open>downpour-http\<close>: the requests and outcomes of \<open>protocol.rs\<close>, the errors of \<open>error.rs\<close>,
  and the probe and the ranged fetch of \<open>h1h2.rs\<close>.

  \<open>reqwest\<close> is the field \<open>he_execute\<close>: from a network state and a request it gives the next state and
  either a failure or a response.  A response is its status, its HTTP version, the text of its headers
  (\<open>HeaderMap::get\<close> followed by \<open>to_str\<close>) and the answers of successive \<open>chunk\<close> calls.  Joining URLs, parsing
  media types, the clock and the parameters of \<open>Filename\<close> are fields too.
\<close>

section \<open>Requests and outcomes\<close>

record 'u probe_request =
  pq_url :: 'u
  pq_headers :: "(string \<times> string) list"
  pq_max_redirects :: u32
  pq_timeout :: duration

definition probe_request_new :: "'u \<Rightarrow> 'u probe_request" where
  "probe_request_new u = \<lparr>pq_url = u, pq_headers = [], pq_max_redirects = 10, pq_timeout = from_secs 15\<rparr>"

record 'u range_request =
  rq_url :: 'u
  rq_range :: "byte_range_spec option"
  rq_if_range :: "string option"
  rq_headers :: "(string \<times> string) list"
  rq_timeout :: duration

definition request_whole :: "'u \<Rightarrow> 'u range_request" where
  "request_whole u =
     \<lparr>rq_url = u, rq_range = None, rq_if_range = None, rq_headers = [], rq_timeout = from_secs 300\<rparr>"

definition request_ranged :: "'u \<Rightarrow> byte_range_spec \<Rightarrow> 'u range_request" where
  "request_ranged u rng =
     \<lparr>rq_url = u, rq_range = Some rng, rq_if_range = None, rq_headers = [], rq_timeout = from_secs 300\<rparr>"

definition request_resume :: "'u \<Rightarrow> byte_range_spec \<Rightarrow> string \<Rightarrow> 'u range_request" where
  "request_resume u rng validator_text =
     \<lparr>rq_url = u, rq_range = Some rng, rq_if_range = Some validator_text, rq_headers = [],
      rq_timeout = from_secs 300\<rparr>"

record range_outcome =
  oc_bytes_delivered :: u64
  oc_status :: u16
  oc_content_range :: "content_range option"
  oc_protocol :: negotiated_protocol
  oc_truncated :: bool

record 'u remote_object =
  rem_final_url :: 'u
  rem_redirect_chain :: "'u list"
  rem_total_length :: "u64 option"
  rem_range_support :: range_support
  rem_validator :: validator
  rem_digest :: "content_digest option"
  rem_protocol :: negotiated_protocol
  rem_suggested_filename :: "rust_str option"
  rem_content_type :: "string option"
  rem_probed_at :: system_time

section \<open>Errors\<close>

datatype 'u probe_error =
    PeTransport 'u
  | PeTimeout 'u
  | PeTooManyRedirects 'u u32
  | PeRedirectWithoutLocation 'u u16
  | PeUnusableRedirectTarget 'u string
  | PeUnexpectedStatus 'u u16 "string option"
  | PeNeedsRefresh 'u u16
  | PeLooksLikeAnErrorPage 'u string
  | PeContentEncoding 'u range_proof_error

fun probe_error_kind :: "'u probe_error \<Rightarrow> string" where
  "probe_error_kind (PeTransport _) = ''transport''"
| "probe_error_kind (PeTimeout _) = ''timeout''"
| "probe_error_kind (PeTooManyRedirects _ _) = ''too_many_redirects''"
| "probe_error_kind (PeRedirectWithoutLocation _ _) = ''redirect_without_location''"
| "probe_error_kind (PeUnusableRedirectTarget _ _) = ''unusable_redirect_target''"
| "probe_error_kind (PeUnexpectedStatus _ _ _) = ''unexpected_status''"
| "probe_error_kind (PeNeedsRefresh _ _) = ''needs_refresh''"
| "probe_error_kind (PeLooksLikeAnErrorPage _ _) = ''looks_like_error_page''"
| "probe_error_kind (PeContentEncoding _ _) = ''unexpected_content_encoding''"

datatype 'u transfer_error =
    TeTransport 'u
  | TeTimeout 'u u64
  | TeTruncatedBody 'u u64 u64
  | TeUnexpectedStatus 'u u16 "string option"
  | TeLooksLikeAnErrorPage 'u string
  | TeUnusableRangeResponse 'u range_proof_error
  | TeOverDelivery 'u sink_error
  | TeSink 'u sink_error
  | TeValidatorMismatch 'u u64 u16 string

fun transfer_error_kind :: "'u transfer_error \<Rightarrow> string" where
  "transfer_error_kind (TeTransport _) = ''transport''"
| "transfer_error_kind (TeTimeout _ _) = ''timeout''"
| "transfer_error_kind (TeTruncatedBody _ _ _) = ''truncated_body''"
| "transfer_error_kind (TeUnexpectedStatus _ _ _) = ''unexpected_status''"
| "transfer_error_kind (TeLooksLikeAnErrorPage _ _) = ''looks_like_error_page''"
| "transfer_error_kind (TeUnusableRangeResponse _ _) = ''unusable_range_response''"
| "transfer_error_kind (TeOverDelivery _ _) = ''over_delivery''"
| "transfer_error_kind (TeSink _ _) = ''sink''"
| "transfer_error_kind (TeValidatorMismatch _ _ _ _) = ''validator_mismatch''"

section \<open>The network\<close>

datatype send_error = SendTimeout | SendFailed

datatype http_version = Version11 | Version2 | Version3 | VersionOther

datatype body_event = BodyChunk bytes | BodyTimeout | BodyError

record http_response =
  rsp_status :: u16
  rsp_version :: http_version
  rsp_header :: "string \<Rightarrow> string option"
  rsp_body :: "body_event list"

record ('n, 'u) http_env =
  he_execute :: "'n \<Rightarrow> 'u \<Rightarrow> (string \<times> string) list \<Rightarrow> duration \<Rightarrow> 'n \<times> (send_error + http_response)"
  he_join :: "'u \<Rightarrow> string \<Rightarrow> 'u option"
  he_names :: "'u name_env"
  he_parse_mime :: "string \<Rightarrow> string option"
  he_now :: "'n \<Rightarrow> system_time"

definition request_headers ::
    "byte_range_spec option \<Rightarrow> string option \<Rightarrow> (string \<times> string) list \<Rightarrow> (string \<times> string) list" where
  "request_headers rng if_range headers =
     [(''accept-encoding'', ''identity'')]
     @ (case rng of Some r \<Rightarrow> [(''range'', header_value r)] | None \<Rightarrow> [])
     @ (case if_range of Some v \<Rightarrow> [(''if-range'', v)] | None \<Rightarrow> [])
     @ headers"

definition send ::
    "('n, 'u) http_env \<Rightarrow> 'n \<Rightarrow> 'u \<Rightarrow> byte_range_spec option \<Rightarrow> string option \<Rightarrow> (string \<times> string) list \<Rightarrow> duration \<Rightarrow>
     'n \<times> (send_error + http_response)" where
  "send env n u rng if_range headers timeout = he_execute env n u (request_headers rng if_range headers) timeout"

fun protocol_of :: "http_version \<Rightarrow> negotiated_protocol" where
  "protocol_of Version2 = Http2"
| "protocol_of Version3 = Http3"
| "protocol_of _ = Http11"

definition is_redirect :: "u16 \<Rightarrow> bool" where
  "is_redirect status = (status \<in> {301, 302, 303, 307, 308})"

definition looks_like_a_web_page :: "string option \<Rightarrow> bool" where
  "looks_like_a_web_page content_type =
     (case content_type of
        None \<Rightarrow> False
      | Some raw \<Rightarrow>
          (let value = to_ascii_lowercase (trim raw) in
           starts_with value ''text/html'' \<or> starts_with value ''application/xhtml+xml''))"

definition byte_is_ascii_whitespace :: "u8 \<Rightarrow> bool" where
  "byte_is_ascii_whitespace b = (b \<in> {9, 10, 12, 13, 32})"

definition byte_to_lower :: "u8 \<Rightarrow> u8" where
  "byte_to_lower b = (if 65 \<le> b \<and> b \<le> 90 then b + 32 else b)"

definition MARKERS :: "bytes list" where
  "MARKERS = map (map (\<lambda>c. of_nat (of_char c)))
     [''<!doctype html'', ''<html'', ''<head'', ''<body'', ''<!doctype'']"

definition body_looks_like_a_web_page :: "string option \<Rightarrow> bytes \<Rightarrow> bool" where
  "body_looks_like_a_web_page content_type head =
     (let declared_generic = (case content_type of
             None \<Rightarrow> True
           | Some raw \<Rightarrow>
               (let value = to_ascii_lowercase (trim raw) in
                starts_with value ''application/octet-stream'' \<or> starts_with value ''binary/octet-stream''
                \<or> starts_with value ''application/binary''))
      in if \<not> declared_generic then False
         else
           (let rest = (if take 3 head = [0xEF, 0xBB, 0xBF] then drop 3 head else head);
                rest = dropWhile byte_is_ascii_whitespace rest;
                prefix = map byte_to_lower (take 64 rest)
            in list_ex (\<lambda>marker. take (length marker) prefix = marker) MARKERS))"

text \<open>\<open>str::parse::<u64>\<close> accepts a leading plus sign.\<close>

definition u64_from_str :: "string \<Rightarrow> u64 option" where
  "u64_from_str s = (case s of c # t \<Rightarrow> if c = CHR ''+'' then parse_u64 t else parse_u64 s | [] \<Rightarrow> None)"

definition content_length_of :: "http_response \<Rightarrow> u64 option" where
  "content_length_of response = Option.bind (rsp_header response ''content-length'') u64_from_str"

text \<open>A whole-representation response must not be encoded.\<close>

definition refused_encoding :: "string option \<Rightarrow> string option" where
  "refused_encoding content_encoding =
     (case content_encoding of
        Some e \<Rightarrow> if trim e \<noteq> [] \<and> \<not> eq_ignore_ascii_case (trim e) ''identity'' then Some (trim e) else None
      | None \<Rightarrow> None)"

section \<open>The probe\<close>

abbreviation PROBE_RANGE :: byte_range_spec where "PROBE_RANGE \<equiv> FromTo 0 0"

text \<open>\<open>Response::bytes\<close>: the whole body, or the first failure.\<close>

fun body_bytes :: "body_event list \<Rightarrow> bytes option" where
  "body_bytes [] = Some []"
| "body_bytes (BodyChunk c # es) = map_option (\<lambda>rest. c @ rest) (body_bytes es)"
| "body_bytes (_ # es) = None"

definition digest_of_response :: "http_response \<Rightarrow> content_digest option" where
  "digest_of_response response =
     Option.bind (case rsp_header response ''repr-digest'' of
                    Some d \<Rightarrow> Some d | None \<Rightarrow> rsp_header response ''content-digest'') cd_parse"

definition describe ::
    "('n, 'u) http_env \<Rightarrow> 'n \<Rightarrow> 'u \<Rightarrow> 'u list \<Rightarrow> http_response \<Rightarrow> u64 option \<Rightarrow> range_support \<Rightarrow> 'u remote_object" where
  "describe env n current chain response total_length range_support =
     \<lparr>rem_final_url = current, rem_redirect_chain = chain, rem_total_length = total_length,
      rem_range_support = range_support,
      rem_validator = from_headers (rsp_header response ''etag'') (rsp_header response ''last-modified''),
      rem_digest = digest_of_response response,
      rem_protocol = protocol_of (rsp_version response),
      rem_suggested_filename =
        Some (resolve (he_names env) (map_option lit (rsp_header response ''content-disposition'')) current),
      rem_content_type = Option.bind (rsp_header response ''content-type'') (he_parse_mime env),
      rem_probed_at = he_now env n\<rparr>"

definition probe_support :: "'u \<Rightarrow> http_response \<Rightarrow> u64 \<Rightarrow> 'u probe_error + range_support" where
  "probe_support current response body_len =
     (case from_observed_response PROBE_RANGE (rsp_status response) (rsp_header response ''content-range'')
             (rsp_header response ''content-encoding'') body_len of
        Ok p \<Rightarrow> Ok (Proven p)
      | Err (UnexpectedContentEncoding e) \<Rightarrow> Err (PeContentEncoding current (UnexpectedContentEncoding e))
      | Err _ \<Rightarrow> Ok Absent)"

definition probe_total_length :: "http_response \<Rightarrow> range_support \<Rightarrow> u64 option" where
  "probe_total_length response range_support =
     (case rs_total_length range_support of
        Some t \<Rightarrow> Some t
      | None \<Rightarrow> if rsp_status response = 200 then content_length_of response else None)"

text \<open>What the probe concludes from a 200 or 206 answer.\<close>

definition probe_conclude ::
    "('n, 'u) http_env \<Rightarrow> 'n \<Rightarrow> 'u \<Rightarrow> 'u list \<Rightarrow> bool \<Rightarrow> http_response \<Rightarrow> 'u probe_error + 'u remote_object" where
  "probe_conclude env n current chain probe_with_range response =
     (let content_type = rsp_header response ''content-type'';
          content_encoding = rsp_header response ''content-encoding''
      in
      if looks_like_a_web_page content_type
      then Err (PeLooksLikeAnErrorPage current (case content_type of Some t \<Rightarrow> t | None \<Rightarrow> []))
      else
        (case body_bytes (rsp_body response) of
           None \<Rightarrow> Err (PeTransport current)
         | Some body \<Rightarrow>
             (let body_len = (case try_from_nat (length body) of Some b \<Rightarrow> b | None \<Rightarrow> - 1) in
              if \<not> probe_with_range then
                (case refused_encoding content_encoding of
                   Some e \<Rightarrow> Err (PeContentEncoding current (UnexpectedContentEncoding e))
                 | None \<Rightarrow> Ok (describe env n current chain response (content_length_of response) Absent))
              else
                and_then (probe_support current response body_len) (\<lambda>range_support.
                  Ok (describe env n current chain response (probe_total_length response range_support) range_support)))))"

text \<open>
  The loop.  \<open>hops\<close> is a \<open>u32\<close> and its increment wraps, so a limit of \<open>u32::MAX\<close> would never be exceeded;
  the loop is a partial function.
\<close>

partial_function (option) probe_loop ::
    "('n, 'u) http_env \<Rightarrow> 'u probe_request \<Rightarrow> 'n \<Rightarrow> 'u \<Rightarrow> 'u list \<Rightarrow> u32 \<Rightarrow> bool \<Rightarrow>
     ('n \<times> ('u probe_error + 'u remote_object)) option" where
  "probe_loop env request n current chain hops probe_with_range =
     (if hops > pq_max_redirects request
      then Some (n, Err (PeTooManyRedirects (pq_url request) (pq_max_redirects request)))
      else
        (case send env n current (if probe_with_range then Some PROBE_RANGE else None) None
                (pq_headers request) (pq_timeout request) of
           (n1, Err SendTimeout) \<Rightarrow> Some (n1, Err (PeTimeout current))
         | (n1, Err SendFailed) \<Rightarrow> Some (n1, Err (PeTransport current))
         | (n1, Ok response) \<Rightarrow>
             (let status = rsp_status response in
              if is_redirect status then
                (case rsp_header response ''location'' of
                   None \<Rightarrow> Some (n1, Err (PeRedirectWithoutLocation current status))
                 | Some location \<Rightarrow>
                     (case he_join env current location of
                        None \<Rightarrow> Some (n1, Err (PeUnusableRedirectTarget current location))
                      | Some next \<Rightarrow> probe_loop env request n1 next (chain @ [next]) (hops + 1) probe_with_range))
              else if status = 416 \<and> probe_with_range then probe_loop env request n1 current chain hops False
              else if status \<in> {401, 403, 410} then Some (n1, Err (PeNeedsRefresh current status))
              else if status \<notin> {200, 206}
              then Some (n1, Err (PeUnexpectedStatus current status (rsp_header response ''retry-after'')))
              else Some (n1, probe_conclude env n1 current chain probe_with_range response))))"

declare probe_loop.simps [code]

definition probe ::
    "('n, 'u) http_env \<Rightarrow> 'n \<Rightarrow> 'u probe_request \<Rightarrow> ('n \<times> ('u probe_error + 'u remote_object)) option" where
  "probe env n request = probe_loop env request n (pq_url request) [pq_url request] 0 True"

section \<open>The fetch\<close>

fun range_start :: "byte_range_spec \<Rightarrow> u64" where
  "range_start (From first_byte) = first_byte"
| "range_start (FromTo first_byte _) = first_byte"
| "range_start (Suffix _) = 0"

text \<open>Everything that is checked before the first byte is accepted; \<open>Ok None\<close> is a whole representation.\<close>

definition check_response ::
    "'u range_request \<Rightarrow> http_response \<Rightarrow> 'u transfer_error + content_range option" where
  "check_response request response =
     (let status = rsp_status response;
          u = rq_url request;
          content_encoding = rsp_header response ''content-encoding'';
          content_range_header = rsp_header response ''content-range''
      in
      and_then (case rq_if_range request of
                  Some v \<Rightarrow>
                    if status \<noteq> 206
                    then Err (TeValidatorMismatch u
                                (case rq_range request of Some r \<Rightarrow> range_start r | None \<Rightarrow> 0) status v)
                    else Ok ()
                | None \<Rightarrow> Ok ()) (\<lambda>_.
      if status \<notin> {200, 206} then Err (TeUnexpectedStatus u status (rsp_header response ''retry-after''))
      else
        (case rq_range request of
           Some requested \<Rightarrow>
             and_then (map_err (TeUnusableRangeResponse u)
                 (from_observed_response requested status content_range_header content_encoding
                    (case Option.bind content_range_header
                            (\<lambda>h. case from_str h of Ok parsed \<Rightarrow> cr_len parsed | Err _ \<Rightarrow> None) of
                       Some n \<Rightarrow> n | None \<Rightarrow> 0))) (\<lambda>p.
               Ok (Some (rp_observed p)))
         | None \<Rightarrow>
             (case refused_encoding content_encoding of
                Some e \<Rightarrow> Err (TeUnusableRangeResponse u (UnexpectedContentEncoding e))
              | None \<Rightarrow> Ok None))))"

text \<open>The answers of \<open>chunk\<close>, one by one; the result is the number of bytes delivered.\<close>

fun fetch_loop ::
    "'t sink_target \<Rightarrow> 'u \<Rightarrow> string option \<Rightarrow> u64 option \<Rightarrow> u64 \<Rightarrow> 't range_sink \<Rightarrow> body_event list \<Rightarrow>
     't range_sink \<times> ('u transfer_error + u64)" where
  "fetch_loop T u declared_type promised delivered sk [] = (sk, Ok delivered)"
| "fetch_loop T u declared_type promised delivered sk (BodyTimeout # es) = (sk, Err (TeTimeout u delivered))"
| "fetch_loop T u declared_type promised delivered sk (BodyError # es) =
     (sk, Err (case promised of
                 Some expected \<Rightarrow> if delivered < expected then TeTruncatedBody u expected delivered else TeTransport u
               | None \<Rightarrow> TeTransport u))"
| "fetch_loop T u declared_type promised delivered sk (BodyChunk c # es) =
     (if c = [] then fetch_loop T u declared_type promised delivered sk es
      else if delivered = 0 \<and> body_looks_like_a_web_page declared_type c
      then (sk, Err (TeLooksLikeAnErrorPage u (case declared_type of Some t \<Rightarrow> t | None \<Rightarrow> [])))
      else
        (case sink_accept T sk c of
           (sk1, Err (BeyondGrant g w a)) \<Rightarrow> (sk1, Err (TeOverDelivery u (BeyondGrant g w a)))
         | (sk1, Err e) \<Rightarrow> (sk1, Err (TeSink u e))
         | (sk1, Ok _) \<Rightarrow>
             fetch_loop T u declared_type promised
               (saturating_add delivered (case try_from_nat (length c) of Some n \<Rightarrow> n | None \<Rightarrow> 0)) sk1 es))"

definition promised_length :: "http_response \<Rightarrow> content_range option \<Rightarrow> u64 option" where
  "promised_length response content_range =
     (case Option.bind content_range cr_len of Some n \<Rightarrow> Some n | None \<Rightarrow> content_length_of response)"

definition fetch_range ::
    "('n, 'u) http_env \<Rightarrow> 't sink_target \<Rightarrow> 'n \<Rightarrow> 'u range_request \<Rightarrow> 't range_sink \<Rightarrow>
     'n \<times> 't range_sink \<times> ('u transfer_error + range_outcome)" where
  "fetch_range env T n request sk =
     (let u = rq_url request in
      case send env n u (rq_range request) (rq_if_range request) (rq_headers request) (rq_timeout request) of
        (n1, Err SendTimeout) \<Rightarrow> (n1, sk, Err (TeTimeout u 0))
      | (n1, Err SendFailed) \<Rightarrow> (n1, sk, Err (TeTransport u))
      | (n1, Ok response) \<Rightarrow>
          (case check_response request response of
             Err e \<Rightarrow> (n1, sk, Err e)
           | Ok content_range \<Rightarrow>
               (let promised = promised_length response content_range in
                case fetch_loop T u (rsp_header response ''content-type'') promised 0 sk (rsp_body response) of
                  (sk1, Err e) \<Rightarrow> (n1, sk1, Err e)
                | (sk1, Ok delivered) \<Rightarrow>
                    (n1, sk1,
                     Ok \<lparr>oc_bytes_delivered = delivered, oc_status = rsp_status response,
                         oc_content_range = content_range, oc_protocol = protocol_of (rsp_version response),
                         oc_truncated = (case promised of Some expected \<Rightarrow> delivered < expected | None \<Rightarrow> False)\<rparr>))))"

section \<open>Capabilities\<close>

datatype transport_mode = Negotiated | Http1Only | Http2PriorKnowledge

record backend_capabilities =
  bc_name :: string
  bc_protocols :: "negotiated_protocol list"
  bc_multiplexes_streams :: bool
  bc_supports_ranges :: bool

definition capabilities :: "transport_mode \<Rightarrow> backend_capabilities" where
  "capabilities mode =
     (let protocols = (case mode of
             Negotiated \<Rightarrow> [Http11, Http2] | Http1Only \<Rightarrow> [Http11] | Http2PriorKnowledge \<Rightarrow> [Http2])
      in \<lparr>bc_name = ''h1h2'', bc_protocols = protocols, bc_multiplexes_streams = (Http2 \<in> set protocols),
          bc_supports_ranges = True\<rparr>)"

section \<open>The probe returns\<close>

text \<open>What the caller of a probe may rely on.\<close>

definition probed :: "'u probe_request \<Rightarrow> 'u remote_object \<Rightarrow> bool" where
  "probed request remote =
     (hd (rem_redirect_chain remote) = pq_url request \<and> last (rem_redirect_chain remote) = rem_final_url remote \<and>
      length (rem_redirect_chain remote) \<le> unat (pq_max_redirects request) + 1 \<and>
      (\<exists>name. rem_suggested_filename remote = Some name \<and> safe_name name) \<and>
      (\<forall>p. rem_range_support remote = Proven p \<longrightarrow>
         rem_total_length remote = Some (rp_total_length p) \<and> rp_observed p = CrBytes 0 0 (Some (rp_total_length p)) \<and>
         ob_status (rp_observation p) = 206 \<and> ob_body_len (rp_observation p) = 1))"

lemma resolve_safe: "safe_name (resolve env content_disposition u)"
  using default_safe clean_safe by (auto simp: resolve_def Option.bind_eq_Some_conv split: option.splits)

lemma probe_proof:
  assumes "from_observed_response PROBE_RANGE status cr ce len = Ok p"
  shows "rp_observed p = CrBytes 0 0 (Some (rp_total_length p))" "ob_status (rp_observation p) = 206"
    "ob_body_len (rp_observation p) = 1"
proof -
  have f: "rp_observed p = CrBytes 0 0 (Some (rp_total_length p))" "unat len = 1" "status = 206"
    using observed_response_facts [OF assms] by auto
  have "len = 1"
    using f(2) by (metis unat_1 word_unat_eq_iff)
  moreover have "ob_status (rp_observation p) = status" "ob_body_len (rp_observation p) = len"
    using assms by (auto simp: from_observed_response_def Let_def and_then_eq_Inr split: if_splits option.splits)
  ultimately show "rp_observed p = CrBytes 0 0 (Some (rp_total_length p))" "ob_status (rp_observation p) = 206"
    "ob_body_len (rp_observation p) = 1"
    using f by simp_all
qed

lemma probe_support_Proven:
  "probe_support current response len = Ok (Proven p) \<Longrightarrow>
     from_observed_response PROBE_RANGE (rsp_status response) (rsp_header response ''content-range'')
       (rsp_header response ''content-encoding'') len = Ok p"
  by (auto simp: probe_support_def split: sum.splits range_proof_error.splits)

lemma probe_conclude_Ok:
  assumes "probe_conclude env n current chain wr response = Ok remote"
  shows "\<exists>total rs. remote = describe env n current chain response total rs \<and>
    (rs = Absent \<or> (\<exists>len. probe_support current response len = Ok rs \<and> total = probe_total_length response rs))"
proof (cases wr)
  case True
  then show ?thesis
    using assms by (auto simp: probe_conclude_def Let_def and_then_eq_Inr split: if_splits option.splits)
next
  case False
  then show ?thesis
    using assms by (auto simp: probe_conclude_def Let_def split: if_splits option.splits)
qed

lemma probe_conclude_probed:
  assumes "probe_conclude env n current chain wr response = Ok remote"
    and "hd chain = pq_url request" and "last chain = current" and "length chain \<le> unat (pq_max_redirects request) + 1"
  shows "probed request remote"
proof -
  obtain total rs where remote: "remote = describe env n current chain response total rs"
    and rs: "rs = Absent \<or> (\<exists>len. probe_support current response len = Ok rs \<and> total = probe_total_length response rs)"
    using probe_conclude_Ok [OF assms(1)] by blast
  have "total = Some (rp_total_length p) \<and> rp_observed p = CrBytes 0 0 (Some (rp_total_length p)) \<and>
      ob_status (rp_observation p) = 206 \<and> ob_body_len (rp_observation p) = 1" if "rs = Proven p" for p
    using rs that probe_proof [OF probe_support_Proven] by (auto simp: probe_total_length_def)
  then show ?thesis
    using assms(2-4) resolve_safe by (auto simp: remote probed_def describe_def)
qed

lemma probe_loop_returns:
  assumes "pq_max_redirects request \<noteq> - 1" and "unat hops \<le> unat (pq_max_redirects request) + 1"
    and "length chain = Suc (unat hops)" and "hd chain = pq_url request" and "last chain = current"
  shows "\<exists>n' r. probe_loop env request n current chain hops wr = Some (n', r) \<and> (\<forall>remote. r = Ok remote \<longrightarrow> probed request remote)"
  using assms(2-)
proof (induction "2 * (unat (pq_max_redirects request) + 1 - unat hops) + (if wr then 1 else 0)"
    arbitrary: n current chain hops wr rule: less_induct)
  case less
  let ?M = "pq_max_redirects request"
  have M: "unat ?M < 2 ^ 32 - 1"
  proof -
    have "unat ?M \<noteq> unat (- 1 :: u32)"
      using assms(1) by (simp add: word_unat_eq_iff [symmetric])
    then show ?thesis
      using unat_lt_2p [of ?M] by (simp add: unsigned_minus_1_eq_mask mask_eq_exp_minus_1)
  qed
  show ?case
  proof (cases "hops > ?M")
    case True
    then show ?thesis by (subst probe_loop.simps) simp
  next
    case False
    then have h: "unat hops \<le> unat ?M" "length chain \<le> unat ?M + 1"
      using less.prems(2) by (simp_all add: word_less_nat_alt)
    have h1: "unat (hops + 1) = unat hops + 1"
      using h(1) M by (simp add: unat_add_lem [THEN iffD1])
    obtain n1 res where sd: "send env n current (if wr then Some PROBE_RANGE else None) None (pq_headers request) (pq_timeout request) = (n1, res)"
      by (cases "send env n current (if wr then Some PROBE_RANGE else None) None (pq_headers request) (pq_timeout request)")
    have redirect: "\<exists>n' r. probe_loop env request n1 next (chain @ [next]) (hops + 1) wr = Some (n', r) \<and>
        (\<forall>remote. r = Ok remote \<longrightarrow> probed request remote)" for "next"
      using less.hyps [of "hops + 1" wr "chain @ [next]" "next" n1] h h1 less.prems by (cases chain) auto
    have again: "\<exists>n' r. probe_loop env request n1 current chain hops False = Some (n', r) \<and>
        (\<forall>remote. r = Ok remote \<longrightarrow> probed request remote)" if wr
      using less.hyps [of hops False chain current n1] less.prems that by auto
    have final: "probed request remote" if "probe_conclude env n1 current chain wr response = Ok remote" for remote response
      using probe_conclude_probed [OF that] less.prems h by simp
    show ?thesis
      by (subst probe_loop.simps)
         (use False sd redirect again final in \<open>auto simp: Let_def split: sum.split option.split send_error.split\<close>)
  qed
qed


text \<open>A server that redirects every request to the same place.\<close>

definition looping_server :: "(nat, string) http_env" where
  "looping_server =
     \<lparr>he_execute = (\<lambda>n u hs t. (Suc n, Ok \<lparr>rsp_status = 302, rsp_version = Version11, rsp_header = (\<lambda>_. Some ''/again''), rsp_body = []\<rparr>)),
      he_join = (\<lambda>u l. Some l), he_names = \<lparr>ne_path_segments = (\<lambda>_. None), ne_percent_decode = (\<lambda>_. [])\<rparr>,
      he_parse_mime = (\<lambda>_. None), he_now = int\<rparr>"


section \<open>What a fetch may write\<close>

text \<open>The bytes of the body that arrive before the first failure.\<close>

fun body_data :: "body_event list \<Rightarrow> bytes" where
  "body_data [] = []"
| "body_data (BodyChunk c # es) = c @ body_data es"
| "body_data (_ # es) = []"

lemma check_response_Ok:
  assumes "check_response request response = Ok content_range"
  shows "rsp_status response \<in> {200, 206}" "rq_if_range request \<noteq> None \<longrightarrow> rsp_status response = 206"
    and "case rq_range request of
        None \<Rightarrow> content_range = None \<and> refused_encoding (rsp_header response ''content-encoding'') = None
      | Some requested \<Rightarrow>
          (\<exists>p len. from_observed_response requested (rsp_status response) (rsp_header response ''content-range'')
             (rsp_header response ''content-encoding'') len = Ok p \<and> content_range = Some (rp_observed p))"
  using assms
  by (auto simp: check_response_def Let_def and_then_eq_Inr split: if_splits option.splits)

text \<open>
  C10.  No byte is written before the response is validated.  Whatever the network and the target do, if a
  fetch changed its sink then the status was 200 or 206; on a resume with \<open>If-Range\<close> it was 206; and a ranged
  request was answered by an unencoded 206 whose \<open>Content-Range\<close> starts at the requested offset, stays
  within the request and states the total length.
\<close>

theorem fetch_validates_first:
  assumes "fetch_range env T n request sk = (n', sk', res)" and "sk' \<noteq> sk"
  shows "\<exists>response. send env n (rq_url request) (rq_range request) (rq_if_range request) (rq_headers request)
      (rq_timeout request) = (n', Ok response) \<and>
    rsp_status response \<in> {200, 206} \<and> (rq_if_range request \<noteq> None \<longrightarrow> rsp_status response = 206) \<and>
    (\<forall>requested. rq_range request = Some requested \<longrightarrow>
       rsp_status response = 206 \<and> (\<forall>e. rsp_header response ''content-encoding'' = Some e \<longrightarrow> encoding_acceptable e) \<and>
       (\<exists>raw f l total. rsp_header response ''content-range'' = Some raw \<and> from_str raw = Ok (CrBytes f l (Some total)) \<and>
          f \<le> l \<and> l < total \<and>
          (case requested of FromTo a b \<Rightarrow> f = a \<and> l \<le> b | From a \<Rightarrow> f = a
           | Suffix k \<Rightarrow> unat f = unat total - unat k \<and> unat l + 1 = unat total)))"
proof -
  obtain response content_range where r: "send env n (rq_url request) (rq_range request) (rq_if_range request)
      (rq_headers request) (rq_timeout request) = (n', Ok response)" "check_response request response = Ok content_range"
    using assms by (auto simp: fetch_range_def Let_def split: prod.splits sum.splits send_error.splits)
  note c = check_response_Ok [OF r(2)]
  have "rsp_status response = 206 \<and> (\<forall>e. rsp_header response ''content-encoding'' = Some e \<longrightarrow> encoding_acceptable e) \<and>
       (\<exists>raw f l total. rsp_header response ''content-range'' = Some raw \<and> from_str raw = Ok (CrBytes f l (Some total)) \<and>
          f \<le> l \<and> l < total \<and>
          (case requested of FromTo a b \<Rightarrow> f = a \<and> l \<le> b | From a \<Rightarrow> f = a
           | Suffix k \<Rightarrow> unat f = unat total - unat k \<and> unat l + 1 = unat total))" if req: "rq_range request = Some requested" for requested
  proof -
    obtain p len where "from_observed_response requested (rsp_status response) (rsp_header response ''content-range'')
        (rsp_header response ''content-encoding'') len = Ok p"
      using c(3) req by auto
    from observed_response_facts [OF this] show ?thesis
      by blast
  qed
  then show ?thesis
    using r(1) c(1,2) by blast
qed

text \<open>A target in memory and a server that answers every request with the second half of eight bytes.\<close>

definition memory_target :: "bytes sink_target" where
  "memory_target =
     \<lparr>tg_write_at = (\<lambda>t off bs. (overwrite t (unat off) bs, Ok ())), tg_verify_and_rename = default_verify_and_rename,
      tg_durable_prefix_end = default_durable_prefix_end, tg_sync = (\<lambda>t. (t, Ok ()))\<rparr>"

definition half_response :: http_response where
  "half_response =
     \<lparr>rsp_status = 206, rsp_version = Version11,
      rsp_header = (\<lambda>h. if h = ''content-range'' then Some (display (CrBytes 4 7 (Some 8))) else None),
      rsp_body = [BodyChunk [5, 6], BodyChunk [7, 8]]\<rparr>"

definition half_server :: "(unit, string) http_env" where
  "half_server =
     \<lparr>he_execute = (\<lambda>n u hs t. (n, Ok half_response)), he_join = (\<lambda>u l. None),
      he_names = \<lparr>ne_path_segments = (\<lambda>_. None), ne_percent_decode = (\<lambda>_. [])\<rparr>, he_parse_mime = (\<lambda>_. None), he_now = (\<lambda>_. 0)\<rparr>"

lemma half_checked: "check_response (request_resume ''http://h/f'' (From 4) ''v'') half_response = Ok (Some (CrBytes 4 7 (Some 8)))"
proof -
  have "from_str (display (CrBytes 4 7 (Some 8))) = Ok (CrBytes 4 7 (Some 8))"
    by (rule from_str_display) simp
  then show ?thesis
    by (simp add: check_response_def request_resume_def half_response_def from_observed_response_def Let_def del: display.simps)
qed

lemma half_fetched:
  "fetch_range half_server memory_target () (request_resume ''http://h/f'' (From 4) ''v'') (sink_new [1, 2, 3, 4, 0, 0, 0, 0] 4 (Some 4)) =
     ((), \<lparr>sk_target = [1, 2, 3, 4, 5, 6, 7, 8], sk_base_offset = 4, sk_written = 4, sk_limit = Some 4\<rparr>,
      Ok \<lparr>oc_bytes_delivered = 4, oc_status = 206, oc_content_range = Some (CrBytes 4 7 (Some 8)), oc_protocol = Http11, oc_truncated = False\<rparr>)"
proof -
  have "\<not> body_looks_like_a_web_page None [5, 6]"
    by (simp add: body_looks_like_a_web_page_def byte_is_ascii_whitespace_def byte_to_lower_def MARKERS_def)
  then have "fetch_loop memory_target ''http://h/f'' None (Some 4) 0 (sink_new [1, 2, 3, 4, 0, 0, 0, 0] 4 (Some 4)) (rsp_body half_response) =
      (\<lparr>sk_target = [1, 2, 3, 4, 5, 6, 7, 8], sk_base_offset = 4, sk_written = 4, sk_limit = Some 4\<rparr>, Ok 4)"
    by (simp add: half_response_def sink_accept_def sink_new_def memory_target_def beyond_limit_def try_from_nat_def saturating_add_def
        checked_add_def overwrite_def)
  moreover have "promised_length half_response (Some (CrBytes 4 7 (Some 8))) = Some 4"
    by (simp add: promised_length_def)
  ultimately show ?thesis
    using half_checked
    by (simp add: fetch_range_def send_def half_server_def Let_def)
       (simp add: request_resume_def half_response_def)
qed

theorem fetch_validates_first_witness:
  "\<exists>response. send half_server () ''http://h/f'' (Some (From 4)) (Some ''v'') [] (from_secs 300) = ((), Ok response) \<and>
     rsp_status response = 206"
proof -
  have "sink_new [1, 2, 3, 4, 0, 0, 0, 0] 4 (Some 4) \<noteq>
      \<lparr>sk_target = [1, 2, 3, 4, 5, 6, 7, 8 :: u8], sk_base_offset = 4, sk_written = 4, sk_limit = Some 4\<rparr>"
    by (simp add: sink_new_def)
  from fetch_validates_first [OF half_fetched this [symmetric]] show ?thesis
    by (auto simp: request_resume_def)
qed

context byte_target
begin

lemma fetch_loop_effect:
  assumes "fetch_loop T u ty promised delivered sk es = (sk', res)" and "window_ok sk"
    and "unat delivered = unat (sk_written sk)"
  shows "window_ok sk' \<and> sk_base_offset sk' = sk_base_offset sk \<and> sk_limit sk' = sk_limit sk \<and>
    (\<exists>k. visible (sk_target sk') = patched (visible (sk_target sk)) (cursor sk) (take k (body_data es)) \<and>
       cursor sk + length (take k (body_data es)) \<le> window_end sk) \<and>
    (\<forall>d. res = Ok d \<longrightarrow> visible (sk_target sk') = patched (visible (sk_target sk)) (cursor sk) (body_data es) \<and>
       unat (sk_written sk') = unat (sk_written sk) + length (body_data es) \<and> d = sk_written sk')"
  using assms
proof (induction es arbitrary: delivered sk)
  case Nil
  then show ?case
    by (auto simp: window_ok_def intro!: exI [of _ 0] word_unat_eq_iff [THEN iffD2])
next
  case (Cons e es)
  show ?case
  proof (cases e)
    case (BodyChunk c)
    consider (empty) "c = []" | (page) "c \<noteq> []" "delivered = 0" "body_looks_like_a_web_page ty c"
      | (data) "c \<noteq> []" "\<not> (delivered = 0 \<and> body_looks_like_a_web_page ty c)"
      by blast
    then show ?thesis
    proof cases
      case empty
      then have f: "fetch_loop T u ty promised delivered sk es = (sk', res)" and b: "body_data (e # es) = body_data es"
        using Cons.prems(1) BodyChunk by simp_all
      show ?thesis
        using Cons.IH [OF f Cons.prems(2,3)] unfolding b .
    next
      case page
      then show ?thesis
        using Cons.prems BodyChunk by (auto simp: window_ok_def intro!: exI [of _ 0])
    next
      case data
      obtain sk1 r1 where a: "sink_accept T sk c = (sk1, r1)"
        by (cases "sink_accept T sk c")
      show ?thesis
      proof (cases r1)
        case (Inl err)
        then have "sk' = sk1" "\<exists>x. res = Err x"
          using Cons.prems(1) BodyChunk data a by (auto split: sink_error.splits)
        moreover obtain k where "visible (sk_target sk1) = patched (visible (sk_target sk)) (cursor sk) (take k c)"
          "cursor sk + length (take k c) \<le> window_end sk" and "window_ok sk1" "sk_base_offset sk1 = sk_base_offset sk"
          "sk_limit sk1 = sk_limit sk"
          using accept_failed [OF Cons.prems(2), of c sk1 err] a Inl by blast
        moreover have "take (min k (length c)) (body_data (e # es)) = take k c"
          using BodyChunk by (simp add: min_def)
        ultimately show ?thesis
          by (metis Inl_Inr_False)
      next
        case (Inr _)
        then have a': "sink_accept T sk c = (sk1, Ok ())"
          using a by simp
        note d = accept_done [OF Cons.prems(2) a']
        define d1 where "d1 = saturating_add delivered (case try_from_nat (length c) of Some n \<Rightarrow> n | None \<Rightarrow> 0)"
        have l: "unat (sk_written sk) + length c < 2 ^ 64"
          using d(6) unat_lt_2p [of "sk_written sk1"] by simp
        then have d1: "unat d1 = unat (sk_written sk1)"
          using Cons.prems(3) d(6) by (simp add: d1_def unat_saturating_add try_from_nat_def unat_of_nat)
        have "fetch_loop T u ty promised d1 sk1 es = (sk', res)"
          using Cons.prems(1) BodyChunk data a' by (simp add: d1_def)
        note IH = Cons.IH [OF this d(1) d1]
        obtain k where k: "visible (sk_target sk') = patched (visible (sk_target sk1)) (cursor sk1) (take k (body_data es))"
          "cursor sk1 + length (take k (body_data es)) \<le> window_end sk1"
          using IH by blast
        have p: "patched (visible (sk_target sk1)) (cursor sk1) bs = patched (visible (sk_target sk)) (cursor sk) (c @ bs)" for bs
          using d(2,3) by (simp add: patched_append)
        have "take (length c + k) (body_data (e # es)) = c @ take k (body_data es)"
          using BodyChunk by simp
        then have "\<exists>k. visible (sk_target sk') = patched (visible (sk_target sk)) (cursor sk) (take k (body_data (e # es))) \<and>
            cursor sk + length (take k (body_data (e # es))) \<le> window_end sk"
          using k p d(3,5) by (metis add.assoc length_append)
        then show ?thesis
          using IH p d BodyChunk by auto
      qed
    qed
  qed (use Cons.prems in \<open>auto simp: window_ok_def intro!: exI [of _ 0]\<close>)
qed

end

end
