(* ===== verification/Reprobe.thy ===== *)
theory Reprobe
  imports HttpBackend
begin

text \<open>
  When capability evidence must be re-established before a resume, \<open>downpour-http/src/probe.rs\<close>: the four
  triggers as a function of what is known when the resume is planned.
\<close>

definition CAPABILITY_FRESHNESS :: duration where
  "CAPABILITY_FRESHNESS = from_secs (15 * 60)"

datatype 'u reprobe_trigger =
    RefreshedUrlSupplied 'u
  | FinalUrlChanged 'u 'u
  | StatusContradictsCapabilities u16 string
  | FreshnessWindowElapsed duration duration

record 'u resume_plan =
  rpn_recorded :: "'u remote_object"
  rpn_now :: system_time
  rpn_planned_url :: 'u
  rpn_refreshed_url :: "'u option"
  rpn_last_observed_status :: "u16 option"

definition contradiction :: "u16 \<Rightarrow> range_support \<Rightarrow> string option" where
  "contradiction status range_support =
     (if status = 200 \<and> is_proven range_support
      then Some ''range support was proven but the server answered a ranged request with 200''
      else if status = 416 then Some ''the server rejected a range the recorded length says exists''
      else if status \<in> {401, 403, 410}
      then Some ''the URL or credential that produced the recorded evidence no longer applies''
      else None)"

definition triggers :: "duration \<Rightarrow> 'u resume_plan \<Rightarrow> 'u reprobe_trigger list" where
  "triggers freshness plan =
     (case rpn_refreshed_url plan of Some u \<Rightarrow> [RefreshedUrlSupplied u] | None \<Rightarrow> [])
     @ (if rpn_planned_url plan \<noteq> rem_final_url (rpn_recorded plan)
        then [FinalUrlChanged (rem_final_url (rpn_recorded plan)) (rpn_planned_url plan)] else [])
     @ (case rpn_last_observed_status plan of
          Some status \<Rightarrow>
            (case contradiction status (rem_range_support (rpn_recorded plan)) of
               Some reason \<Rightarrow> [StatusContradictsCapabilities status reason] | None \<Rightarrow> [])
        | None \<Rightarrow> [])
     @ (let elapsed = (case duration_since (rpn_now plan) (rem_probed_at (rpn_recorded plan)) of
             Some d \<Rightarrow> d | None \<Rightarrow> freshness + 1)
        in if elapsed > freshness then [FreshnessWindowElapsed elapsed freshness] else [])"

definition is_required :: "duration \<Rightarrow> 'u resume_plan \<Rightarrow> bool" where
  "is_required freshness plan = (triggers freshness plan \<noteq> [])"


end
