(* ===== verification/IntervalMap.thy ===== *)
theory IntervalMap
  imports Prelude
begin

text \<open>
  The canonical interval map of \<open>downpour-intervals/src/lib.rs\<close>: a partition of
  \<open>[0, total_length)\<close> into non-empty intervals, each pending, owned by one worker, or
  complete, with equal neighbours merged.  A \<open>&mut self\<close> method is a function that
  returns the new map next to its \<open>Result\<close>, so that the transactional claim (an error
  leaves the map unchanged) is a theorem and not an assumption.  The abstract view is
  \<open>byte_state\<close>, the state of each single byte; every operation is shown to be the
  corresponding pointwise update of it.
\<close>

section \<open>Data\<close>

datatype worker_id = WorkerId (worker_get: u64)

datatype interval_state = Pending | InProgress worker_id | Complete

record interval =
  iv_start :: u64
  iv_end :: u64
  iv_state :: interval_state

datatype interval_map_error =
    InvalidRange u64 u64 u64
  | RangeNotPending u64 u64
  | RangeNotOwned u64 u64 worker_id
  | SplitPointUnavailable u64 worker_id
  | SplitWorkerUnchanged worker_id

record interval_map =
  im_total_length :: u64
  im_intervals :: "interval list"

definition mk_interval :: "u64 \<Rightarrow> u64 \<Rightarrow> interval_state \<Rightarrow> interval" where
  "mk_interval s e st = \<lparr>iv_start = s, iv_end = e, iv_state = st\<rparr>"

definition iv_len :: "interval \<Rightarrow> u64" where
  "iv_len i = iv_end i - iv_start i"

definition iv_is_empty :: "interval \<Rightarrow> bool" where
  "iv_is_empty i = (iv_start i = iv_end i)"

section \<open>Operations\<close>

definition im_new :: "u64 \<Rightarrow> interval_map" where
  "im_new total_len =
     \<lparr>im_total_length = total_len,
      im_intervals = (if total_len = 0 then [] else [mk_interval 0 total_len Pending])\<rparr>"

definition validate_range :: "interval_map \<Rightarrow> range64 \<Rightarrow> interval_map_error + unit" where
  "validate_range m r =
     (if fst r \<ge> snd r \<or> snd r > im_total_length m
      then Err (InvalidRange (fst r) (snd r) (im_total_length m)) else Ok ())"

definition range_matches :: "interval_map \<Rightarrow> range64 \<Rightarrow> (interval_state \<Rightarrow> bool) \<Rightarrow> bool" where
  "range_matches m r p =
     list_all (\<lambda>i. p (iv_state i))
       (filter (\<lambda>i. iv_start i < snd r \<and> fst r < iv_end i) (im_intervals m))"

definition push_merged :: "interval list \<Rightarrow> interval \<Rightarrow> interval list" where
  "push_merged xs x =
     (if xs \<noteq> [] \<and> iv_end (last xs) = iv_start x \<and> iv_state (last xs) = iv_state x
      then butlast xs @ [(last xs)\<lparr>iv_end := iv_end x\<rparr>]
      else xs @ [x])"

text \<open>The body of the loop of \<open>replace_range\<close>: what one old interval pushes.\<close>

definition replace_step ::
    "range64 \<Rightarrow> interval_state \<Rightarrow> interval list \<Rightarrow> interval \<Rightarrow> interval list" where
  "replace_step r repl out i =
     (if iv_end i \<le> fst r \<or> snd r \<le> iv_start i then push_merged out i
      else
        (let out1 = (if iv_start i < fst r
                     then push_merged out (mk_interval (iv_start i) (fst r) (iv_state i)) else out);
             out2 = push_merged out1
                      (mk_interval (max (iv_start i) (fst r)) (min (iv_end i) (snd r)) repl)
         in if snd r < iv_end i
            then push_merged out2 (mk_interval (snd r) (iv_end i) (iv_state i)) else out2))"

definition replace_range :: "interval_map \<Rightarrow> range64 \<Rightarrow> interval_state \<Rightarrow> interval_map" where
  "replace_range m r repl = m\<lparr>im_intervals := foldl (replace_step r repl) [] (im_intervals m)\<rparr>"

definition normalise :: "interval_map \<Rightarrow> interval_map" where
  "normalise m = m\<lparr>im_intervals := foldl push_merged [] (im_intervals m)\<rparr>"

definition grant ::
    "interval_map \<Rightarrow> range64 \<Rightarrow> worker_id \<Rightarrow> interval_map \<times> (interval_map_error + unit)" where
  "grant m r w =
     (case validate_range m r of
        Err e \<Rightarrow> (m, Err e)
      | Ok _ \<Rightarrow>
          if \<not> range_matches m r (\<lambda>st. st = Pending)
          then (m, Err (RangeNotPending (fst r) (snd r)))
          else (replace_range m r (InProgress w), Ok ()))"

fun position :: "('a \<Rightarrow> bool) \<Rightarrow> 'a list \<Rightarrow> nat option" where
  "position p [] = None"
| "position p (x # xs) = (if p x then Some 0 else map_option Suc (position p xs))"

definition split_in_progress ::
    "interval_map \<Rightarrow> u64 \<Rightarrow> worker_id \<Rightarrow> worker_id \<Rightarrow> interval_map \<times> (interval_map_error + unit)" where
  "split_in_progress m at source recipient =
     (if source = recipient then (m, Err (SplitWorkerUnchanged source))
      else
        (case position (\<lambda>i. iv_start i < at \<and> at < iv_end i \<and> iv_state i = InProgress source)
                (im_intervals m) of
           None \<Rightarrow> (m, Err (SplitPointUnavailable at source))
         | Some k \<Rightarrow>
             let original = im_intervals m ! k;
                 left = (im_intervals m)[k := mk_interval (iv_start original) at (InProgress source)];
                 both = take (k + 1) left
                        @ mk_interval at (iv_end original) (InProgress recipient)
                        # drop (k + 1) left
             in (normalise (m\<lparr>im_intervals := both\<rparr>), Ok ())))"

definition im_complete ::
    "interval_map \<Rightarrow> range64 \<Rightarrow> worker_id \<Rightarrow> interval_map \<times> (interval_map_error + unit)" where
  "im_complete m r w =
     (case validate_range m r of
        Err e \<Rightarrow> (m, Err e)
      | Ok _ \<Rightarrow>
          if \<not> range_matches m r (\<lambda>st. st = InProgress w)
          then (m, Err (RangeNotOwned (fst r) (snd r) w))
          else (replace_range m r Complete, Ok ()))"

text \<open>The loop of \<open>abandon\<close>: the released count and the relabelled intervals.\<close>

fun abandon_loop :: "worker_id \<Rightarrow> interval list \<Rightarrow> u64 \<Rightarrow> u64 \<times> interval list" where
  "abandon_loop w [] released = (released, [])"
| "abandon_loop w (i # is) released =
     (let owned = (iv_state i = InProgress w);
          (released', is') =
            abandon_loop w is (if owned then released + iv_len i else released)
      in (released', (if owned then i\<lparr>iv_state := Pending\<rparr> else i) # is'))"

definition im_abandon :: "interval_map \<Rightarrow> worker_id \<Rightarrow> interval_map \<times> u64" where
  "im_abandon m w =
     (let (released, is') = abandon_loop w (im_intervals m) 0
      in (normalise (m\<lparr>im_intervals := is'\<rparr>), released))"

fun invariants_loop :: "u64 \<Rightarrow> interval_state option \<Rightarrow> interval list \<Rightarrow> u64 \<Rightarrow> bool" where
  "invariants_loop cursor prev [] total_len = (cursor = total_len)"
| "invariants_loop cursor prev (i # is) total_len =
     (if iv_start i \<noteq> cursor \<or> iv_start i \<ge> iv_end i then False
      else if prev = Some (iv_state i) then False
      else invariants_loop (iv_end i) (Some (iv_state i)) is total_len)"

definition invariants_hold :: "interval_map \<Rightarrow> bool" where
  "invariants_hold m =
     (if im_total_length m = 0 then im_intervals m = []
      else invariants_loop 0 None (im_intervals m) (im_total_length m))"

section \<open>The abstract view\<close>

text \<open>The state of one byte: that of the interval that contains it.\<close>

fun lookup_byte :: "interval list \<Rightarrow> u64 \<Rightarrow> interval_state option" where
  "lookup_byte [] b = None"
| "lookup_byte (i # is) b =
     (if iv_start i \<le> b \<and> b < iv_end i then Some (iv_state i) else lookup_byte is b)"

definition byte_state :: "interval_map \<Rightarrow> u64 \<Rightarrow> interval_state option" where
  "byte_state m b = lookup_byte (im_intervals m) b"

text \<open>A contiguous chain of non-empty intervals from \<open>a\<close> to \<open>b\<close>, and canonicity.\<close>

fun chain :: "u64 \<Rightarrow> interval list \<Rightarrow> u64 \<Rightarrow> bool" where
  "chain a [] b = (a = b)"
| "chain a (i # is) b = (iv_start i = a \<and> a < iv_end i \<and> chain (iv_end i) is b)"

fun canonical :: "interval list \<Rightarrow> bool" where
  "canonical (i # j # is) = (iv_state i \<noteq> iv_state j \<and> canonical (j # is))"
| "canonical is = True"

text \<open>Pointwise update of the abstract view on a range.\<close>

definition upd_range :: "(u64 \<Rightarrow> 'a) \<Rightarrow> range64 \<Rightarrow> 'a \<Rightarrow> u64 \<Rightarrow> 'a" where
  "upd_range f r v = (\<lambda>b. if fst r \<le> b \<and> b < snd r then v else f b)"

section \<open>Chains\<close>

lemma iv_simps [simp]:
  "iv_start (mk_interval s e st) = s"
  "iv_end (mk_interval s e st) = e"
  "iv_state (mk_interval s e st) = st"
  by (simp_all add: mk_interval_def)

lemma chain_le: "chain a xs b \<Longrightarrow> a \<le> b"
  by (induction xs arbitrary: a) (auto intro: order.trans less_imp_le)

lemma chain_less: "chain a xs b \<Longrightarrow> xs \<noteq> [] \<Longrightarrow> a < b"
  by (cases xs) (auto dest: chain_le)

lemma chain_append: "chain a (xs @ ys) c \<longleftrightarrow> (\<exists>b. chain a xs b \<and> chain b ys c)"
  by (induction xs arbitrary: a) auto

lemma chain_snoc:
  "chain a (xs @ [x]) c \<longleftrightarrow> chain a xs (iv_start x) \<and> iv_start x < iv_end x \<and> iv_end x = c"
  by (auto simp: chain_append)

lemma chain_bounds:
  "chain a xs b \<Longrightarrow> i \<in> set xs \<Longrightarrow> a \<le> iv_start i \<and> iv_start i < iv_end i \<and> iv_end i \<le> b"
proof (induction xs arbitrary: a)
  case (Cons x xs)
  then show ?case
    using chain_le [of "iv_end x" xs b] by fastforce
qed simp

lemma lookup_append:
  "lookup_byte (xs @ ys) b =
     (case lookup_byte xs b of None \<Rightarrow> lookup_byte ys b | Some s \<Rightarrow> Some s)"
  by (induction xs) auto

lemma lookup_outside: "chain a xs c \<Longrightarrow> b < a \<or> c \<le> b \<Longrightarrow> lookup_byte xs b = None"
proof (induction xs arbitrary: a)
  case (Cons x xs)
  have "iv_end x \<le> c"
    using Cons.prems(1) by (auto dest: chain_le)
  then show ?case
    using Cons by fastforce
qed simp

lemma lookup_inside: "chain a xs c \<Longrightarrow> a \<le> b \<Longrightarrow> b < c \<Longrightarrow> lookup_byte xs b \<noteq> None"
proof (induction xs arbitrary: a)
  case (Cons x xs)
  then show ?case
    by (cases "b < iv_end x") auto
qed auto

lemma lookup_member:
  "lookup_byte xs b = Some s \<Longrightarrow> \<exists>i \<in> set xs. iv_start i \<le> b \<and> b < iv_end i \<and> iv_state i = s"
  by (induction xs) (auto split: if_splits)

lemma lookup_of_member:
  "chain a xs c \<Longrightarrow> i \<in> set xs \<Longrightarrow> iv_start i \<le> b \<Longrightarrow> b < iv_end i \<Longrightarrow>
   lookup_byte xs b = Some (iv_state i)"
proof (induction xs arbitrary: a)
  case (Cons x xs)
  show ?case
  proof (cases "i = x")
    case False
    then have "i \<in> set xs" and "iv_end x \<le> iv_start i"
      using Cons.prems chain_bounds [of "iv_end x" xs c i] by auto
    then show ?thesis
      using Cons by auto
  qed (use Cons.prems in auto)
qed simp

lemma invariants_loop_iff:
  "invariants_loop c prev xs total_len \<longleftrightarrow>
     chain c xs total_len \<and> canonical xs \<and>
     (case xs of [] \<Rightarrow> True | x # _ \<Rightarrow> prev \<noteq> Some (iv_state x))"
  by (induction xs arbitrary: c prev) (auto split: list.splits)

lemma invariants_hold_iff:
  "invariants_hold m \<longleftrightarrow>
     chain 0 (im_intervals m) (im_total_length m) \<and> canonical (im_intervals m)"
proof (cases "im_total_length m = 0")
  case True
  have "xs = []" if "chain 0 xs 0" for xs
    using chain_less [OF that] by auto
  with True show ?thesis
    by (auto simp: invariants_hold_def)
qed (auto simp: invariants_hold_def invariants_loop_iff split: list.splits)

section \<open>Merging\<close>

lemma canonical_snoc:
  "canonical (xs @ [x]) \<longleftrightarrow> canonical xs \<and> (xs = [] \<or> iv_state (last xs) \<noteq> iv_state x)"
  by (induction xs rule: canonical.induct) auto

lemma canonical_butlast: "canonical xs \<Longrightarrow> canonical (butlast xs)"
  by (cases xs rule: rev_cases) (auto simp: canonical_snoc)

lemma push_merged_spec:
  assumes "chain a xs (iv_start x)" and "iv_start x < iv_end x" and "canonical xs"
  shows "chain a (push_merged xs x) (iv_end x)"
    and "canonical (push_merged xs x)"
    and "lookup_byte (push_merged xs x) b = lookup_byte (xs @ [x]) b"
proof -
  have "chain a (push_merged xs x) (iv_end x) \<and> canonical (push_merged xs x) \<and>
      lookup_byte (push_merged xs x) b = lookup_byte (xs @ [x]) b"
  proof (cases "xs \<noteq> [] \<and> iv_end (last xs) = iv_start x \<and> iv_state (last xs) = iv_state x")
    case True
    then obtain ys y where xs: "xs = ys @ [y]" and y: "iv_end y = iv_start x" "iv_state y = iv_state x"
      by (cases xs rule: rev_cases) auto
    have pm: "push_merged xs x = ys @ [y\<lparr>iv_end := iv_end x\<rparr>]"
      using xs y by (simp add: push_merged_def)
    have "chain a ys (iv_start y)" and "iv_start y < iv_start x"
      using assms(1) xs y by (auto simp: chain_snoc)
    then show ?thesis
      using assms(2,3) y unfolding pm
      by (auto simp: xs chain_snoc canonical_snoc lookup_append split: option.splits)
  next
    case False
    then have pm: "push_merged xs x = xs @ [x]"
      by (auto simp: push_merged_def)
    have "xs = [] \<or> iv_end (last xs) = iv_start x"
      using assms(1) by (cases xs rule: rev_cases) (auto simp: chain_snoc)
    then show ?thesis
      using False assms unfolding pm by (auto simp: chain_snoc canonical_snoc)
  qed
  then show "chain a (push_merged xs x) (iv_end x)" "canonical (push_merged xs x)"
    "lookup_byte (push_merged xs x) b = lookup_byte (xs @ [x]) b"
    by simp_all
qed

lemma foldl_push_merged:
  assumes "chain a xs b" and "chain b ys c" and "canonical xs"
  shows "chain a (foldl push_merged xs ys) c \<and> canonical (foldl push_merged xs ys) \<and>
         (\<forall>n. lookup_byte (foldl push_merged xs ys) n = lookup_byte (xs @ ys) n)"
  using assms
proof (induction ys arbitrary: xs b)
  case (Cons y ys)
  have y: "iv_start y = b" "iv_start y < iv_end y" "chain (iv_end y) ys c"
    using Cons.prems(2) by auto
  have one: "chain a (push_merged xs y) (iv_end y)" "canonical (push_merged xs y)"
    and look: "\<And>n. lookup_byte (push_merged xs y) n = lookup_byte (xs @ [y]) n"
    using push_merged_spec [of a xs y] Cons.prems y by simp_all
  have "lookup_byte (push_merged xs y @ ys) n = lookup_byte (xs @ y # ys) n" for n
    using look [of n] by (simp add: lookup_append [of _ ys] lookup_append [of xs] split: option.splits)
  with Cons.IH [OF one(1) y(3) one(2)] show ?case
    by simp
qed simp

lemma normalise_spec:
  assumes "chain 0 (im_intervals m) (im_total_length m)"
  shows "invariants_hold (normalise m)"
    and "byte_state (normalise m) b = byte_state m b"
    and "im_total_length (normalise m) = im_total_length m"
  using foldl_push_merged [of 0 "[]" 0 "im_intervals m" "im_total_length m"] assms
  by (simp_all add: normalise_def invariants_hold_iff byte_state_def)

section \<open>Replacing a range\<close>

text \<open>What the loop body pushes for one interval, as a list.\<close>

definition pieces :: "range64 \<Rightarrow> interval_state \<Rightarrow> interval \<Rightarrow> interval list" where
  "pieces r repl i =
     (if iv_end i \<le> fst r \<or> snd r \<le> iv_start i then [i]
      else (if iv_start i < fst r then [mk_interval (iv_start i) (fst r) (iv_state i)] else [])
           @ [mk_interval (max (iv_start i) (fst r)) (min (iv_end i) (snd r)) repl]
           @ (if snd r < iv_end i then [mk_interval (snd r) (iv_end i) (iv_state i)] else []))"

lemma replace_step_pieces: "replace_step r repl out i = foldl push_merged out (pieces r repl i)"
  by (simp add: replace_step_def pieces_def Let_def)

lemma replace_loop_pieces:
  "foldl (replace_step r repl) out xs = foldl push_merged out (concat (map (pieces r repl) xs))"
  by (induction xs arbitrary: out) (simp_all add: replace_step_pieces)

lemma chain_pieces:
  assumes "fst r < snd r" and "iv_start i < iv_end i"
  shows "chain (iv_start i) (pieces r repl i) (iv_end i)"
  using assms by (auto simp: pieces_def max_def min_def not_le not_less)

lemma lookup_pieces:
  assumes "fst r < snd r" and "iv_start i < iv_end i"
  shows "lookup_byte (pieces r repl i) b =
    (if iv_start i \<le> b \<and> b < iv_end i
     then Some (if fst r \<le> b \<and> b < snd r then repl else iv_state i) else None)"
  using assms unfolding pieces_def
  by (cases "iv_start i < fst r"; cases "snd r < iv_end i") (auto simp: max_def min_def)

lemma chain_concat_pieces:
  assumes "fst r < snd r" and "chain a xs c"
  shows "chain a (concat (map (pieces r repl) xs)) c"
  using assms(2)
proof (induction xs arbitrary: a)
  case (Cons x xs)
  then have "chain a (pieces r repl x) (iv_end x)"
    using chain_pieces [OF assms(1), of x] by auto
  with Cons show ?case
    by (auto simp: chain_append)
qed simp

lemma lookup_concat_pieces:
  assumes "fst r < snd r" and "chain a xs c"
  shows "lookup_byte (concat (map (pieces r repl) xs)) b =
    (if fst r \<le> b \<and> b < snd r then map_option (\<lambda>_. repl) (lookup_byte xs b) else lookup_byte xs b)"
  using assms(2)
proof (induction xs arbitrary: a)
  case (Cons x xs)
  then have "iv_start x < iv_end x" and tl: "chain (iv_end x) xs c"
    by auto
  note head = lookup_pieces [OF assms(1) this(1), of repl b]
  show ?case
    using Cons.IH [OF tl] by (simp add: lookup_append head)
qed simp

lemma replace_range_spec:
  assumes inv: "invariants_hold m" and r: "fst r < snd r" "snd r \<le> im_total_length m"
  shows "invariants_hold (replace_range m r repl)"
    and "byte_state (replace_range m r repl) = upd_range (byte_state m) r (Some repl)"
    and "im_total_length (replace_range m r repl) = im_total_length m"
proof -
  let ?ps = "concat (map (pieces r repl) (im_intervals m))"
  have ch: "chain 0 (im_intervals m) (im_total_length m)"
    using inv by (simp add: invariants_hold_iff)
  note F = foldl_push_merged [of 0 "[]" 0 ?ps "im_total_length m"]
  have ok: "chain 0 ?ps (im_total_length m)"
    by (rule chain_concat_pieces [OF r(1) ch])
  show "invariants_hold (replace_range m r repl)"
    using F ok by (simp add: invariants_hold_iff replace_range_def replace_loop_pieces)
  show "byte_state (replace_range m r repl) = upd_range (byte_state m) r (Some repl)"
  proof
    fix b
    have "lookup_byte (im_intervals m) b \<noteq> None" if "b < snd r"
      using lookup_inside [OF ch, of b] less_le_trans [OF that r(2)] by simp
    then show "byte_state (replace_range m r repl) b = upd_range (byte_state m) r (Some repl) b"
      using F ok lookup_concat_pieces [OF r(1) ch, of repl b]
      by (auto simp: byte_state_def replace_range_def replace_loop_pieces upd_range_def)
  qed
  show "im_total_length (replace_range m r repl) = im_total_length m"
    by (simp add: replace_range_def)
qed

lemma range_matches_iff:
  assumes inv: "invariants_hold m" and r: "fst r < snd r" "snd r \<le> im_total_length m"
  shows "range_matches m r p \<longleftrightarrow>
    (\<forall>b. fst r \<le> b \<and> b < snd r \<longrightarrow> (\<exists>s. byte_state m b = Some s \<and> p s))"
proof
  have ch: "chain 0 (im_intervals m) (im_total_length m)"
    using inv by (simp add: invariants_hold_iff)
  assume L: "range_matches m r p"
  show "\<forall>b. fst r \<le> b \<and> b < snd r \<longrightarrow> (\<exists>s. byte_state m b = Some s \<and> p s)"
  proof (intro allI impI)
    fix b assume b: "fst r \<le> b \<and> b < snd r"
    then have "b < im_total_length m"
      using r(2) by (auto intro: less_le_trans)
    then obtain s where s: "lookup_byte (im_intervals m) b = Some s"
      using lookup_inside [OF ch, of b] by auto
    then obtain i where "i \<in> set (im_intervals m)" "iv_start i \<le> b" "b < iv_end i" "iv_state i = s"
      using lookup_member by blast
    moreover from this b have "iv_start i < snd r" and "fst r < iv_end i"
      by (auto intro: le_less_trans)
    ultimately have "p s"
      using L by (auto simp: range_matches_def list_all_iff)
    with s show "\<exists>s. byte_state m b = Some s \<and> p s"
      by (simp add: byte_state_def)
  qed
next
  have ch: "chain 0 (im_intervals m) (im_total_length m)"
    using inv by (simp add: invariants_hold_iff)
  assume R: "\<forall>b. fst r \<le> b \<and> b < snd r \<longrightarrow> (\<exists>s. byte_state m b = Some s \<and> p s)"
  have "p (iv_state i)"
    if "i \<in> set (im_intervals m)" "iv_start i < snd r" "fst r < iv_end i" for i
  proof -
    let ?b = "max (iv_start i) (fst r)"
    have "iv_start i \<le> ?b" "?b < iv_end i"
      using chain_bounds [OF ch that(1)] that by (auto simp: max_def)
    then have "byte_state m ?b = Some (iv_state i)"
      using lookup_of_member [OF ch that(1)] by (simp add: byte_state_def)
    then show ?thesis
      using R [rule_format, of ?b] r(1) that(2) by auto
  qed
  then show "range_matches m r p"
    by (auto simp: range_matches_def list_all_iff)
qed

section \<open>Functional behaviour of the operations\<close>

lemma validate_range_Ok [simp]:
  "validate_range m r = Ok u \<longleftrightarrow> fst r < snd r \<and> snd r \<le> im_total_length m"
  by (auto simp: validate_range_def)

lemma im_new_spec [simp]:
  "invariants_hold (im_new n)"
  "im_total_length (im_new n) = n"
  "byte_state (im_new n) b = (if b < n then Some Pending else None)"
  by (auto simp: im_new_def invariants_hold_def byte_state_def word_gt_0)

text \<open>The two range transitions share one shape.\<close>

lemma grant_unfold:
  "grant m r w =
     (if fst r < snd r \<and> snd r \<le> im_total_length m
      then if range_matches m r (\<lambda>st. st = Pending)
           then (replace_range m r (InProgress w), Ok ())
           else (m, Err (RangeNotPending (fst r) (snd r)))
      else (m, Err (InvalidRange (fst r) (snd r) (im_total_length m))))"
  by (auto simp: grant_def validate_range_def)

lemma im_complete_unfold:
  "im_complete m r w =
     (if fst r < snd r \<and> snd r \<le> im_total_length m
      then if range_matches m r (\<lambda>st. st = InProgress w)
           then (replace_range m r Complete, Ok ())
           else (m, Err (RangeNotOwned (fst r) (snd r) w))
      else (m, Err (InvalidRange (fst r) (snd r) (im_total_length m))))"
  by (auto simp: im_complete_def validate_range_def)

lemma grant_Ok:
  assumes "invariants_hold m"
  shows "snd (grant m r w) = Ok () \<longleftrightarrow>
    fst r < snd r \<and> snd r \<le> im_total_length m \<and>
    (\<forall>b. fst r \<le> b \<and> b < snd r \<longrightarrow> byte_state m b = Some Pending)"
  using range_matches_iff [OF assms, of r "\<lambda>st. st = Pending"] by (auto simp: grant_unfold)

lemma im_complete_Ok:
  assumes "invariants_hold m"
  shows "snd (im_complete m r w) = Ok () \<longleftrightarrow>
    fst r < snd r \<and> snd r \<le> im_total_length m \<and>
    (\<forall>b. fst r \<le> b \<and> b < snd r \<longrightarrow> byte_state m b = Some (InProgress w))"
  using range_matches_iff [OF assms, of r "\<lambda>st. st = InProgress w"]
  by (auto simp: im_complete_unfold)

lemma grant_Err: "snd (grant m r w) = Err e \<Longrightarrow> fst (grant m r w) = m"
  by (auto simp: grant_unfold split: if_splits)

lemma im_complete_Err: "snd (im_complete m r w) = Err e \<Longrightarrow> fst (im_complete m r w) = m"
  by (auto simp: im_complete_unfold split: if_splits)

lemma grant_state:
  assumes "invariants_hold m" and "snd (grant m r w) = Ok ()"
  shows "byte_state (fst (grant m r w)) = upd_range (byte_state m) r (Some (InProgress w))"
  using assms replace_range_spec [OF assms(1), of r "InProgress w"]
  by (auto simp: grant_unfold split: if_splits)

lemma im_complete_state:
  assumes "invariants_hold m" and "snd (im_complete m r w) = Ok ()"
  shows "byte_state (fst (im_complete m r w)) = upd_range (byte_state m) r (Some Complete)"
  using assms replace_range_spec [OF assms(1), of r Complete]
  by (auto simp: im_complete_unfold split: if_splits)

lemma grant_inv:
  assumes "invariants_hold m"
  shows "invariants_hold (fst (grant m r w))"
    and "im_total_length (fst (grant m r w)) = im_total_length m"
  using assms replace_range_spec [OF assms, of r "InProgress w"]
  by (auto simp: grant_unfold)

lemma im_complete_inv:
  assumes "invariants_hold m"
  shows "invariants_hold (fst (im_complete m r w))"
    and "im_total_length (fst (im_complete m r w)) = im_total_length m"
  using assms replace_range_spec [OF assms, of r Complete]
  by (auto simp: im_complete_unfold)

subsection \<open>Splitting\<close>

lemma position_Some: "position p xs = Some k \<Longrightarrow> k < length xs \<and> p (xs ! k)"
  by (induction xs arbitrary: k) (auto split: if_splits)

lemma position_None: "position p xs = None \<longleftrightarrow> (\<forall>x \<in> set xs. \<not> p x)"
  by (induction xs) auto

text \<open>The shape of the list just before \<open>normalise\<close>.\<close>

lemma split_shape:
  assumes "k < length xs"
  shows "take (k + 1) (xs[k := l]) @ rr # drop (k + 1) (xs[k := l]) = take k xs @ [l, rr] @ drop (Suc k) xs"
  using assms by (simp add: upd_conv_take_nth_drop min_def)

lemma split_ok:
  assumes inv: "invariants_hold m" and ok: "snd (split_in_progress m at s d) = Ok ()"
  obtains i where "i \<in> set (im_intervals m)" "iv_start i < at" "at < iv_end i"
    "iv_state i = InProgress s" "s \<noteq> d"
    "invariants_hold (fst (split_in_progress m at s d))"
    "im_total_length (fst (split_in_progress m at s d)) = im_total_length m"
    "byte_state (fst (split_in_progress m at s d)) =
       upd_range (byte_state m) (at, iv_end i) (Some (InProgress d))"
proof -
  let ?xs = "im_intervals m"
  let ?p = "\<lambda>i. iv_start i < at \<and> at < iv_end i \<and> iv_state i = InProgress s"
  obtain k where k: "position ?p ?xs = Some k" and ne: "s \<noteq> d"
    using ok by (auto simp: split_in_progress_def split: if_splits option.splits)
  define i where "i = ?xs ! k"
  define l where "l = mk_interval (iv_start i) at (InProgress s)"
  define rr where "rr = mk_interval at (iv_end i) (InProgress d)"
  have kl: "k < length ?xs" and pi: "?p i"
    using position_Some [OF k] by (simp_all add: i_def)
  let ?ys = "take k ?xs @ [l, rr] @ drop (Suc k) ?xs"
  have res: "fst (split_in_progress m at s d) = normalise (m\<lparr>im_intervals := ?ys\<rparr>)"
    using k ne split_shape [OF kl, of l rr]
    by (simp add: split_in_progress_def Let_def l_def rr_def i_def)
  have xs: "?xs = take k ?xs @ i # drop (Suc k) ?xs"
    using id_take_nth_drop [OF kl] by (simp add: i_def)
  have "chain 0 (take k ?xs @ i # drop (Suc k) ?xs) (im_total_length m)"
    using inv xs by (simp add: invariants_hold_iff)
  then have ch: "chain 0 (take k ?xs) (iv_start i)" "chain (iv_end i) (drop (Suc k) ?xs) (im_total_length m)"
    by (auto simp: chain_append)
  then have chy: "chain 0 ?ys (im_total_length m)"
    using pi by (auto simp: chain_append l_def rr_def)
  have look: "lookup_byte ?ys b = upd_range (lookup_byte ?xs) (at, iv_end i) (Some (InProgress d)) b" for b
  proof -
    have "lookup_byte (take k ?xs) b = None" if "iv_start i \<le> b"
      using lookup_outside [OF ch(1)] that by simp
    moreover have "lookup_byte ?xs b = lookup_byte (take k ?xs @ i # drop (Suc k) ?xs) b"
      using xs by simp
    ultimately show ?thesis
      using pi by (auto simp: lookup_append upd_range_def l_def rr_def split: option.splits)
  qed
  show thesis
  proof (rule that [of i])
    show "i \<in> set ?xs"
      using kl by (simp add: i_def)
    show "invariants_hold (fst (split_in_progress m at s d))"
      "im_total_length (fst (split_in_progress m at s d)) = im_total_length m"
      using normalise_spec [of "m\<lparr>im_intervals := ?ys\<rparr>"] chy by (simp_all add: res)
    show "byte_state (fst (split_in_progress m at s d)) =
       upd_range (byte_state m) (at, iv_end i) (Some (InProgress d))"
      using normalise_spec(2) [of "m\<lparr>im_intervals := ?ys\<rparr>"] chy look
      by (auto simp: res byte_state_def upd_range_def fun_eq_iff)
  qed (use pi ne in auto)
qed

lemma split_Err:
  "snd (split_in_progress m at s d) = Err e \<Longrightarrow> fst (split_in_progress m at s d) = m"
  by (auto simp: split_in_progress_def Let_def split: option.splits if_splits)

lemma split_inv:
  assumes "invariants_hold m"
  shows "invariants_hold (fst (split_in_progress m at s d))"
    and "im_total_length (fst (split_in_progress m at s d)) = im_total_length m"
proof -
  have "invariants_hold (fst (split_in_progress m at s d)) \<and>
      im_total_length (fst (split_in_progress m at s d)) = im_total_length m"
  proof (cases "snd (split_in_progress m at s d)")
    case (Inl e)
    with assms split_Err show ?thesis by simp
  next
    case (Inr u)
    then have "snd (split_in_progress m at s d) = Ok ()"
      by simp
    from split_ok [OF assms this] show ?thesis
      by metis
  qed
  then show "invariants_hold (fst (split_in_progress m at s d))"
    and "im_total_length (fst (split_in_progress m at s d)) = im_total_length m"
    by simp_all
qed

subsection \<open>Abandoning\<close>

definition relabel :: "worker_id \<Rightarrow> interval_state \<Rightarrow> interval_state" where
  "relabel w st = (if st = InProgress w then Pending else st)"

lemma abandon_loop_snd:
  "snd (abandon_loop w xs n) = map (\<lambda>i. i\<lparr>iv_state := relabel w (iv_state i)\<rparr>) xs"
  by (induction xs arbitrary: n) (simp_all add: relabel_def split_beta Let_def)

lemma abandon_loop_fst:
  "fst (abandon_loop w xs n) = n + sum_list (map iv_len (filter (\<lambda>i. iv_state i = InProgress w) xs))"
proof (induction xs arbitrary: n)
  case (Cons x xs)
  then show ?case
    by (simp add: split_beta Let_def add.assoc)
qed simp

lemma chain_map_state: "chain a (map (\<lambda>i. i\<lparr>iv_state := f (iv_state i)\<rparr>) xs) c \<longleftrightarrow> chain a xs c"
  by (induction xs arbitrary: a) auto

lemma lookup_map_state:
  "lookup_byte (map (\<lambda>i. i\<lparr>iv_state := f (iv_state i)\<rparr>) xs) b = map_option f (lookup_byte xs b)"
  by (induction xs) auto

lemma im_abandon_spec:
  assumes "invariants_hold m"
  shows "invariants_hold (fst (im_abandon m w))"
    and "im_total_length (fst (im_abandon m w)) = im_total_length m"
    and "byte_state (fst (im_abandon m w)) b = map_option (relabel w) (byte_state m b)"
  using normalise_spec [of "m\<lparr>im_intervals := snd (abandon_loop w (im_intervals m) 0)\<rparr>"] assms
  by (simp_all add: im_abandon_def split_beta Let_def abandon_loop_snd chain_map_state
      invariants_hold_iff byte_state_def lookup_map_state)

lemma card_word_range: "card {b :: u64. s \<le> b \<and> b < e} = unat e - unat s"
proof -
  have "unat ` {b :: u64. s \<le> b \<and> b < e} = {unat s ..< unat e}"
  proof (intro equalityI subsetI)
    fix n assume n: "n \<in> {unat s ..< unat e}"
    then have "n < 2 ^ 64"
      using unat_lt_2p [of e] by simp
    then have "unat (of_nat n :: u64) = n"
      by (simp add: unat_of_nat)
    then show "n \<in> unat ` {b :: u64. s \<le> b \<and> b < e}"
      using n by (intro image_eqI [of _ _ "of_nat n"]) (auto simp: word_le_unat word_lt_unat)
  qed (auto simp: word_le_unat word_lt_unat)
  moreover have "inj_on unat {b :: u64. s \<le> b \<and> b < e}"
    by (rule inj_onI) (simp add: word_unat_eq_iff)
  ultimately show ?thesis
    using card_image by fastforce
qed

lemma owned_bytes_sum:
  assumes "chain a xs c"
  shows "card {b. lookup_byte xs b = Some st} =
           (\<Sum>i\<leftarrow>filter (\<lambda>i. iv_state i = st) xs. unat (iv_len i)) \<and>
         (\<Sum>i\<leftarrow>filter (\<lambda>i. iv_state i = st) xs. unat (iv_len i)) \<le> unat c - unat a"
  using assms
proof (induction xs arbitrary: a)
  case (Cons x xs)
  let ?H = "if iv_state x = st then {b. iv_start x \<le> b \<and> b < iv_end x} else {}"
  let ?T = "{b. lookup_byte xs b = Some st}"
  have ch: "chain (iv_end x) xs c" and x: "iv_start x = a" "a < iv_end x"
    using Cons.prems by auto
  have "b \<notin> ?T" if "b < iv_end x" for b
    using lookup_outside [OF ch] that by simp
  then have "{b. lookup_byte (x # xs) b = Some st} = ?H \<union> ?T" and "?H \<inter> ?T = {}"
    by (auto split: if_splits)
  then have "card {b. lookup_byte (x # xs) b = Some st} = card ?H + card ?T"
    by (simp add: card_Un_disjoint)
  moreover have "unat (iv_len x) = unat (iv_end x) - unat a"
    using x by (simp add: iv_len_def unat_minus_le)
  moreover have "unat a < unat (iv_end x)" "unat (iv_end x) \<le> unat c"
    using x chain_le [OF ch] by (simp_all add: word_lt_unat word_le_unat)
  ultimately show ?case
    using Cons.IH [OF ch] x by (auto simp: card_word_range)
qed simp

lemma unat_sum_list:
  assumes "(\<Sum>x\<leftarrow>xs. unat (f x)) < 2 ^ 64"
  shows "unat (\<Sum>x\<leftarrow>xs. f x :: u64) = (\<Sum>x\<leftarrow>xs. unat (f x))"
  using assms by (induction xs) (simp_all add: unat_word_ariths)

lemma im_abandon_released:
  assumes "invariants_hold m"
  shows "unat (snd (im_abandon m w)) = card {b. byte_state m b = Some (InProgress w)}"
proof -
  have ch: "chain 0 (im_intervals m) (im_total_length m)"
    using assms by (simp add: invariants_hold_iff)
  have "unat (im_total_length m) < 2 ^ 64"
    using unat_lt_2p [of "im_total_length m"] by simp
  then show ?thesis
    using owned_bytes_sum [OF ch, of "InProgress w"]
      unat_sum_list [of iv_len "filter (\<lambda>i. iv_state i = InProgress w) (im_intervals m)"]
    by (simp add: im_abandon_def split_beta Let_def abandon_loop_fst byte_state_def)
qed

section \<open>Canonicity: the map is determined by its byte states\<close>

lemma canonical_unique:
  assumes "chain a xs c" "canonical xs" "chain a ys c" "canonical ys"
    and "\<And>b. lookup_byte xs b = lookup_byte ys b"
  shows "xs = ys"
  using assms
proof (induction xs arbitrary: a ys)
  case Nil
  then show ?case
    using chain_less [of a ys c] by auto
next
  case (Cons x xs)
  then have "ys \<noteq> []"
    using chain_less [of a "x # xs" c] by auto
  then obtain y ys' where ys: "ys = y # ys'"
    by (cases ys) auto
  have X: "iv_start x = a" "a < iv_end x" "chain (iv_end x) xs c"
    and Y: "iv_start y = a" "a < iv_end y" "chain (iv_end y) ys' c"
    using Cons.prems(1,3) ys by auto
  have st: "iv_state x = iv_state y"
    using Cons.prems(5) [of a] X Y ys by simp
  have ends: False if ch: "chain (iv_end u) us c" "canonical (u # us)" "chain (iv_end v) vs c"
    and s: "iv_state u = iv_state v" "iv_start v = a" "a < iv_end u" "iv_end u < iv_end v" "iv_start u = a"
    and look: "lookup_byte (u # us) (iv_end u) = lookup_byte (v # vs) (iv_end u)" for u us v vs
  proof -
    have "iv_end u < c"
      using chain_le [OF ch(3)] s(4) by auto
    then obtain u' us' where us: "us = u' # us'"
      using ch(1) by (cases us) auto
    then have "iv_state u' \<noteq> iv_state u" "iv_start u' = iv_end u" "iv_end u < iv_end u'"
      using ch(1,2) by auto
    moreover have "iv_start v \<le> iv_end u"
      using s by simp
    ultimately show False
      using look us s(1,4) by auto
  qed
  have "iv_end x = iv_end y"
    using ends [of x xs y ys'] ends [of y ys' x xs] Cons.prems X Y st ys
    by (metis linorder_neqE)
  moreover have "lookup_byte xs b = lookup_byte ys' b" for b
    using Cons.prems(5) [of b] X Y ys calculation lookup_outside [OF X(3), of b]
      lookup_outside [OF Y(3), of b] by (cases "b < iv_end x") auto
  moreover have "canonical xs" "canonical ys'"
    using Cons.prems(2,4) ys by (cases xs; cases ys'; simp)+
  ultimately show ?case
    using Cons.IH [of "iv_end x" ys'] X Y st ys by (simp add: interval.equality)
qed

lemma interval_map_unique:
  assumes "invariants_hold m" "invariants_hold n" "im_total_length m = im_total_length n"
    and "\<And>b. byte_state m b = byte_state n b"
  shows "m = n"
  using canonical_unique [of 0 "im_intervals m" "im_total_length m" "im_intervals n"] assms
  by (simp add: invariants_hold_iff byte_state_def interval_map.equality)

section \<open>Histories of operations\<close>

text \<open>One mutation, by any caller of the map.\<close>

datatype ledger_op =
    OpGrant range64 worker_id
  | OpSplit u64 worker_id worker_id
  | OpComplete range64 worker_id
  | OpAbandon worker_id

type_synonym 'm range_op = "'m \<Rightarrow> range64 \<Rightarrow> worker_id \<Rightarrow> 'm \<times> (interval_map_error + unit)"
type_synonym 'm split_op =
  "'m \<Rightarrow> u64 \<Rightarrow> worker_id \<Rightarrow> worker_id \<Rightarrow> 'm \<times> (interval_map_error + unit)"
type_synonym 'm abandon_op = "'m \<Rightarrow> worker_id \<Rightarrow> 'm \<times> u64"

fun ledger_apply ::
    "'m range_op \<Rightarrow> 'm split_op \<Rightarrow> 'm range_op \<Rightarrow> 'm abandon_op \<Rightarrow> 'm \<Rightarrow> ledger_op \<Rightarrow> 'm" where
  "ledger_apply g sp c a m (OpGrant r w) = fst (g m r w)"
| "ledger_apply g sp c a m (OpSplit at s d) = fst (sp m at s d)"
| "ledger_apply g sp c a m (OpComplete r w) = fst (c m r w)"
| "ledger_apply g sp c a m (OpAbandon w) = fst (a m w)"

text \<open>
  The contract a holder of byte ownership offers its callers, stated on the state of single
  bytes.  What callers rely on over a whole history is derived from it once.
\<close>

locale byte_ledger =
  fixes inv :: "'m \<Rightarrow> bool"
    and st :: "'m \<Rightarrow> u64 \<Rightarrow> interval_state option"
    and grant_op :: "'m range_op" and split_op :: "'m split_op"
    and complete_op :: "'m range_op" and abandon_op :: "'m abandon_op"
  assumes step_inv: "inv m \<Longrightarrow> inv (ledger_apply grant_op split_op complete_op abandon_op m op)"
    and grant_law: "inv m \<Longrightarrow> snd (grant_op m r w) = Ok () \<Longrightarrow>
      (\<forall>b. fst r \<le> b \<and> b < snd r \<longrightarrow> st m b = Some Pending) \<and>
      st (fst (grant_op m r w)) = upd_range (st m) r (Some (InProgress w))"
    and complete_law: "inv m \<Longrightarrow> snd (complete_op m r w) = Ok () \<Longrightarrow>
      (\<forall>b. fst r \<le> b \<and> b < snd r \<longrightarrow> st m b = Some (InProgress w)) \<and>
      st (fst (complete_op m r w)) = upd_range (st m) r (Some Complete)"
    and split_law: "inv m \<Longrightarrow> snd (split_op m at s d) = Ok () \<Longrightarrow>
      \<exists>e. (\<forall>b. at \<le> b \<and> b < e \<longrightarrow> st m b = Some (InProgress s)) \<and>
          st (fst (split_op m at s d)) = upd_range (st m) (at, e) (Some (InProgress d))"
    and abandon_law: "inv m \<Longrightarrow> st (fst (abandon_op m w)) b = map_option (relabel w) (st m b)"
    and refused: "snd (grant_op m r w) = Err e \<Longrightarrow> fst (grant_op m r w) = m"
      "snd (complete_op m r w) = Err e \<Longrightarrow> fst (complete_op m r w) = m"
      "snd (split_op m at s d) = Err e \<Longrightarrow> fst (split_op m at s d) = m"
begin

abbreviation step :: "'m \<Rightarrow> ledger_op \<Rightarrow> 'm" where
  "step \<equiv> ledger_apply grant_op split_op complete_op abandon_op"

lemma step_byte:
  assumes "inv m"
  shows "st (step m op) b = st m b \<or>
    (\<exists>r w. op = OpGrant r w \<and> fst r \<le> b \<and> b < snd r \<and>
       st m b = Some Pending \<and> st (step m op) b = Some (InProgress w)) \<or>
    (\<exists>at s d. op = OpSplit at s d \<and> at \<le> b \<and>
       st m b = Some (InProgress s) \<and> st (step m op) b = Some (InProgress d)) \<or>
    (\<exists>r w. op = OpComplete r w \<and> fst r \<le> b \<and> b < snd r \<and>
       st m b = Some (InProgress w) \<and> st (step m op) b = Some Complete) \<or>
    (\<exists>w. op = OpAbandon w \<and> st m b = Some (InProgress w) \<and> st (step m op) b = Some Pending)"
proof (cases op)
  case (OpGrant r w)
  then show ?thesis
    using grant_law [OF assms, of r w] refused(1) [of m r w]
    by (cases "snd (grant_op m r w)") (auto simp: upd_range_def)
next
  case (OpSplit at s d)
  then show ?thesis
    using split_law [OF assms, of at s d] refused(3) [of m at s d]
    by (cases "snd (split_op m at s d)") (auto simp: upd_range_def split: if_splits)
next
  case (OpComplete r w)
  then show ?thesis
    using complete_law [OF assms, of r w] refused(2) [of m r w]
    by (cases "snd (complete_op m r w)") (auto simp: upd_range_def)
next
  case (OpAbandon w)
  then show ?thesis
    using abandon_law [OF assms, of w b] by (cases "st m b") (auto simp: relabel_def)
qed

lemma history_inv: "inv m \<Longrightarrow> inv (foldl step m ops)"
  by (induction ops arbitrary: m) (simp_all add: step_inv)

lemma step_complete_stable: "inv m \<Longrightarrow> st m b = Some Complete \<Longrightarrow> st (step m op) b = Some Complete"
  using step_byte [of m op b] by auto

lemma history_complete_stable:
  "inv m \<Longrightarrow> st m b = Some Complete \<Longrightarrow> st (foldl step m ops) b = Some Complete"
  by (induction ops arbitrary: m) (simp_all add: step_inv step_complete_stable)

text \<open>A byte changes hands between two workers only by an explicit split of the first one's grant.\<close>

lemma owner_change:
  "inv m \<Longrightarrow> st m b = Some (InProgress w) \<Longrightarrow> st (step m op) b = Some (InProgress v) \<Longrightarrow> v \<noteq> w \<Longrightarrow>
   \<exists>at. op = OpSplit at w v \<and> at \<le> b"
  using step_byte [of m op b] by auto

lemma history_domain:
  "inv m \<Longrightarrow> (st (foldl step m ops) b = None) = (st m b = None)"
proof (induction ops arbitrary: m)
  case (Cons op ops)
  have "(st (step m op) b = None) = (st m b = None)"
    using step_byte [OF Cons.prems, of op b] by auto
  then show ?case
    using Cons.IH [of "step m op"] step_inv [OF Cons.prems] by simp
qed simp

end

abbreviation im_step :: "interval_map \<Rightarrow> ledger_op \<Rightarrow> interval_map" where
  "im_step \<equiv> ledger_apply grant split_in_progress im_complete im_abandon"

lemma im_step_inv: "invariants_hold m \<Longrightarrow> invariants_hold (im_step m op)"
  by (cases op) (simp_all add: grant_inv split_inv im_complete_inv im_abandon_spec)

lemma im_step_total: "invariants_hold m \<Longrightarrow> im_total_length (im_step m op) = im_total_length m"
  by (cases op) (simp_all add: grant_inv split_inv im_complete_inv im_abandon_spec)

lemma im_split_law:
  assumes "invariants_hold m" "snd (split_in_progress m at s d) = Ok ()"
  shows "\<exists>e. (\<forall>b. at \<le> b \<and> b < e \<longrightarrow> byte_state m b = Some (InProgress s)) \<and>
    byte_state (fst (split_in_progress m at s d)) = upd_range (byte_state m) (at, e) (Some (InProgress d))"
  using assms
proof (rule split_ok)
  fix i assume i: "i \<in> set (im_intervals m)" "iv_start i < at" "at < iv_end i" "iv_state i = InProgress s"
    and st: "byte_state (fst (split_in_progress m at s d)) =
       upd_range (byte_state m) (at, iv_end i) (Some (InProgress d))"
  have "byte_state m b = Some (InProgress s)" if "at \<le> b" "b < iv_end i" for b
    using lookup_of_member [of 0 "im_intervals m" "im_total_length m" i b] assms(1) i that
    by (simp add: byte_state_def invariants_hold_iff)
  with st show ?thesis
    by blast
qed

interpretation il: byte_ledger invariants_hold byte_state grant split_in_progress im_complete im_abandon
  by unfold_locales
     (simp_all add: im_step_inv grant_Ok grant_state im_complete_Ok im_complete_state im_split_law
       im_abandon_spec grant_Err im_complete_Err split_Err)

lemma im_history_total: "invariants_hold m \<Longrightarrow> im_total_length (foldl im_step m ops) = im_total_length m"
  by (induction ops arbitrary: m) (simp_all add: im_step_total im_step_inv)

section \<open>Properties\<close>

text \<open>
  C21.  Whatever sequence of grants, splits, completions and abandonments, accepted or refused,
  is applied to a fresh map, \<open>invariants_hold\<close> (the source's own \<open>debug_assert\<close>) stays true, the
  file length does not change, and every byte of the file, and no other, has exactly one state.
\<close>

theorem interval_history:
  "invariants_hold (foldl im_step (im_new n) ops) \<and>
   im_total_length (foldl im_step (im_new n) ops) = n \<and>
   (\<forall>b. byte_state (foldl im_step (im_new n) ops) b \<noteq> None \<longleftrightarrow> b < n)"
  using il.history_inv [of "im_new n" ops] im_history_total [of "im_new n" ops]
    il.history_domain [of "im_new n" ops]
  by auto

text \<open>
  C22.  Once a byte is \<open>Complete\<close> no later history makes it anything else, so completed bytes are
  never granted, written or released again.
\<close>

theorem complete_is_final:
  assumes "invariants_hold m" and "byte_state m b = Some Complete"
  shows "byte_state (foldl im_step m ops) b = Some Complete"
  using assms by (rule il.history_complete_stable)

theorem complete_is_final_witness:
  "byte_state (foldl im_step
     (fst (im_complete (fst (grant (im_new 10) (0, 10) (WorkerId 1))) (2, 5) (WorkerId 1)))
     [OpAbandon (WorkerId 1), OpGrant (0, 10) (WorkerId 2)]) 3 = Some Complete"
  by (rule complete_is_final) code_simp+

text \<open>
  C23.  A byte owned by one worker becomes owned by another in a single operation only if that
  operation splits the first worker's grant at or before the byte in favour of the second: no
  grant, completion or abandonment ever makes two workers share or steal a byte.
\<close>

theorem owner_moves_only_by_split:
  assumes "invariants_hold m" and "byte_state m b = Some (InProgress w)"
    and "byte_state (im_step m op) b = Some (InProgress v)" and "v \<noteq> w"
  shows "\<exists>at. op = OpSplit at w v \<and> at \<le> b"
  using assms by (rule il.owner_change)

theorem owner_moves_only_by_split_witness:
  "\<exists>at. OpSplit 4 (WorkerId 1) (WorkerId 2) = OpSplit at (WorkerId 1) (WorkerId 2) \<and> at \<le> (7 :: u64)"
  by (rule owner_moves_only_by_split [of "fst (grant (im_new 10) (0, 10) (WorkerId 1))"]) code_simp+

text \<open>
  C24.  \<open>grant\<close> succeeds exactly on a non-empty range inside the file whose bytes are all pending;
  it then assigns precisely those bytes and keeps the invariant, and otherwise it returns an error
  and leaves the map as it was.
\<close>

theorem grant_refines:
  assumes "invariants_hold m"
  shows "if fst r < snd r \<and> snd r \<le> im_total_length m \<and>
            (\<forall>b. fst r \<le> b \<and> b < snd r \<longrightarrow> byte_state m b = Some Pending)
         then snd (grant m r w) = Ok () \<and> invariants_hold (fst (grant m r w)) \<and>
              byte_state (fst (grant m r w)) = upd_range (byte_state m) r (Some (InProgress w))
         else fst (grant m r w) = m \<and> snd (grant m r w) \<noteq> Ok ()"
  using grant_Ok [OF assms, of r w] grant_state [OF assms, of r w] grant_inv [OF assms, of r w]
    grant_Err [of m r w]
  by (cases "snd (grant m r w)") auto

theorem grant_refines_witness:
  "snd (grant (im_new 10) (2, 5) (WorkerId 1)) = Ok () \<and>
   byte_state (fst (grant (im_new 10) (2, 5) (WorkerId 1))) 4 = Some (InProgress (WorkerId 1))"
proof -
  have "\<forall>b. (2 :: u64) \<le> b \<and> b < 5 \<longrightarrow> b < 10"
    by (auto intro: less_trans)
  then show ?thesis
    using grant_refines [of "im_new 10" "(2, 5)" "WorkerId 1"] by (simp add: upd_range_def)
qed

text \<open>
  \<open>complete\<close> succeeds exactly when every byte of a non-empty range inside the file is owned by
  the reporting worker; it then turns precisely those bytes \<open>Complete\<close>, and otherwise it is an error
  that changes nothing.
\<close>

theorem complete_refines:
  assumes "invariants_hold m"
  shows "if fst r < snd r \<and> snd r \<le> im_total_length m \<and>
            (\<forall>b. fst r \<le> b \<and> b < snd r \<longrightarrow> byte_state m b = Some (InProgress w))
         then snd (im_complete m r w) = Ok () \<and> invariants_hold (fst (im_complete m r w)) \<and>
              byte_state (fst (im_complete m r w)) = upd_range (byte_state m) r (Some Complete)
         else fst (im_complete m r w) = m \<and> snd (im_complete m r w) \<noteq> Ok ()"
  using im_complete_Ok [OF assms, of r w] im_complete_state [OF assms, of r w]
    im_complete_inv [OF assms, of r w] im_complete_Err [of m r w]
  by (cases "snd (im_complete m r w)") auto

theorem complete_refines_witness:
  "fst (im_complete (im_new 10) (2, 5) (WorkerId 1)) = im_new 10 \<and>
   snd (im_complete (im_new 10) (2, 5) (WorkerId 1)) \<noteq> Ok ()"
proof -
  have "\<exists>b. (2 :: u64) \<le> b \<and> b < 5 \<and> byte_state (im_new 10) b \<noteq> Some (InProgress (WorkerId 1))"
    by (rule exI [of _ 3]) simp
  then show ?thesis
    using complete_refines [of "im_new 10" "(2, 5)" "WorkerId 1"] by (auto split: if_splits)
qed

text \<open>
  \<open>abandon\<close> returns exactly the bytes the worker owned to pending, touches no other byte,
  keeps the invariant, and reports the exact number of released bytes, without overflow.
\<close>

theorem abandon_exact:
  assumes "invariants_hold m"
  shows "invariants_hold (fst (im_abandon m w)) \<and>
    byte_state (fst (im_abandon m w)) = (\<lambda>b. map_option (relabel w) (byte_state m b)) \<and>
    unat (snd (im_abandon m w)) = card {b. byte_state m b = Some (InProgress w)}"
  using im_abandon_spec [OF assms] im_abandon_released [OF assms] by auto

theorem abandon_exact_witness:
  "card {b. byte_state (fst (grant (im_new 10) (2, 5) (WorkerId 1))) b = Some (InProgress (WorkerId 1))} = 3"
proof -
  let ?m = "fst (grant (im_new 10) (2, 5) (WorkerId 1))"
  have "invariants_hold ?m" and "snd (im_abandon ?m (WorkerId 1)) = 3"
    by code_simp+
  then show ?thesis
    using abandon_exact [of ?m "WorkerId 1"] by simp
qed

text \<open>
  The representation is canonical: two maps that satisfy the invariant and give every byte the
  same state are the same list of intervals, so nothing but the byte states influences a decision.
\<close>

theorem representation_canonical:
  assumes "invariants_hold m" and "invariants_hold n" and "im_total_length m = im_total_length n"
    and "\<forall>b. byte_state m b = byte_state n b"
  shows "m = n"
  using assms by (intro interval_map_unique) auto

theorem representation_canonical_witness:
  "fst (im_abandon (fst (grant (im_new 10) (2, 5) (WorkerId 1))) (WorkerId 1)) = im_new 10"
proof -
  let ?g = "fst (grant (im_new 10) (2, 5) (WorkerId 1))"
  have g: "invariants_hold ?g" "snd (grant (im_new 10) (2, 5) (WorkerId 1)) = Ok ()"
    by code_simp+
  have "byte_state (fst (im_abandon ?g (WorkerId 1))) b = byte_state (im_new 10) b" for b
    using im_abandon_spec(3) [OF g(1), of "WorkerId 1" b] grant_state [OF _ g(2)]
    by (auto simp: upd_range_def relabel_def intro: less_trans)
  then show ?thesis
    using im_abandon_spec [OF g(1)] grant_inv(2) [of "im_new 10"]
    by (intro representation_canonical) simp_all
qed

end
