(* ===== verification/SegmentAllocator.thy ===== *)
theory SegmentAllocator
  imports IntervalMap
begin

text \<open>
  The segment allocator of \<open>downpour-engine/src/lib.rs\<close>: the only component that hands byte
  ranges to workers.  Pending work is preferred (largest interval, lowest offset on ties); when
  none is left the largest active grant is split in half if both halves reach the configured
  floor.  The lemmas give the exact outcome of \<open>allocate\<close> on every branch.
\<close>

section \<open>Data\<close>

definition DEFAULT_MIN_SPLIT_BYTES :: u64 where
  "DEFAULT_MIN_SPLIT_BYTES = 1024 * 1024"

record grant_t =
  g_worker :: worker_id
  g_range :: range64

record allocation =
  al_grant :: grant_t
  al_shortened :: "grant_t option"

datatype allocator_error =
    ZeroMinimumSplit
  | WorkerAlreadyActive worker_id
  | AllocInterval interval_map_error

record segment_allocator =
  sa_intervals :: interval_map
  sa_min_split_bytes :: u64

section \<open>Operations\<close>

definition sa_new :: "u64 \<Rightarrow> u64 \<Rightarrow> allocator_error + segment_allocator" where
  "sa_new total_length min_split_bytes =
     (if min_split_bytes = 0 then Err ZeroMinimumSplit
      else Ok \<lparr>sa_intervals = im_new total_length, sa_min_split_bytes = min_split_bytes\<rparr>)"

text \<open>
  \<open>Iterator::max_by\<close>: a left fold that keeps the earlier element only when it compares
  \<open>Greater\<close> than the later one.
\<close>

definition max_by :: "('a \<Rightarrow> 'a \<Rightarrow> bool) \<Rightarrow> 'a list \<Rightarrow> 'a option" where
  "max_by gt xs =
     (case xs of [] \<Rightarrow> None
      | x # rest \<Rightarrow> Some (foldl (\<lambda>best y. if gt best y then best else y) x rest))"

text \<open>The comparator: by length, then towards the lower offset.\<close>

definition prefers :: "interval \<Rightarrow> interval \<Rightarrow> bool" where
  "prefers left right =
     (iv_len left > iv_len right \<or> iv_len left = iv_len right \<and> iv_start right > iv_start left)"

definition preferred_range :: "segment_allocator \<Rightarrow> (interval_state \<Rightarrow> bool) \<Rightarrow> range64 option" where
  "preferred_range sa p =
     map_option (\<lambda>i. (iv_start i, iv_end i))
       (max_by prefers (filter (\<lambda>i. p (iv_state i)) (im_intervals (sa_intervals sa))))"

definition active_of :: "interval \<Rightarrow> (interval \<times> worker_id) option" where
  "active_of i = (case iv_state i of InProgress w \<Rightarrow> Some (i, w) | _ \<Rightarrow> None)"

definition preferred_active :: "segment_allocator \<Rightarrow> (range64 \<times> worker_id) option" where
  "preferred_active sa =
     map_option (\<lambda>(i, w). ((iv_start i, iv_end i), w))
       (max_by (\<lambda>l r. prefers (fst l) (fst r))
          (List.map_filter active_of (im_intervals (sa_intervals sa))))"

definition allocate ::
    "segment_allocator \<Rightarrow> worker_id \<Rightarrow> segment_allocator \<times> (allocator_error + allocation option)" where
  "allocate sa w =
     (if list_ex (\<lambda>i. iv_state i = InProgress w) (im_intervals (sa_intervals sa))
      then (sa, Err (WorkerAlreadyActive w))
      else
        (case preferred_range sa (\<lambda>st. st = Pending) of
           Some r \<Rightarrow>
             (case grant (sa_intervals sa) r w of
                (m', Err e) \<Rightarrow> (sa\<lparr>sa_intervals := m'\<rparr>, Err (AllocInterval e))
              | (m', Ok _) \<Rightarrow>
                  (sa\<lparr>sa_intervals := m'\<rparr>,
                   Ok (Some \<lparr>al_grant = \<lparr>g_worker = w, g_range = r\<rparr>, al_shortened = None\<rparr>)))
         | None \<Rightarrow>
             (case checked_mul (sa_min_split_bytes sa) 2 of
                None \<Rightarrow> (sa, Ok None)
              | Some required \<Rightarrow>
                  (case preferred_active sa of
                     None \<Rightarrow> (sa, Ok None)
                   | Some (r, source) \<Rightarrow>
                       if snd r - fst r < required then (sa, Ok None)
                       else
                         let split_at = fst r + (snd r - fst r) div 2 in
                         (case split_in_progress (sa_intervals sa) split_at source w of
                            (m', Err e) \<Rightarrow> (sa\<lparr>sa_intervals := m'\<rparr>, Err (AllocInterval e))
                          | (m', Ok _) \<Rightarrow>
                              (sa\<lparr>sa_intervals := m'\<rparr>,
                               Ok (Some
                                 \<lparr>al_grant = \<lparr>g_worker = w, g_range = (split_at, snd r)\<rparr>,
                                  al_shortened =
                                    Some \<lparr>g_worker = source, g_range = (fst r, split_at)\<rparr>\<rparr>)))))))"

definition complete_durable ::
    "segment_allocator \<Rightarrow> worker_id \<Rightarrow> range64 \<Rightarrow> segment_allocator \<times> (allocator_error + unit)" where
  "complete_durable sa w r =
     (case im_complete (sa_intervals sa) r w of
        (m', Err e) \<Rightarrow> (sa\<lparr>sa_intervals := m'\<rparr>, Err (AllocInterval e))
      | (m', Ok _) \<Rightarrow> (sa\<lparr>sa_intervals := m'\<rparr>, Ok ()))"

definition sa_abandon :: "segment_allocator \<Rightarrow> worker_id \<Rightarrow> segment_allocator \<times> u64" where
  "sa_abandon sa w =
     (let (m', released) = im_abandon (sa_intervals sa) w in (sa\<lparr>sa_intervals := m'\<rparr>, released))"

section \<open>Well-formedness\<close>

definition sa_inv :: "segment_allocator \<Rightarrow> bool" where
  "sa_inv sa = (invariants_hold (sa_intervals sa) \<and> sa_min_split_bytes sa \<noteq> 0)"

abbreviation sa_state :: "segment_allocator \<Rightarrow> u64 \<Rightarrow> interval_state option" where
  "sa_state sa \<equiv> byte_state (sa_intervals sa)"

section \<open>The maximum\<close>

lemma max_by_spec:
  assumes neg_trans: "\<And>x y z. \<not> gt x y \<Longrightarrow> \<not> gt y z \<Longrightarrow> \<not> gt x z"
    and asym: "\<And>x y. gt x y \<Longrightarrow> \<not> gt y x"
    and "max_by gt xs = Some m"
  shows "m \<in> set xs \<and> (\<forall>y \<in> set xs. \<not> gt y m)"
proof -
  have fold: "foldl (\<lambda>best y. if gt best y then best else y) x rest \<in> set (x # rest) \<and>
      (\<forall>y \<in> set (x # rest). \<not> gt y (foldl (\<lambda>best y. if gt best y then best else y) x rest))" for x rest
  proof (induction rest arbitrary: x)
    case Nil
    then show ?case
      using asym by auto
  next
    case (Cons z rest)
    show ?case
    proof (cases "gt x z")
      case True
      then show ?thesis
        using Cons.IH [of x] neg_trans [OF asym [OF True]] by auto
    next
      case False
      then show ?thesis
        using Cons.IH [of z] neg_trans [OF False] by auto
    qed
  qed
  show ?thesis
    using assms(3) fold by (cases xs) (auto simp: max_by_def)
qed

lemma max_by_None: "max_by gt xs = None \<longleftrightarrow> xs = []"
  by (simp add: max_by_def split: list.splits)

lemma prefers_asym: "prefers x y \<Longrightarrow> \<not> prefers y x"
  by (auto simp: prefers_def)

lemma prefers_neg_trans: "\<not> prefers x y \<Longrightarrow> \<not> prefers y z \<Longrightarrow> \<not> prefers x z"
  by (auto simp: prefers_def not_less)

lemma preferred_range_Some:
  assumes "preferred_range sa p = Some r"
  obtains i where "i \<in> set (im_intervals (sa_intervals sa))" "r = (iv_start i, iv_end i)" "p (iv_state i)"
    "\<And>j. j \<in> set (im_intervals (sa_intervals sa)) \<Longrightarrow> p (iv_state j) \<Longrightarrow> \<not> prefers j i"
proof -
  obtain i where i: "max_by prefers (filter (\<lambda>i. p (iv_state i)) (im_intervals (sa_intervals sa))) = Some i"
    and r: "r = (iv_start i, iv_end i)"
    using assms by (auto simp: preferred_range_def)
  show thesis
    using max_by_spec [OF prefers_neg_trans prefers_asym i] r by (intro that [of i]) auto
qed

lemma preferred_range_None:
  "preferred_range sa p = None \<longleftrightarrow> (\<forall>i \<in> set (im_intervals (sa_intervals sa)). \<not> p (iv_state i))"
  by (simp add: preferred_range_def max_by_None filter_empty_conv)

lemma set_map_filter: "y \<in> set (List.map_filter f xs) \<longleftrightarrow> (\<exists>x \<in> set xs. f x = Some y)"
  by (force simp: map_filter_def)

lemma active_of_Some: "active_of i = Some (j, w) \<longleftrightarrow> j = i \<and> iv_state i = InProgress w"
  by (auto simp: active_of_def split: interval_state.splits)

lemma preferred_active_Some:
  assumes "preferred_active sa = Some (r, w)"
  obtains i where "i \<in> set (im_intervals (sa_intervals sa))" "r = (iv_start i, iv_end i)"
    "iv_state i = InProgress w"
    "\<And>j v. j \<in> set (im_intervals (sa_intervals sa)) \<Longrightarrow> iv_state j = InProgress v \<Longrightarrow> \<not> prefers j i"
proof -
  let ?L = "List.map_filter active_of (im_intervals (sa_intervals sa))"
  obtain i where i: "max_by (\<lambda>l r. prefers (fst l) (fst r)) ?L = Some (i, w)"
    and r: "r = (iv_start i, iv_end i)"
    using assms by (auto simp: preferred_active_def)
  have "(i, w) \<in> set ?L" and best: "\<And>p. p \<in> set ?L \<Longrightarrow> \<not> prefers (fst p) i"
    using max_by_spec [of "\<lambda>l r. prefers (fst l) (fst r)", OF _ _ i]
    by (auto dest: prefers_asym prefers_neg_trans)
  then show thesis
    using r best [of "(_, _)"] by (intro that [of i]) (auto simp: set_map_filter active_of_Some)
qed

lemma preferred_active_None:
  "preferred_active sa = None \<longleftrightarrow>
     (\<forall>i \<in> set (im_intervals (sa_intervals sa)). \<forall>w. iv_state i \<noteq> InProgress w)"
  by (auto simp: preferred_active_def max_by_None map_filter_def filter_empty_conv active_of_def
      split: interval_state.splits)

section \<open>Intervals and byte states\<close>

lemma chain_same:
  "chain a xs c \<Longrightarrow> i \<in> set xs \<Longrightarrow> j \<in> set xs \<Longrightarrow> iv_start i \<le> b \<Longrightarrow> b < iv_end i \<Longrightarrow>
   iv_start j \<le> b \<Longrightarrow> b < iv_end j \<Longrightarrow> i = j"
proof (induction xs arbitrary: a)
  case (Cons x xs)
  have "iv_end x \<le> iv_start k" if "k \<in> set xs" for k
    using Cons.prems(1) chain_bounds [OF _ that, of "iv_end x" c] by auto
  then have "k \<notin> set xs \<or> iv_end x \<le> b" if "iv_start k \<le> b" for k
    using that by (meson order.trans)
  moreover have "chain (iv_end x) xs c"
    using Cons.prems(1) by simp
  ultimately show ?case
    using Cons.IH [of "iv_end x"] Cons.prems by (metis leD set_ConsD)
qed simp

lemma interval_bytes:
  assumes "invariants_hold m" and "i \<in> set (im_intervals m)"
  shows "iv_start i < iv_end i" and "iv_end i \<le> im_total_length m"
    and "iv_start i \<le> b \<Longrightarrow> b < iv_end i \<Longrightarrow> byte_state m b = Some (iv_state i)"
  using assms chain_bounds [of 0 "im_intervals m" "im_total_length m" i]
    lookup_of_member [of 0 "im_intervals m" "im_total_length m" i b]
  by (auto simp: invariants_hold_iff byte_state_def)

lemma has_state_iff:
  assumes "invariants_hold m"
  shows "(\<exists>i \<in> set (im_intervals m). iv_state i = st) \<longleftrightarrow> (\<exists>b. byte_state m b = Some st)"
proof
  assume "\<exists>i \<in> set (im_intervals m). iv_state i = st"
  then obtain i where i: "i \<in> set (im_intervals m)" "iv_state i = st"
    by blast
  then have "byte_state m (iv_start i) = Some st"
    using interval_bytes [OF assms i(1)] by simp
  then show "\<exists>b. byte_state m b = Some st" ..
next
  assume "\<exists>b. byte_state m b = Some st"
  then show "\<exists>i \<in> set (im_intervals m). iv_state i = st"
    unfolding byte_state_def using lookup_member by blast
qed

section \<open>Outcome of an allocation\<close>

lemma split_of_interval:
  assumes inv: "invariants_hold m" and i: "i \<in> set (im_intervals m)" "iv_start i < at" "at < iv_end i"
    and st: "iv_state i = InProgress s" and ne: "s \<noteq> d"
  shows "snd (split_in_progress m at s d) = Ok () \<and>
    byte_state (fst (split_in_progress m at s d)) =
      upd_range (byte_state m) (at, iv_end i) (Some (InProgress d))"
proof -
  have ok: "snd (split_in_progress m at s d) = Ok ()"
  proof (cases "position (\<lambda>i. iv_start i < at \<and> at < iv_end i \<and> iv_state i = InProgress s) (im_intervals m)")
    case None
    then show ?thesis
      using i st by (auto simp: position_None)
  qed (simp add: split_in_progress_def Let_def ne)
  obtain j where j: "j \<in> set (im_intervals m)" "iv_start j < at" "at < iv_end j"
    and res: "byte_state (fst (split_in_progress m at s d)) =
       upd_range (byte_state m) (at, iv_end j) (Some (InProgress d))"
    using split_ok [OF inv ok] by metis
  have "j = i"
    using chain_same [of 0 "im_intervals m" "im_total_length m" j i at] inv i j
    by (simp add: invariants_hold_iff)
  with ok res show ?thesis
    by simp
qed

lemma midpoint:
  fixes s e required :: u64
  assumes "s < e" and "unat (e - s) \<ge> 2 * k" and "0 < k"
  shows "s < s + (e - s) div 2" and "s + (e - s) div 2 < e"
    and "k \<le> unat (s + (e - s) div 2 - s)" and "k \<le> unat (e - (s + (e - s) div 2))"
proof -
  have h: "unat ((e - s) div 2) = unat (e - s) div 2"
    by (simp add: unat_div)
  have es: "unat (e - s) = unat e - unat s"
    using assms(1) by (simp add: unat_minus_le)
  have lt: "unat s < unat e"
    using assms(1) by (simp add: word_lt_unat)
  have "unat s + (unat e - unat s) div 2 < 2 ^ 64"
    using lt unat_lt_2p [of e] by simp
  then have m: "unat (s + (e - s) div 2) = unat s + (unat e - unat s) div 2"
    by (simp add: unat_word_ariths(1) h es)
  show a: "s < s + (e - s) div 2" and b: "s + (e - s) div 2 < e"
    using assms(2,3) es lt by (simp_all add: word_lt_unat m)
  show "k \<le> unat (s + (e - s) div 2 - s)"
    using assms(2) es by (simp add: h)
  show "k \<le> unat (e - (s + (e - s) div 2))"
    using assms(2) es lt b by (simp add: unat_minus_le m)
qed

lemma allocate_busy:
  assumes "sa_inv sa" and "sa_state sa b = Some (InProgress w)"
  shows "allocate sa w = (sa, Err (WorkerAlreadyActive w))"
  using assms has_state_iff [of "sa_intervals sa" "InProgress w"]
  by (auto simp: allocate_def sa_inv_def list_ex_iff)

lemma idle_worker:
  assumes "sa_inv sa" and "\<forall>b. sa_state sa b \<noteq> Some (InProgress w)"
  shows "\<not> list_ex (\<lambda>i. iv_state i = InProgress w) (im_intervals (sa_intervals sa))"
  using assms has_state_iff [of "sa_intervals sa" "InProgress w"]
  by (auto simp: sa_inv_def list_ex_iff)

lemma allocate_pending_case:
  assumes inv: "sa_inv sa" and idle: "\<forall>b. sa_state sa b \<noteq> Some (InProgress w)"
    and pend: "sa_state sa b0 = Some Pending"
  obtains i where "i \<in> set (im_intervals (sa_intervals sa))" "iv_state i = Pending"
    "\<And>j. j \<in> set (im_intervals (sa_intervals sa)) \<Longrightarrow> iv_state j = Pending \<Longrightarrow> \<not> prefers j i"
    "snd (allocate sa w) = Ok (Some \<lparr>al_grant = \<lparr>g_worker = w, g_range = (iv_start i, iv_end i)\<rparr>,
                                     al_shortened = None\<rparr>)"
    "sa_inv (fst (allocate sa w))"
    "sa_state (fst (allocate sa w)) =
       upd_range (sa_state sa) (iv_start i, iv_end i) (Some (InProgress w))"
proof -
  let ?m = "sa_intervals sa"
  have m: "invariants_hold ?m"
    using inv by (simp add: sa_inv_def)
  obtain r where r: "preferred_range sa (\<lambda>st. st = Pending) = Some r"
    using has_state_iff [OF m, of Pending] pend preferred_range_None [of sa "\<lambda>st. st = Pending"]
    by (metis not_None_eq)
  obtain i where i: "i \<in> set (im_intervals ?m)" "r = (iv_start i, iv_end i)" "iv_state i = Pending"
    and best: "\<And>j. j \<in> set (im_intervals ?m) \<Longrightarrow> iv_state j = Pending \<Longrightarrow> \<not> prefers j i"
    using preferred_range_Some [OF r] by blast
  have ok: "snd (grant ?m r w) = Ok ()"
    using interval_bytes [OF m i(1)] i by (simp add: grant_Ok [OF m])
  then have res: "allocate sa w =
      (sa\<lparr>sa_intervals := fst (grant ?m r w)\<rparr>,
       Ok (Some \<lparr>al_grant = \<lparr>g_worker = w, g_range = r\<rparr>, al_shortened = None\<rparr>))"
    using idle_worker [OF inv idle] r by (simp add: allocate_def split_beta)
  show thesis
    by (rule that [OF i(1,3) best])
       (use inv i grant_inv [OF m] grant_state [OF m ok] in \<open>simp_all add: res sa_inv_def\<close>)
qed

lemma allocate_nothing:
  assumes inv: "sa_inv sa" and idle: "\<forall>b. sa_state sa b \<noteq> Some (InProgress w)"
    and nopend: "\<forall>b. sa_state sa b \<noteq> Some Pending"
    and small: "\<And>i v. i \<in> set (im_intervals (sa_intervals sa)) \<Longrightarrow> iv_state i = InProgress v \<Longrightarrow>
       unat (iv_len i) < 2 * unat (sa_min_split_bytes sa)"
  shows "allocate sa w = (sa, Ok None)"
proof -
  have m: "invariants_hold (sa_intervals sa)"
    using inv by (simp add: sa_inv_def)
  have none: "preferred_range sa (\<lambda>st. st = Pending) = None"
    using has_state_iff [OF m, of Pending] nopend by (auto simp: preferred_range_None)
  show ?thesis
  proof (cases "preferred_active sa")
    case None
    then show ?thesis
      using idle_worker [OF inv idle] none by (simp add: allocate_def split: option.splits)
  next
    case (Some rw)
    obtain r v where rw: "rw = (r, v)"
      by (cases rw)
    obtain i where i: "i \<in> set (im_intervals (sa_intervals sa))" "r = (iv_start i, iv_end i)"
      "iv_state i = InProgress v"
      using preferred_active_Some Some rw by metis
    have "snd r - fst r < req" if "checked_mul (sa_min_split_bytes sa) 2 = Some req" for req
      using small [OF i(1,3)] that i(2) by (simp add: iv_len_def word_lt_unat arith_simps mult.commute)
    then show ?thesis
      using idle_worker [OF inv idle] none Some rw by (auto simp: allocate_def split: option.splits)
  qed
qed

lemma allocate_split_case:
  assumes inv: "sa_inv sa" and idle: "\<forall>b. sa_state sa b \<noteq> Some (InProgress w)"
    and nopend: "\<forall>b. sa_state sa b \<noteq> Some Pending"
    and big: "i0 \<in> set (im_intervals (sa_intervals sa))" "iv_state i0 = InProgress v0"
      "2 * unat (sa_min_split_bytes sa) \<le> unat (iv_len i0)"
  obtains i v at where "i \<in> set (im_intervals (sa_intervals sa))" "iv_state i = InProgress v"
    "\<And>j u. j \<in> set (im_intervals (sa_intervals sa)) \<Longrightarrow> iv_state j = InProgress u \<Longrightarrow> \<not> prefers j i"
    "at = iv_start i + iv_len i div 2"
    "iv_start i < at" "at < iv_end i"
    "sa_min_split_bytes sa \<le> at - iv_start i" "sa_min_split_bytes sa \<le> iv_end i - at"
    "snd (allocate sa w) = Ok (Some \<lparr>al_grant = \<lparr>g_worker = w, g_range = (at, iv_end i)\<rparr>,
       al_shortened = Some \<lparr>g_worker = v, g_range = (iv_start i, at)\<rparr>\<rparr>)"
    "sa_inv (fst (allocate sa w))"
    "sa_state (fst (allocate sa w)) = upd_range (sa_state sa) (at, iv_end i) (Some (InProgress w))"
proof -
  let ?m = "sa_intervals sa" and ?k = "unat (sa_min_split_bytes sa)"
  have m: "invariants_hold ?m" and k0: "0 < ?k"
    using inv by (simp_all add: sa_inv_def unat_gt_0)
  have none: "preferred_range sa (\<lambda>st. st = Pending) = None"
    using has_state_iff [OF m, of Pending] nopend by (auto simp: preferred_range_None)
  have "preferred_active sa \<noteq> None"
    using big preferred_active_None [of sa] by auto
  then obtain r v where pa: "preferred_active sa = Some (r, v)"
    by auto
  obtain i where i: "i \<in> set (im_intervals ?m)" "r = (iv_start i, iv_end i)" "iv_state i = InProgress v"
    and best: "\<And>j u. j \<in> set (im_intervals ?m) \<Longrightarrow> iv_state j = InProgress u \<Longrightarrow> \<not> prefers j i"
    using preferred_active_Some [OF pa] by metis
  have len: "2 * ?k \<le> unat (iv_len i)"
    using best [OF big(1,2)] big(3) by (auto simp: prefers_def word_lt_unat not_less)
  have "2 * ?k < 2 ^ 64"
    using le_less_trans [OF len unat_lt_2p] by simp
  then obtain req where req: "checked_mul (sa_min_split_bytes sa) 2 = Some req"
    by (cases "checked_mul (sa_min_split_bytes sa) (2 :: u64)") (auto simp: checked_mul_None mult.commute)
  have lreq: "\<not> snd r - fst r < req"
    using len req i(2) by (simp add: iv_len_def checked_mul_Some word_lt_unat mult.commute)
  define at where "at = iv_start i + iv_len i div 2"
  have len': "2 * ?k \<le> unat (iv_end i - iv_start i)"
    using len by (simp add: iv_len_def)
  note mid = midpoint [OF interval_bytes(1) [OF m i(1)] len' k0, folded iv_len_def, folded at_def]
  have "v \<noteq> w"
    using interval_bytes(1) [OF m i(1)] interval_bytes(3) [OF m i(1), of "iv_start i"] idle i(3) by auto
  note sp = split_of_interval [OF m i(1) mid(1,2) i(3) this]
  have res: "allocate sa w = (sa\<lparr>sa_intervals := fst (split_in_progress ?m at v w)\<rparr>,
      Ok (Some \<lparr>al_grant = \<lparr>g_worker = w, g_range = (at, iv_end i)\<rparr>,
                al_shortened = Some \<lparr>g_worker = v, g_range = (iv_start i, at)\<rparr>\<rparr>))"
    using idle_worker [OF inv idle] none req pa lreq sp i(2)
    by (simp add: allocate_def split_beta Let_def at_def iv_len_def)
  show thesis
    by (rule that [OF i(1,3) best at_def mid(1,2)])
       (use mid inv sp split_inv [OF m] in \<open>simp_all add: res sa_inv_def word_le_unat\<close>)
qed

section \<open>Properties\<close>

lemma allocate_cases:
  assumes inv: "sa_inv sa"
  obtains (busy) b where "sa_state sa b = Some (InProgress w)"
  | (pending) b where "\<forall>b. sa_state sa b \<noteq> Some (InProgress w)" "sa_state sa b = Some Pending"
  | (split) i v where "\<forall>b. sa_state sa b \<noteq> Some (InProgress w)" "\<forall>b. sa_state sa b \<noteq> Some Pending"
      "i \<in> set (im_intervals (sa_intervals sa))" "iv_state i = InProgress v"
      "2 * unat (sa_min_split_bytes sa) \<le> unat (iv_len i)"
  | (nothing) "\<forall>b. sa_state sa b \<noteq> Some (InProgress w)" "\<forall>b. sa_state sa b \<noteq> Some Pending"
      "\<And>i v. i \<in> set (im_intervals (sa_intervals sa)) \<Longrightarrow> iv_state i = InProgress v \<Longrightarrow>
       unat (iv_len i) < 2 * unat (sa_min_split_bytes sa)"
  by (metis not_less)

lemma allocate_result:
  assumes inv: "sa_inv sa"
  shows "sa_inv (fst (allocate sa w)) \<and>
    (case snd (allocate sa w) of
       Err e \<Rightarrow> e = WorkerAlreadyActive w \<and> fst (allocate sa w) = sa \<and>
         (\<exists>b. sa_state sa b = Some (InProgress w))
     | Ok None \<Rightarrow> fst (allocate sa w) = sa
     | Ok (Some a) \<Rightarrow>
         g_worker (al_grant a) = w \<and> fst (g_range (al_grant a)) < snd (g_range (al_grant a)) \<and>
         snd (g_range (al_grant a)) \<le> im_total_length (sa_intervals sa) \<and>
         (\<forall>b. sa_state sa b \<noteq> Some (InProgress w)) \<and>
         (\<forall>b. fst (g_range (al_grant a)) \<le> b \<and> b < snd (g_range (al_grant a)) \<longrightarrow>
            sa_state sa b = Some (case al_shortened a of None \<Rightarrow> Pending
                                  | Some g \<Rightarrow> InProgress (g_worker g))) \<and>
         sa_state (fst (allocate sa w)) =
           upd_range (sa_state sa) (g_range (al_grant a)) (Some (InProgress w)))"
proof -
  have m: "invariants_hold (sa_intervals sa)"
    using inv by (simp add: sa_inv_def)
  show ?thesis
  proof (rule allocate_cases [OF inv, of w], goal_cases)
    case (1 b)
    then show ?case
      using inv by (auto simp: allocate_busy [OF inv 1])
  next
    case (2 b)
    show ?case
      using inv 2
      by (rule allocate_pending_case) (use 2 interval_bytes [OF m] in auto)
  next
    case (3 i v)
    show ?case
      using inv 3
      by (rule allocate_split_case) (use 3 interval_bytes [OF m] in auto)
  next
    case 4
    then show ?case
      using inv allocate_nothing [OF inv 4] by simp
  qed
qed

lemma complete_durable_result:
  assumes "sa_inv sa"
  shows "sa_inv (fst (complete_durable sa w r))"
    and "snd (complete_durable sa w r) = Ok () \<longleftrightarrow> snd (im_complete (sa_intervals sa) r w) = Ok ()"
    and "sa_intervals (fst (complete_durable sa w r)) = fst (im_complete (sa_intervals sa) r w)"
  using assms im_complete_inv [of "sa_intervals sa" r w]
  by (auto simp: complete_durable_def sa_inv_def split: prod.splits sum.splits)

lemma complete_durable_Err:
  "snd (complete_durable sa w r) = Err e \<Longrightarrow> fst (complete_durable sa w r) = sa"
  using im_complete_Err [of "sa_intervals sa" r w]
  by (auto simp: complete_durable_def split: prod.splits sum.splits)

lemma sa_abandon_result:
  assumes "sa_inv sa"
  shows "sa_inv (fst (sa_abandon sa w))"
    and "sa_state (fst (sa_abandon sa w)) b = map_option (relabel w) (sa_state sa b)"
    and "im_total_length (sa_intervals (fst (sa_abandon sa w))) = im_total_length (sa_intervals sa)"
  using assms im_abandon_spec [of "sa_intervals sa" w]
  by (auto simp: sa_abandon_def sa_inv_def split_beta Let_def)

lemma sa_new_inv: "sa_new n k = Ok sa \<Longrightarrow> sa_inv sa \<and> sa_intervals sa = im_new n"
  by (auto simp: sa_new_def sa_inv_def split: if_splits)



text \<open>
  Pending work wins: an idle worker that asks while some byte is pending receives a whole
  pending interval, of maximal length and, among those, of lowest offset; only its bytes change,
  from pending to owned, and no other grant is shortened.
\<close>

theorem allocate_prefers_pending:
  assumes "sa_inv sa" and "\<forall>b. sa_state sa b \<noteq> Some (InProgress w)" and "sa_state sa b0 = Some Pending"
  shows "\<exists>i \<in> set (im_intervals (sa_intervals sa)).
    iv_state i = Pending \<and>
    (\<forall>j \<in> set (im_intervals (sa_intervals sa)). iv_state j = Pending \<longrightarrow>
       iv_len j < iv_len i \<or> iv_len j = iv_len i \<and> iv_start i \<le> iv_start j) \<and>
    snd (allocate sa w) = Ok (Some \<lparr>al_grant = \<lparr>g_worker = w, g_range = (iv_start i, iv_end i)\<rparr>,
                                    al_shortened = None\<rparr>) \<and>
    sa_state (fst (allocate sa w)) =
      upd_range (sa_state sa) (iv_start i, iv_end i) (Some (InProgress w))"
  using assms
proof (rule allocate_pending_case)
  fix i
  assume i: "i \<in> set (im_intervals (sa_intervals sa))" "iv_state i = Pending"
    and best: "\<And>j. j \<in> set (im_intervals (sa_intervals sa)) \<Longrightarrow> iv_state j = Pending \<Longrightarrow> \<not> prefers j i"
    and rest: "snd (allocate sa w) = Ok (Some \<lparr>al_grant = \<lparr>g_worker = w, g_range = (iv_start i, iv_end i)\<rparr>,
                                    al_shortened = None\<rparr>)"
      "sa_state (fst (allocate sa w)) =
        upd_range (sa_state sa) (iv_start i, iv_end i) (Some (InProgress w))"
  have "iv_len j < iv_len i \<or> iv_len j = iv_len i \<and> iv_start i \<le> iv_start j"
    if "j \<in> set (im_intervals (sa_intervals sa))" "iv_state j = Pending" for j
    using best [OF that] by (auto simp: prefers_def not_less)
  with i rest show ?thesis
    by blast
qed

theorem allocate_prefers_pending_witness:
  "snd (allocate \<lparr>sa_intervals = im_new 10, sa_min_split_bytes = 1\<rparr> (WorkerId 1)) =
     Ok (Some \<lparr>al_grant = \<lparr>g_worker = WorkerId 1, g_range = (0, 10)\<rparr>, al_shortened = None\<rparr>)"
  using allocate_prefers_pending [of "\<lparr>sa_intervals = im_new 10, sa_min_split_bytes = 1\<rparr>" "WorkerId 1" 3]
  by (simp add: sa_inv_def) (simp add: im_new_def)

text \<open>
  Splitting: when nothing is pending and the largest active interval reaches twice the floor,
  an idle worker receives its upper half and the former owner keeps the lower half; both halves are
  at least \<open>min_split_bytes\<close> long, they tile the old interval, and only the upper half changes owner.
\<close>

theorem allocate_splits_largest:
  assumes "sa_inv sa" and "\<forall>b. sa_state sa b \<noteq> Some (InProgress w)" and "\<forall>b. sa_state sa b \<noteq> Some Pending"
    and "i0 \<in> set (im_intervals (sa_intervals sa))" and "iv_state i0 = InProgress v0"
    and "2 * unat (sa_min_split_bytes sa) \<le> unat (iv_len i0)"
  shows "\<exists>i \<in> set (im_intervals (sa_intervals sa)). \<exists>v at.
    iv_state i = InProgress v \<and> iv_len i0 \<le> iv_len i \<and>
    sa_min_split_bytes sa \<le> at - iv_start i \<and> sa_min_split_bytes sa \<le> iv_end i - at \<and>
    iv_start i < at \<and> at < iv_end i \<and>
    snd (allocate sa w) = Ok (Some \<lparr>al_grant = \<lparr>g_worker = w, g_range = (at, iv_end i)\<rparr>,
       al_shortened = Some \<lparr>g_worker = v, g_range = (iv_start i, at)\<rparr>\<rparr>) \<and>
    sa_state (fst (allocate sa w)) = upd_range (sa_state sa) (at, iv_end i) (Some (InProgress w))"
  using assms
proof (rule allocate_split_case)
  fix i v at
  assume A: "i \<in> set (im_intervals (sa_intervals sa))" "iv_state i = InProgress v"
    "\<And>j u. j \<in> set (im_intervals (sa_intervals sa)) \<Longrightarrow> iv_state j = InProgress u \<Longrightarrow> \<not> prefers j i"
    "iv_start i < at" "at < iv_end i"
    "sa_min_split_bytes sa \<le> at - iv_start i" "sa_min_split_bytes sa \<le> iv_end i - at"
    "snd (allocate sa w) = Ok (Some \<lparr>al_grant = \<lparr>g_worker = w, g_range = (at, iv_end i)\<rparr>,
       al_shortened = Some \<lparr>g_worker = v, g_range = (iv_start i, at)\<rparr>\<rparr>)"
    "sa_state (fst (allocate sa w)) = upd_range (sa_state sa) (at, iv_end i) (Some (InProgress w))"
  have "iv_len i0 \<le> iv_len i"
    using A(3) [OF assms(4,5)] by (auto simp: prefers_def not_less)
  then show ?thesis
    using A by (intro bexI [OF _ A(1)] exI conjI) auto
qed

theorem allocate_splits_largest_witness:
  "\<exists>i \<in> set [mk_interval 0 10 (InProgress (WorkerId 1))]. \<exists>v at.
    iv_state i = InProgress v \<and> 2 \<le> at - iv_start i \<and> 2 \<le> iv_end i - at \<and>
    snd (allocate \<lparr>sa_intervals = fst (grant (im_new 10) (0, 10) (WorkerId 1)), sa_min_split_bytes = 2\<rparr>
           (WorkerId 2)) =
      Ok (Some \<lparr>al_grant = \<lparr>g_worker = WorkerId 2, g_range = (at, iv_end i)\<rparr>,
        al_shortened = Some \<lparr>g_worker = v, g_range = (iv_start i, at)\<rparr>\<rparr>)"
proof -
  let ?m = "fst (grant (im_new 10) (0, 10) (WorkerId 1))"
  let ?i = "mk_interval 0 10 (InProgress (WorkerId 1))"
  have m: "im_intervals ?m = [?i]" "invariants_hold ?m"
    by code_simp+
  then have "\<forall>b. byte_state ?m b \<noteq> Some (InProgress (WorkerId 2))" "\<forall>b. byte_state ?m b \<noteq> Some Pending"
    by (simp_all add: byte_state_def)
  then show ?thesis
    using allocate_splits_largest
      [of "\<lparr>sa_intervals = ?m, sa_min_split_bytes = 2\<rparr>" "WorkerId 2" ?i "WorkerId 1"] m
    by (simp add: sa_inv_def iv_len_def) blast
qed

text \<open>
  An idle worker is sent away (\<open>Ok(None)\<close>) exactly when no byte is pending and no active
  interval is long enough to be split in two halves of at least the floor; otherwise it gets work.
\<close>

theorem allocate_none_iff:
  assumes "sa_inv sa" and "\<forall>b. sa_state sa b \<noteq> Some (InProgress w)"
  shows "snd (allocate sa w) = Ok None \<longleftrightarrow>
    (\<forall>b. sa_state sa b \<noteq> Some Pending) \<and>
    (\<forall>i \<in> set (im_intervals (sa_intervals sa)). \<forall>v. iv_state i = InProgress v \<longrightarrow>
       unat (iv_len i) < 2 * unat (sa_min_split_bytes sa))"
proof (rule allocate_cases [OF assms(1), of w], goal_cases)
  case (1 b)
  then show ?case using assms(2) by blast
next
  case (2 b)
  show ?case
    using assms(1) 2 by (rule allocate_pending_case) (use 2 in auto)
next
  case (3 i v)
  show ?case
    using assms(1) 3 by (rule allocate_split_case) (use 3 in \<open>auto simp: not_less\<close>)
next
  case 4
  then show ?case
    using allocate_nothing [OF assms(1) 4] by auto
qed

theorem allocate_none_iff_witness:
  "snd (allocate \<lparr>sa_intervals = im_new 0, sa_min_split_bytes = 1\<rparr> (WorkerId 1)) = Ok None"
  using allocate_none_iff [of "\<lparr>sa_intervals = im_new 0, sa_min_split_bytes = 1\<rparr>" "WorkerId 1"]
  by (simp add: sa_inv_def) (simp add: im_new_def)

end
