(* ===== verification/JournalFormat.thy ===== *)
theory JournalFormat
  imports Prelude
begin

text \<open>
  The version-1 journal encoding of \<open>downpour-storage/src/journal/format.rs\<close>: the 72-byte file
  header and the framed records, both closed by a CRC-32C.  The checksum function comes from the
  \<open>crc\<close> crate and is the parameter \<open>crc\<close> of every definition that uses it; no property of it is
  needed.  \<open>usize\<close> lengths are natural numbers: the payload length field is 16 bits wide, so the
  overflow branches of \<open>decode_prefix\<close> cannot be taken on a 64-bit target.
\<close>

section \<open>Data\<close>

definition MAGIC :: bytes where "MAGIC = [0x44, 0x50, 0x4A, 0x31]"
definition FORMAT_VERSION :: u16 where "FORMAT_VERSION = 1"
definition SUPPORTED_FLAGS :: u16 where "SUPPORTED_FLAGS = 0"
definition HEADER_CHECKSUM_OFFSET :: nat where "HEADER_CHECKSUM_OFFSET = 68"
definition RECORD_PREFIX_LEN :: nat where "RECORD_PREFIX_LEN = 11"
definition CHECKSUM_LEN :: nat where "CHECKSUM_LEN = 4"
definition BLOCK_COMPLETE_PAYLOAD_LEN :: nat where "BLOCK_COMPLETE_PAYLOAD_LEN = 44"
definition CHECKPOINT_PAYLOAD_LEN :: nat where "CHECKPOINT_PAYLOAD_LEN = 16"
definition TRUNCATE_PAYLOAD_LEN :: nat where "TRUNCATE_PAYLOAD_LEN = 8"
definition SEALED_PAYLOAD_LEN :: nat where "SEALED_PAYLOAD_LEN = 32"
definition BLOCK_COMPLETE_KIND :: u8 where "BLOCK_COMPLETE_KIND = 0x01"
definition CHECKPOINT_KIND :: u8 where "CHECKPOINT_KIND = 0x02"
definition IDENTITY_UPDATE_KIND :: u8 where "IDENTITY_UPDATE_KIND = 0x03"
definition TRUNCATE_KIND :: u8 where "TRUNCATE_KIND = 0x04"
definition SEALED_KIND :: u8 where "SEALED_KIND = 0x05"
definition HEADER_LEN :: nat where "HEADER_LEN = 72"
definition MAX_PAYLOAD_LEN :: nat where "MAX_PAYLOAD_LEN = 65535"

lemmas format_consts =
  MAGIC_def FORMAT_VERSION_def SUPPORTED_FLAGS_def HEADER_CHECKSUM_OFFSET_def RECORD_PREFIX_LEN_def
  CHECKSUM_LEN_def BLOCK_COMPLETE_PAYLOAD_LEN_def CHECKPOINT_PAYLOAD_LEN_def
  TRUNCATE_PAYLOAD_LEN_def SEALED_PAYLOAD_LEN_def BLOCK_COMPLETE_KIND_def CHECKPOINT_KIND_def
  IDENTITY_UPDATE_KIND_def TRUNCATE_KIND_def SEALED_KIND_def HEADER_LEN_def MAX_PAYLOAD_LEN_def

lemma length_MAGIC [simp]: "length MAGIC = 4"
  by (simp add: MAGIC_def)

record file_header =
  fh_transfer_id :: bytes
  fh_total_length :: u64
  fh_block_size :: u32
  fh_validator_hash :: bytes

datatype journal_record =
    BlockComplete u64 u32 bytes
  | Checkpoint u64 u64
  | IdentityUpdate bytes
  | Truncate u64
  | Sealed bytes

record framed_record =
  fr_sequence :: u64
  fr_record :: journal_record

datatype format_error =
    Truncated nat nat
  | InvalidMagic bytes
  | HeaderChecksumMismatch u32 u32
  | UnsupportedVersion u16 u16
  | UnsupportedFlags u16
  | RecordChecksumMismatch u64 u32 u32
  | UnknownRecordKind u8
  | InvalidPayloadLength u8 nat nat
  | PayloadTooLarge nat nat

text \<open>The fixed-size arrays of the sources are byte lists of that length.\<close>

definition wf_header :: "file_header \<Rightarrow> bool" where
  "wf_header h = (length (fh_transfer_id h) = 16 \<and> length (fh_validator_hash h) = 32)"

fun wf_record :: "journal_record \<Rightarrow> bool" where
  "wf_record (BlockComplete _ _ d) = (length d = 32)"
| "wf_record (Sealed d) = (length d = 32)"
| "wf_record _ = True"

section \<open>Reading fields\<close>

definition require_len :: "bytes \<Rightarrow> nat \<Rightarrow> format_error + unit" where
  "require_len bs needed = (if length bs \<ge> needed then Ok () else Err (Truncated needed (length bs)))"

definition byte_at :: "bytes \<Rightarrow> nat \<Rightarrow> format_error + u8" where
  "byte_at bs off = (if off < length bs then Ok (bs ! off) else Err (Truncated (off + 1) (length bs)))"

definition array_at :: "nat \<Rightarrow> bytes \<Rightarrow> nat \<Rightarrow> format_error + bytes" where
  "array_at n bs off =
     (if off + n \<le> length bs then Ok (chunk off (off + n) bs)
      else Err (Truncated (off + n) (length bs)))"

definition read_u16 :: "bytes \<Rightarrow> nat \<Rightarrow> format_error + u16" where
  "read_u16 bs off = and_then (array_at 2 bs off) (\<lambda>a. Ok (word_of_le a))"

definition read_u32 :: "bytes \<Rightarrow> nat \<Rightarrow> format_error + u32" where
  "read_u32 bs off = and_then (array_at 4 bs off) (\<lambda>a. Ok (word_of_le a))"

definition read_u64 :: "bytes \<Rightarrow> nat \<Rightarrow> format_error + u64" where
  "read_u64 bs off = and_then (array_at 8 bs off) (\<lambda>a. Ok (word_of_le a))"

definition require_payload_len :: "u8 \<Rightarrow> bytes \<Rightarrow> nat \<Rightarrow> format_error + unit" where
  "require_payload_len kind payload expected =
     (if length payload = expected then Ok ()
      else Err (InvalidPayloadLength kind expected (length payload)))"

section \<open>Encoding and decoding\<close>

text \<open>The header bytes covered by the checksum.\<close>

definition header_body :: "file_header \<Rightarrow> bytes" where
  "header_body h =
     MAGIC @ word_to_le 2 FORMAT_VERSION @ word_to_le 2 SUPPORTED_FLAGS @ fh_transfer_id h
     @ word_to_le 8 (fh_total_length h) @ word_to_le 4 (fh_block_size h) @ fh_validator_hash h"

definition encode_header :: "(bytes \<Rightarrow> u32) \<Rightarrow> file_header \<Rightarrow> bytes" where
  "encode_header crc h = header_body h @ word_to_le 4 (crc (header_body h))"

definition decode_header :: "(bytes \<Rightarrow> u32) \<Rightarrow> bytes \<Rightarrow> format_error + file_header" where
  "decode_header crc enc =
     and_then (require_len enc HEADER_LEN) (\<lambda>_.
     and_then (array_at 4 enc 0) (\<lambda>magic.
     if magic \<noteq> MAGIC then Err (InvalidMagic magic) else
     and_then (read_u32 enc HEADER_CHECKSUM_OFFSET) (\<lambda>stored.
     let computed = crc (take HEADER_CHECKSUM_OFFSET enc) in
     if stored \<noteq> computed then Err (HeaderChecksumMismatch stored computed) else
     and_then (read_u16 enc 4) (\<lambda>version.
     if version \<noteq> FORMAT_VERSION then Err (UnsupportedVersion version FORMAT_VERSION) else
     and_then (read_u16 enc 6) (\<lambda>flags.
     if flags \<noteq> SUPPORTED_FLAGS then Err (UnsupportedFlags flags) else
     and_then (array_at 16 enc 8) (\<lambda>transfer_id.
     and_then (read_u64 enc 24) (\<lambda>total_length.
     and_then (read_u32 enc 32) (\<lambda>block_size.
     and_then (array_at 32 enc 36) (\<lambda>validator_hash.
     Ok \<lparr>fh_transfer_id = transfer_id, fh_total_length = total_length,
         fh_block_size = block_size, fh_validator_hash = validator_hash\<rparr>)))))))))"

fun encode_payload :: "journal_record \<Rightarrow> u8 \<times> bytes" where
  "encode_payload (BlockComplete off len digest) =
     (BLOCK_COMPLETE_KIND, word_to_le 8 off @ word_to_le 4 len @ digest)"
| "encode_payload (Checkpoint covered wall_clock) =
     (CHECKPOINT_KIND, word_to_le 8 covered @ word_to_le 8 wall_clock)"
| "encode_payload (IdentityUpdate cbor) = (IDENTITY_UPDATE_KIND, cbor)"
| "encode_payload (Truncate new_length) = (TRUNCATE_KIND, word_to_le 8 new_length)"
| "encode_payload (Sealed final_digest) = (SEALED_KIND, final_digest)"

definition decode_payload :: "u8 \<Rightarrow> bytes \<Rightarrow> format_error + journal_record" where
  "decode_payload kind payload =
     (if kind = BLOCK_COMPLETE_KIND then
        and_then (require_payload_len kind payload BLOCK_COMPLETE_PAYLOAD_LEN) (\<lambda>_.
        and_then (read_u64 payload 0) (\<lambda>off.
        and_then (read_u32 payload 8) (\<lambda>len.
        and_then (array_at 32 payload 12) (\<lambda>digest. Ok (BlockComplete off len digest)))))
      else if kind = CHECKPOINT_KIND then
        and_then (require_payload_len kind payload CHECKPOINT_PAYLOAD_LEN) (\<lambda>_.
        and_then (read_u64 payload 0) (\<lambda>covered.
        and_then (read_u64 payload 8) (\<lambda>wall_clock. Ok (Checkpoint covered wall_clock))))
      else if kind = IDENTITY_UPDATE_KIND then Ok (IdentityUpdate payload)
      else if kind = TRUNCATE_KIND then
        and_then (require_payload_len kind payload TRUNCATE_PAYLOAD_LEN) (\<lambda>_.
        and_then (read_u64 payload 0) (\<lambda>new_length. Ok (Truncate new_length)))
      else if kind = SEALED_KIND then
        and_then (require_payload_len kind payload SEALED_PAYLOAD_LEN) (\<lambda>_.
        and_then (array_at 32 payload 0) (\<lambda>digest. Ok (Sealed digest)))
      else Err (UnknownRecordKind kind))"

definition encode_record :: "(bytes \<Rightarrow> u32) \<Rightarrow> framed_record \<Rightarrow> format_error + bytes" where
  "encode_record crc fr =
     (let (kind, payload) = encode_payload (fr_record fr) in
      if length payload > MAX_PAYLOAD_LEN then Err (PayloadTooLarge (length payload) MAX_PAYLOAD_LEN)
      else
        and_then (ok_or (PayloadTooLarge (length payload) MAX_PAYLOAD_LEN)
                    (try_from_nat (length payload) :: u16 option)) (\<lambda>payload_len.
        let body = word_to_le 8 (fr_sequence fr) @ [kind] @ word_to_le 2 payload_len @ payload
        in Ok (body @ word_to_le 4 (crc body))))"

definition decode_prefix :: "(bytes \<Rightarrow> u32) \<Rightarrow> bytes \<Rightarrow> format_error + framed_record \<times> nat" where
  "decode_prefix crc enc =
     and_then (require_len enc RECORD_PREFIX_LEN) (\<lambda>_.
     and_then (read_u64 enc 0) (\<lambda>sequence.
     and_then (byte_at enc 8) (\<lambda>kind.
     and_then (read_u16 enc 9) (\<lambda>plen.
     let payload_len = unat plen;
         checksum_offset = RECORD_PREFIX_LEN + payload_len;
         frame_len = checksum_offset + CHECKSUM_LEN in
     and_then (require_len enc frame_len) (\<lambda>_.
     and_then (read_u32 enc checksum_offset) (\<lambda>stored.
     let computed = crc (take checksum_offset enc) in
     if stored \<noteq> computed then Err (RecordChecksumMismatch sequence stored computed) else
     and_then (decode_payload kind (chunk RECORD_PREFIX_LEN checksum_offset enc)) (\<lambda>record.
     Ok (\<lparr>fr_sequence = sequence, fr_record = record\<rparr>, frame_len))))))))"

section \<open>Field lemmas\<close>

lemma array_at_Ok: "array_at n bs off = Ok a \<longleftrightarrow> off + n \<le> length bs \<and> a = chunk off (off + n) bs"
  by (auto simp: array_at_def)

lemma require_len_Ok [simp]: "require_len bs n = Ok u \<longleftrightarrow> n \<le> length bs"
  by (auto simp: require_len_def)

lemmas read_defs = read_u16_def read_u32_def read_u64_def

lemma nth_chunk_single: "off < length bs \<Longrightarrow> chunk off (Suc off) bs = [bs ! off]"
  by (simp add: chunk_def take_Suc hd_drop_conv_nth)

lemma length_header_body [simp]: "wf_header h \<Longrightarrow> length (header_body h) = 68"
  by (simp add: header_body_def wf_header_def)

lemma length_encode_header [simp]: "wf_header h \<Longrightarrow> length (encode_header crc h) = HEADER_LEN"
  by (simp add: encode_header_def HEADER_LEN_def)

lemma header_round_trip:
  assumes "wf_header h"
  shows "decode_header crc (encode_header crc h @ rest) = Ok h"
proof -
  have "take 68 (encode_header crc h @ rest) = header_body h"
    using assms by (simp add: encode_header_def)
  then show ?thesis
    using assms
    by (simp add: decode_header_def HEADER_LEN_def HEADER_CHECKSUM_OFFSET_def read_defs array_at_def
        encode_header_def header_body_def wf_header_def chunk_append require_len_def Let_def)
qed

lemma header_canonical:
  assumes "decode_header crc bs = Ok h"
  shows "wf_header h \<and> bs = encode_header crc h @ drop HEADER_LEN bs"
proof -
  let ?s = "\<lambda>a b. chunk a b bs"
  have len: "72 \<le> length bs" and magic: "?s 0 4 = MAGIC"
    and ver: "word_of_le (?s 4 6) = FORMAT_VERSION" and flags: "word_of_le (?s 6 8) = SUPPORTED_FLAGS"
    and crc: "word_of_le (?s 68 72) = crc (take 68 bs)"
    and h: "h = \<lparr>fh_transfer_id = ?s 8 24, fh_total_length = word_of_le (?s 24 32),
         fh_block_size = word_of_le (?s 32 36), fh_validator_hash = ?s 36 68\<rparr>"
    using assms
    by (auto simp: decode_header_def and_then_eq_Inr read_defs array_at_Ok Let_def
        HEADER_LEN_def HEADER_CHECKSUM_OFFSET_def split: if_splits)
  have "?s 4 6 = word_to_le 2 FORMAT_VERSION" "?s 6 8 = word_to_le 2 SUPPORTED_FLAGS"
    using len by (simp_all flip: ver flags)
  then have "header_body h = ?s 0 4 @ ?s 4 6 @ ?s 6 8 @ ?s 8 24 @ ?s 24 32 @ ?s 32 36 @ ?s 36 68"
    using len magic by (simp add: header_body_def h)
  then have body: "header_body h = take 68 bs"
    by (simp add: chunk_append_chunk flip: chunk_0)
  have "word_to_le 4 (crc (take 68 bs)) = ?s 68 72"
    using len by (simp flip: crc)
  then have "encode_header crc h = ?s 0 72"
    by (simp add: encode_header_def body chunk_append_chunk flip: chunk_0)
  then show ?thesis
    using len by (simp add: h wf_header_def HEADER_LEN_def chunk_0)
qed

section \<open>Records\<close>

lemma payload_round_trip:
  assumes "wf_record r"
  shows "decode_payload (fst (encode_payload r)) (snd (encode_payload r)) = Ok r"
  using assms
  by (cases r)
     (simp_all add: decode_payload_def format_consts require_payload_len_def read_defs array_at_def
       chunk_append)

lemma payload_canonical:
  assumes "decode_payload kind p = Ok r"
  shows "wf_record r \<and> encode_payload r = (kind, p)"
proof -
  have 44: "word_to_le 8 (word_of_le (chunk 0 8 p) :: u64) @ word_to_le 4 (word_of_le (chunk 8 12 p) :: u32) @
      chunk 12 44 p = p" if "length p = 44"
    using that by (simp add: chunk_append_chunk) 
  have 16: "word_to_le 8 (word_of_le (chunk 0 8 p) :: u64) @ word_to_le 8 (word_of_le (chunk 8 16 p) :: u64) = p"
    if "length p = 16"
    using that by (simp add: chunk_append_chunk)
  show ?thesis
    using assms 44 16
    by (auto simp: decode_payload_def format_consts require_payload_len_def and_then_eq_Inr read_defs
        array_at_Ok split: if_splits)
qed

definition frame_body :: "framed_record \<Rightarrow> bytes" where
  "frame_body fr =
     (let (kind, payload) = encode_payload (fr_record fr)
      in word_to_le 8 (fr_sequence fr) @ [kind]
         @ word_to_le 2 (of_nat (length payload) :: u16) @ payload)"

lemma encode_record_eq:
  "encode_record crc fr =
     (let n = length (snd (encode_payload (fr_record fr))) in
      if n \<le> MAX_PAYLOAD_LEN then Ok (frame_body fr @ word_to_le 4 (crc (frame_body fr)))
      else Err (PayloadTooLarge n MAX_PAYLOAD_LEN))"
  by (auto simp: encode_record_def frame_body_def Let_def split_beta try_from_nat_def MAX_PAYLOAD_LEN_def)

lemma length_frame_body:
  "length (frame_body fr) = 11 + length (snd (encode_payload (fr_record fr)))"
  by (simp add: frame_body_def split_beta)

lemma record_round_trip:
  assumes "wf_record (fr_record fr)" and "encode_record crc fr = Ok bs"
  shows "decode_prefix crc (bs @ rest) = Ok (fr, length bs)"
proof -
  obtain kind payload where kp: "encode_payload (fr_record fr) = (kind, payload)"
    by (cases "encode_payload (fr_record fr)")
  have n: "length payload \<le> 65535"
    and bs: "bs = frame_body fr @ word_to_le 4 (crc (frame_body fr))"
    using assms(2) kp by (auto simp: encode_record_eq MAX_PAYLOAD_LEN_def Let_def split: if_splits)
  have len: "unat (of_nat (length payload) :: u16) = length payload"
    using n by (simp add: unat_of_nat)
  have fb: "frame_body fr = word_to_le 8 (fr_sequence fr) @ [kind]
       @ word_to_le 2 (of_nat (length payload) :: u16) @ payload"
    by (simp add: frame_body_def kp)
  have tk: "take (11 + length payload) (bs @ rest) = frame_body fr"
    using bs length_frame_body [of fr] kp by simp
  have sl: "chunk 11 (11 + length payload) (bs @ rest) = payload"
    using fb bs by (simp add: chunk_append chunk_Cons)
  have dp: "decode_payload kind payload = Ok (fr_record fr)"
    using payload_round_trip [OF assms(1)] kp by simp
  have lb: "length bs = length payload + 15"
    using bs fb by simp
  have parts: "read_u64 (bs @ rest) 0 = Ok (fr_sequence fr)" "byte_at (bs @ rest) 8 = Ok kind"
    "read_u16 (bs @ rest) 9 = Ok (of_nat (length payload))"
    using lb by (simp_all add: read_defs array_at_def byte_at_def bs fb chunk_append chunk_Cons nth_append)
  have st: "read_u32 (bs @ rest) (11 + length payload) = Ok (crc (frame_body fr))"
    using lb fb bs by (simp add: read_u32_def array_at_def chunk_append chunk_Cons)
  show ?thesis
    using parts st tk sl dp lb
    by (simp add: decode_prefix_def RECORD_PREFIX_LEN_def CHECKSUM_LEN_def require_len_def len Let_def)
qed

lemma record_canonical:
  assumes "decode_prefix crc bs = Ok (fr, n)"
  shows "wf_record (fr_record fr) \<and> n \<le> length bs \<and> 15 \<le> n \<and> encode_record crc fr = Ok (take n bs)"
proof -
  obtain plen :: u16 where
    len: "11 + unat plen + 4 \<le> length bs" and n: "n = 15 + unat plen"
    and sq: "fr_sequence fr = word_of_le (chunk 0 8 bs)" and pl: "plen = word_of_le (chunk 9 11 bs)"
    and crc: "word_of_le (chunk (11 + unat plen) (15 + unat plen) bs) = crc (take (11 + unat plen) bs)"
    and pay: "decode_payload (bs ! 8) (chunk 11 (11 + unat plen) bs) = Ok (fr_record fr)"
    using assms
    by (auto simp: decode_prefix_def and_then_eq_Inr read_defs array_at_Ok byte_at_def Let_def
        RECORD_PREFIX_LEN_def CHECKSUM_LEN_def split: if_splits)
  let ?k = "unat plen"
  have wf: "wf_record (fr_record fr)"
    and ep: "encode_payload (fr_record fr) = (bs ! 8, chunk 11 (11 + ?k) bs)"
    using payload_canonical [OF pay] by auto
  have lp: "length (chunk 11 (11 + ?k) bs) = ?k"
    using len by simp
  have "chunk 8 9 bs = [bs ! 8]"
    using nth_chunk_single [of 8 bs] len by simp
  then have "frame_body fr = chunk 0 8 bs @ chunk 8 9 bs @ chunk 9 11 bs @ chunk 11 (11 + ?k) bs"
    using len by (simp add: frame_body_def ep lp sq) (simp add: pl)
  then have fb: "frame_body fr = take (11 + ?k) bs"
    by (simp add: chunk_append_chunk flip: chunk_0)
  have "word_to_le 4 (crc (frame_body fr)) = chunk (11 + ?k) (15 + ?k) bs"
    using len by (simp add: fb flip: crc)
  then have "frame_body fr @ word_to_le 4 (crc (frame_body fr)) = take n bs"
    by (simp add: fb n chunk_append_chunk flip: chunk_0)
  moreover have "?k \<le> MAX_PAYLOAD_LEN"
    using unat_lt_2p [of plen] by (simp add: MAX_PAYLOAD_LEN_def)
  ultimately show ?thesis
    using wf len n lp by (simp add: encode_record_eq ep Let_def)
qed

lemma length_encode_record:
  "encode_record crc fr = Ok bs \<Longrightarrow> length bs = 15 + length (snd (encode_payload (fr_record fr)))"
  by (auto simp: encode_record_eq Let_def length_frame_body split: if_splits)

lemma decode_short: "length bs < 11 \<Longrightarrow> decode_prefix crc bs = Err (Truncated 11 (length bs))"
  by (simp add: decode_prefix_def require_len_def RECORD_PREFIX_LEN_def)

text \<open>The declared length of a frame is readable from any prefix that reaches the length field.\<close>

lemma decode_cut:
  assumes "11 \<le> length bs" and "length bs < 15 + unat (word_of_le (chunk 9 11 bs) :: u16)"
  shows "decode_prefix crc bs = Err (Truncated (15 + unat (word_of_le (chunk 9 11 bs) :: u16)) (length bs))"
  using assms
  by (simp add: decode_prefix_def require_len_def RECORD_PREFIX_LEN_def CHECKSUM_LEN_def read_defs
      array_at_def byte_at_def Let_def)

lemma frame_length_field:
  assumes "encode_record crc fr = Ok bs"
  shows "unat (word_of_le (chunk 9 11 (bs @ rest)) :: u16) + 15 = length bs"
proof -
  obtain kind payload where kp: "encode_payload (fr_record fr) = (kind, payload)"
    by (cases "encode_payload (fr_record fr)")
  have "length payload \<le> 65535"
    using assms kp by (auto simp: encode_record_eq MAX_PAYLOAD_LEN_def Let_def split: if_splits)
  then have len: "unat (of_nat (length payload) :: u16) = length payload"
    by (simp add: unat_of_nat)
  have "chunk 9 11 (bs @ rest) = word_to_le 2 (of_nat (length payload) :: u16)"
    using assms kp
    by (auto simp: encode_record_eq frame_body_def Let_def chunk_append chunk_Cons split: if_splits)
  then show ?thesis
    using length_encode_record [OF assms] kp len by simp
qed

lemma record_torn:
  assumes "encode_record crc fr = Ok bs" and "i < length bs"
  shows "\<exists>needed. decode_prefix crc (take i bs) = Err (Truncated needed i) \<and> i < needed"
proof (cases "i < 11")
  case True
  then show ?thesis
    using assms(2) by (simp add: decode_short)
next
  case False
  have "chunk 9 11 (take i bs) = chunk 9 11 bs"
    using False by (simp add: chunk_take)
  then show ?thesis
    using assms False frame_length_field [OF assms(1), of "[]"] decode_cut [of "take i bs" crc]
    by simp
qed

text \<open>
  C26.  Header round trip: every header decodes back from its encoding, whatever bytes follow it,
  and conversely any byte string accepted by \<open>decode\<close> starts with the canonical encoding of the
  header it returned, so two different headers never share an encoding.
\<close>

theorem header_codec_exact:
  "(wf_header h \<longrightarrow> decode_header crc (encode_header crc h @ rest) = Ok h) \<and>
   (decode_header crc bs = Ok h \<longrightarrow> wf_header h \<and> bs = encode_header crc h @ drop HEADER_LEN bs)"
  using header_round_trip header_canonical by blast

theorem header_codec_exact_witness:
  "decode_header (\<lambda>bs. of_nat (length bs))
     (encode_header (\<lambda>bs. of_nat (length bs))
        \<lparr>fh_transfer_id = replicate 16 7, fh_total_length = 1000, fh_block_size = 64,
         fh_validator_hash = replicate 32 9\<rparr> @ [1, 2, 3]) =
   Ok \<lparr>fh_transfer_id = replicate 16 7, fh_total_length = 1000, fh_block_size = 64,
       fh_validator_hash = replicate 32 9\<rparr>"
  using header_codec_exact [of "\<lparr>fh_transfer_id = replicate 16 7, fh_total_length = 1000,
      fh_block_size = 64, fh_validator_hash = replicate 32 9\<rparr>" "\<lambda>bs. of_nat (length bs)" "[1, 2, 3]"]
  by (simp add: wf_header_def)

text \<open>
  C27.  Record round trip: a frame decodes from its encoding to the same record and consumes exactly
  its own bytes, whatever follows; and any accepted frame is the canonical encoding of its record.
\<close>

theorem record_codec_exact:
  "(wf_record (fr_record fr) \<and> encode_record crc fr = Ok bs \<longrightarrow>
      decode_prefix crc (bs @ rest) = Ok (fr, length bs)) \<and>
   (decode_prefix crc bs = Ok (fr, n) \<longrightarrow>
      wf_record (fr_record fr) \<and> n \<le> length bs \<and> encode_record crc fr = Ok (take n bs))"
  using record_round_trip record_canonical by blast

theorem record_codec_exact_witness:
  "decode_prefix (\<lambda>bs. of_nat (length bs))
     (the (case encode_record (\<lambda>bs. of_nat (length bs))
                  \<lparr>fr_sequence = 3, fr_record = Truncate 500\<rparr> of Inl e \<Rightarrow> None | Inr b \<Rightarrow> Some b) @ [9]) =
   Ok (\<lparr>fr_sequence = 3, fr_record = Truncate 500\<rparr>, 23)"
proof -
  let ?crc = "\<lambda>bs. of_nat (length bs) :: u32" and ?fr = "\<lparr>fr_sequence = 3, fr_record = Truncate 500\<rparr>"
  obtain b where b: "encode_record ?crc ?fr = Ok b"
    by (simp add: encode_record_eq MAX_PAYLOAD_LEN_def)
  then have "length b = 23"
    using length_encode_record [OF b] by simp
  then show ?thesis
    using b record_codec_exact [of ?fr ?crc b "[9]"] by simp
qed

text \<open>
  A torn frame is always recognised: every strict prefix of an encoded frame is reported as
  \<open>Truncated\<close>, never as a record and never as some other damage.
\<close>

theorem torn_frame_truncated:
  assumes "encode_record crc fr = Ok bs" and "i < length bs"
  shows "\<exists>needed. decode_prefix crc (take i bs) = Err (Truncated needed i) \<and> i < needed"
  using assms by (rule record_torn)

theorem torn_frame_truncated_witness:
  "\<exists>needed b. encode_record (\<lambda>bs. of_nat (length bs)) \<lparr>fr_sequence = 0, fr_record = Truncate 500\<rparr> = Ok b \<and>
     decode_prefix (\<lambda>bs. of_nat (length bs)) (take 12 b) = Err (Truncated needed 12) \<and> 12 < needed"
proof -
  let ?crc = "\<lambda>bs. of_nat (length bs) :: u32" and ?fr = "\<lparr>fr_sequence = 0, fr_record = Truncate 500\<rparr>"
  obtain b where b: "encode_record ?crc ?fr = Ok b"
    by (simp add: encode_record_eq MAX_PAYLOAD_LEN_def)
  then show ?thesis
    using length_encode_record [OF b] torn_frame_truncated [OF b, of 12] by auto
qed

end
