(* ===== verification/JournalReplay.thy ===== *)
theory JournalReplay
  imports JournalFormat IoModel
begin

text \<open>
  Prefix-consistent replay, \<open>downpour-storage/src/journal/replay.rs\<close>: the streaming loop over a
  reader, and the recovery that durably removes a damaged suffix.  The loop is shown equal, for
  every way the operating system may cut the stream into reads, to a reference function that peels
  frames off a byte string; soundness, torn tails and repair are then facts about that function.
\<close>

section \<open>Data\<close>

datatype replay_stop =
    CleanEof
  | DamagedTail format_error
  | SequenceGap u64 u64

record replay_outcome =
  ro_header :: file_header
  ro_records :: "framed_record list"
  ro_valid_bytes :: u64
  ro_stop :: replay_stop

datatype replay_error = ReplayFormat format_error | ReplayIo io_error

definition invalid_data :: io_error where
  "invalid_data = IoError IoInvalidData None"

section \<open>Operations\<close>

definition damaged_outcome ::
    "file_header \<Rightarrow> framed_record list \<Rightarrow> u64 \<Rightarrow> format_error \<Rightarrow> replay_outcome" where
  "damaged_outcome header records valid_bytes error =
     \<lparr>ro_header = header, ro_records = records, ro_valid_bytes = valid_bytes,
      ro_stop = DamagedTail error\<rparr>"

function replay_loop ::
    "(bytes \<Rightarrow> u32) \<Rightarrow> file_header \<Rightarrow> reader \<Rightarrow> framed_record list \<Rightarrow> u64 \<Rightarrow> u64 \<Rightarrow>
     replay_error + replay_outcome" where
  "replay_loop crc header rd records expected valid_bytes =
     (case read_up_to rd RECORD_PREFIX_LEN of
        (rd1, Err e) \<Rightarrow> Err (ReplayIo e)
      | (rd1, Ok prefix) \<Rightarrow>
          if length prefix = 0 then
            Ok \<lparr>ro_header = header, ro_records = records, ro_valid_bytes = valid_bytes, ro_stop = CleanEof\<rparr>
          else if length prefix < RECORD_PREFIX_LEN then
            Ok (damaged_outcome header records valid_bytes (Truncated RECORD_PREFIX_LEN (length prefix)))
          else
            (let payload_len = unat (word_of_le [prefix ! 9, prefix ! 10] :: u16);
                 suffix_len = payload_len + CHECKSUM_LEN in
             case read_up_to rd1 suffix_len of
               (rd2, Err e) \<Rightarrow> Err (ReplayIo e)
             | (rd2, Ok suffix) \<Rightarrow>
                 if length suffix < suffix_len then
                   Ok (damaged_outcome header records valid_bytes
                         (Truncated (RECORD_PREFIX_LEN + suffix_len) (RECORD_PREFIX_LEN + length suffix)))
                 else
                   (case decode_prefix crc (prefix @ suffix) of
                      Err e \<Rightarrow> Ok (damaged_outcome header records valid_bytes e)
                    | Ok (record, consumed) \<Rightarrow>
                        if fr_sequence record \<noteq> expected then
                          Ok \<lparr>ro_header = header, ro_records = records, ro_valid_bytes = valid_bytes,
                              ro_stop = SequenceGap expected (fr_sequence record)\<rparr>
                        else
                          (case try_from_nat consumed of
                             None \<Rightarrow> Err (ReplayIo invalid_data)
                           | Some consumed' \<Rightarrow>
                               (case checked_add valid_bytes consumed' of
                                  None \<Rightarrow> Err (ReplayIo invalid_data)
                                | Some valid' \<Rightarrow>
                                    (case checked_add expected 1 of
                                       None \<Rightarrow> Err (ReplayIo invalid_data)
                                     | Some expected' \<Rightarrow>
                                         replay_loop crc header rd2 (records @ [record]) expected' valid'))))))"
  by pat_completeness auto

termination
proof (relation "measure (\<lambda>(crc, header, rd, records, expected, valid). length (stream rd))", goal_cases)
  case 1
  show ?case by simp
next
  case (2 crc header rd records expected valid_bytes rd1 y prefix plen slen rd2 y2 suffix)
  then show ?case
    using read_up_to_size [of rd RECORD_PREFIX_LEN rd1 prefix] read_up_to_size [of rd1 slen rd2 suffix]
    by (simp add: RECORD_PREFIX_LEN_def)
qed

definition replay_reader :: "(bytes \<Rightarrow> u32) \<Rightarrow> reader \<Rightarrow> replay_error + replay_outcome" where
  "replay_reader crc rd =
     (case read_up_to rd HEADER_LEN of
        (rd1, Err e) \<Rightarrow> Err (ReplayIo e)
      | (rd1, Ok header_bytes) \<Rightarrow>
          (case decode_header crc header_bytes of
             Err e \<Rightarrow> Err (ReplayFormat e)
           | Ok header \<Rightarrow> replay_loop crc header rd1 [] 0 (of_nat HEADER_LEN)))"

definition replay_bytes :: "(bytes \<Rightarrow> u32) \<Rightarrow> bytes \<Rightarrow> replay_error + replay_outcome" where
  "replay_bytes crc bs = replay_reader crc (if bs = [] then [] else [RdData bs])"

text \<open>
  \<open>recover_journal\<close>: open for reading and writing (\<open>None\<close> when that fails), replay, and cut a
  damaged suffix off durably.  \<open>cuts\<close> says how the reads of the file's bytes are delivered.
\<close>

definition recover_journal ::
    "(bytes \<Rightarrow> u32) \<Rightarrow> (bytes \<Rightarrow> reader) \<Rightarrow> io_error + os_file \<Rightarrow> os_file option \<times> (replay_error + replay_outcome)" where
  "recover_journal crc cuts opened =
     (case opened of
        Err e \<Rightarrow> (None, Err (ReplayIo e))
      | Ok f \<Rightarrow>
          (case replay_reader crc (cuts (f_cache f)) of
             Err e \<Rightarrow> (Some f, Err e)
           | Ok outcome \<Rightarrow>
               if ro_stop outcome \<noteq> CleanEof then
                 (case file_set_len f (unat (ro_valid_bytes outcome)) of
                    (f1, Err e) \<Rightarrow> (Some f1, Err (ReplayIo e))
                  | (f1, Ok _) \<Rightarrow>
                      (case file_sync f1 of
                         (f2, Err e) \<Rightarrow> (Some f2, Err (ReplayIo e))
                       | (f2, Ok _) \<Rightarrow> (Some f2, Ok outcome)))
               else (Some f, Ok outcome)))"

section \<open>Reference\<close>

text \<open>Peel frames numbered from \<open>k\<close> off a byte string; what is left starts with the first unusable one.\<close>

function peel :: "(bytes \<Rightarrow> u32) \<Rightarrow> nat \<Rightarrow> bytes \<Rightarrow> framed_record list \<times> bytes" where
  "peel crc k bs =
     (case decode_prefix crc bs of
        Err _ \<Rightarrow> ([], bs)
      | Ok (r, n) \<Rightarrow>
          if unat (fr_sequence r) = k
          then (let (rs, rest) = peel crc (Suc k) (drop n bs) in (r # rs, rest))
          else ([], bs))"
  by pat_completeness auto

termination
proof (relation "measure (\<lambda>(crc, k, bs). length bs)", goal_cases)
  case 1
  show ?case by simp
next
  case (2 crc k bs b r n)
  then have "decode_prefix crc bs = Ok (r, n)"
    by simp
  then show ?case
    using record_canonical [of crc bs r n] by auto
qed

declare replay_loop.simps [simp del] peel.simps [simp del]

text \<open>The bytes of a well-formed record sequence whose numbers start at \<open>k\<close>.\<close>

fun wf_frames :: "nat \<Rightarrow> framed_record list \<Rightarrow> bool" where
  "wf_frames k [] = True"
| "wf_frames k (r # rs) =
     (unat (fr_sequence r) = k \<and> wf_record (fr_record r) \<and>
      length (snd (encode_payload (fr_record r))) \<le> MAX_PAYLOAD_LEN \<and> wf_frames (Suc k) rs)"

definition frame_bytes :: "(bytes \<Rightarrow> u32) \<Rightarrow> framed_record \<Rightarrow> bytes" where
  "frame_bytes crc r = frame_body r @ word_to_le 4 (crc (frame_body r))"

definition journal_body :: "(bytes \<Rightarrow> u32) \<Rightarrow> framed_record list \<Rightarrow> bytes" where
  "journal_body crc rs = concat (map (frame_bytes crc) rs)"

section \<open>The reference function\<close>

lemma encode_record_frame:
  "encode_record crc r = Ok bs \<longleftrightarrow>
     length (snd (encode_payload (fr_record r))) \<le> MAX_PAYLOAD_LEN \<and> bs = frame_bytes crc r"
  by (auto simp: encode_record_eq frame_bytes_def Let_def)

lemma length_frame_bytes:
  "length (frame_bytes crc r) = 15 + length (snd (encode_payload (fr_record r)))"
  by (simp add: frame_bytes_def length_frame_body)

lemma journal_body_simps [simp]:
  "journal_body crc [] = []"
  "journal_body crc (r # rs) = frame_bytes crc r @ journal_body crc rs"
  "journal_body crc (rs @ ss) = journal_body crc rs @ journal_body crc ss"
  by (simp_all add: journal_body_def)

lemma wf_frames_append:
  "wf_frames k (rs @ ss) \<longleftrightarrow> wf_frames k rs \<and> wf_frames (k + length rs) ss"
  by (induction rs arbitrary: k) auto

lemma length_journal_body: "15 * length rs \<le> length (journal_body crc rs)"
  by (induction rs) (auto simp: length_frame_bytes)

lemma decode_frame_bytes:
  assumes "wf_record (fr_record r)" and "length (snd (encode_payload (fr_record r))) \<le> MAX_PAYLOAD_LEN"
  shows "decode_prefix crc (frame_bytes crc r @ rest) = Ok (r, length (frame_bytes crc r))"
  using assms by (intro record_round_trip) (simp_all add: encode_record_frame)

lemma peel_frames:
  "wf_frames k rs \<Longrightarrow>
   peel crc k (journal_body crc rs @ rest) =
     (rs @ fst (peel crc (k + length rs) rest), snd (peel crc (k + length rs) rest))"
proof (induction rs arbitrary: k)
  case (Cons r rs)
  then show ?case
    by (subst peel.simps) (simp add: decode_frame_bytes split_beta Let_def)
qed simp

lemma peel_sound:
  "peel crc k bs = (rs, rest) \<Longrightarrow>
     wf_frames k rs \<and> bs = journal_body crc rs @ rest \<and> peel crc (k + length rs) rest = ([], rest)"
proof (induction crc k bs arbitrary: rs rest rule: peel.induct)
  case (1 crc k bs)
  show ?case
  proof (cases "decode_prefix crc bs")
    case (Inl e)
    then show ?thesis
      using "1.prems" by (auto simp: peel.simps [of crc k])
  next
    case (Inr p)
    then obtain r n where d: "decode_prefix crc bs = Ok (r, n)"
      by (cases p) auto
    show ?thesis
    proof (cases "unat (fr_sequence r) = k")
      case True
      obtain rs' where p: "peel crc (Suc k) (drop n bs) = (rs', rest)" and rs: "rs = r # rs'"
        using "1.prems" d True by (auto simp: peel.simps [of crc k bs] split: prod.splits)
      have "encode_record crc r = Ok (take n bs)" and "wf_record (fr_record r)"
        using record_canonical [OF d] by auto
      then show ?thesis
        using "1.IH" [OF d refl True p] rs True
        by (auto simp: encode_record_frame) (metis append_take_drop_id)
    next
      case False
      then show ?thesis
        using "1.prems" d by (auto simp: peel.simps [of crc k])
    qed
  qed
qed

lemma wf_frames_peel: "wf_frames k rs \<Longrightarrow> peel crc k (journal_body crc rs) = (rs, [])"
  using peel_frames [of k rs crc "[]"] by (simp add: peel.simps [of crc _ "[]"] decode_short)

text \<open>What ends a replay, read off the bytes that were not consumed.\<close>

definition stop_of :: "(bytes \<Rightarrow> u32) \<Rightarrow> u64 \<Rightarrow> bytes \<Rightarrow> replay_stop" where
  "stop_of crc expected rest =
     (if rest = [] then CleanEof
      else case decode_prefix crc rest of
             Err e \<Rightarrow> DamagedTail e
           | Ok (r, _) \<Rightarrow> SequenceGap expected (fr_sequence r))"

lemma array_at_take: "off + n \<le> m \<Longrightarrow> m \<le> length bs \<Longrightarrow> array_at n (take m bs) off = array_at n bs off"
  by (simp add: array_at_def chunk_take)

lemma decode_prefix_frame:
  assumes m: "m = 15 + unat (word_of_le (chunk 9 11 bs) :: u16)" and "m \<le> length bs"
  shows "decode_prefix crc (take m bs) = decode_prefix crc bs"
proof -
  let ?p = "word_of_le (chunk 9 11 bs) :: u16"
  have le: "11 \<le> m" "11 + unat ?p \<le> m" "15 + unat ?p \<le> m"
    using m by simp_all
  have fields: "read_u64 (take m bs) 0 = read_u64 bs 0" "byte_at (take m bs) 8 = byte_at bs 8"
    "read_u16 (take m bs) 9 = Ok ?p" "read_u16 bs 9 = Ok ?p"
    "read_u32 (take m bs) (11 + unat ?p) = read_u32 bs (11 + unat ?p)"
    using assms le by (simp_all add: read_defs array_at_take byte_at_def) (simp_all add: array_at_def)
  have "take (11 + unat ?p) (take m bs) = take (11 + unat ?p) bs"
    "chunk 11 (11 + unat ?p) (take m bs) = chunk 11 (11 + unat ?p) bs"
    using le by (simp_all add: chunk_take min_def)
  moreover have "require_len (take m bs) k = require_len bs k" if "k \<le> m" for k
    using that assms(2) by (simp add: require_len_def)
  ultimately show ?thesis
    unfolding decode_prefix_def RECORD_PREFIX_LEN_def CHECKSUM_LEN_def
    using le by (simp add: fields Let_def del: take_take cong: if_cong)
qed

section \<open>The streaming loop computes the reference\<close>

lemma unat_of_nat64: "n < 2 ^ 64 \<Longrightarrow> unat (of_nat n :: u64) = n"
  by (simp add: unat_of_nat)

lemma replay_loop_peel:
  assumes "healthy rd" and "stream rd = bs" and "unat expected = k"
    and "k + length bs < 2 ^ 64" and "unat valid + length bs < 2 ^ 64"
  shows "replay_loop crc h rd recs expected valid =
    (let (rs, rest) = peel crc k bs in
     Ok \<lparr>ro_header = h, ro_records = recs @ rs,
         ro_valid_bytes = valid + of_nat (length bs - length rest),
         ro_stop = stop_of crc (expected + of_nat (length rs)) rest\<rparr>)"
  using assms
proof (induction crc k bs arbitrary: rd recs expected valid rule: peel.induct)
  case (1 crc k bs)
  let ?p = "unat (word_of_le (chunk 9 11 bs) :: u16)"
  obtain rd1 where rd1: "read_up_to rd 11 = (rd1, Ok (take 11 bs))" "stream rd1 = drop 11 bs" "healthy rd1"
    using read_up_to_healthy [OF "1.prems"(1)] "1.prems"(2) by metis
  obtain rd2 where rd2: "read_up_to rd1 (?p + 4) = (rd2, Ok (take (?p + 4) (drop 11 bs)))"
      "stream rd2 = drop (?p + 4) (drop 11 bs)" "healthy rd2"
    using read_up_to_healthy [OF rd1(3)] rd1(2) by metis
  note unf = replay_loop.simps [of crc h rd] RECORD_PREFIX_LEN_def CHECKSUM_LEN_def rd1(1)
  consider (eof) "bs = []" | (short) "bs \<noteq> []" "length bs < 11"
    | (cut) "11 \<le> length bs" "length bs < 15 + ?p" | (full) "15 + ?p \<le> length bs"
    by linarith
  then show ?case
  proof cases
    case eof
    then show ?thesis
      by (simp add: unf peel.simps [of crc k] decode_short stop_of_def)
  next
    case short
    then show ?thesis
      by (simp add: unf peel.simps [of crc k] decode_short stop_of_def damaged_outcome_def)
  next
    case cut
    have two: "[bs ! 9, bs ! 10] = chunk 9 11 bs"
      using cut by (simp add: list_eq_iff_nth_eq less_Suc_eq numeral_2_eq_2)
    have "length (take (?p + 4) (drop 11 bs)) < ?p + 4"
      using cut by simp
    then show ?thesis
      using cut
      by (simp add: unf two rd2(1) decode_cut peel.simps [of crc k] stop_of_def damaged_outcome_def Let_def
          flip: length_greater_0_conv)
  next
    case full
    have two: "[bs ! 9, bs ! 10] = chunk 9 11 bs"
      using full by (simp add: list_eq_iff_nth_eq less_Suc_eq numeral_2_eq_2)
    have frame: "take 11 bs @ take (?p + 4) (drop 11 bs) = take (15 + ?p) bs"
      by (simp add: take_add [symmetric] algebra_simps flip: take_add)
    have dec: "decode_prefix crc (take 11 bs @ take (?p + 4) (drop 11 bs)) = decode_prefix crc bs"
      using decode_prefix_frame [of "15 + ?p" bs crc] full frame by simp
    have ne: "bs \<noteq> []"
      using full by auto
    have loop: "replay_loop crc h rd recs expected valid =
      (case decode_prefix crc bs of
         Err e \<Rightarrow> Ok (damaged_outcome h recs valid e)
       | Ok (record, consumed) \<Rightarrow>
           if fr_sequence record \<noteq> expected
           then Ok \<lparr>ro_header = h, ro_records = recs, ro_valid_bytes = valid,
                    ro_stop = SequenceGap expected (fr_sequence record)\<rparr>
           else (case try_from_nat consumed of None \<Rightarrow> Err (ReplayIo invalid_data)
             | Some consumed' \<Rightarrow> (case checked_add valid consumed' of None \<Rightarrow> Err (ReplayIo invalid_data)
             | Some valid' \<Rightarrow> (case checked_add expected 1 of None \<Rightarrow> Err (ReplayIo invalid_data)
             | Some expected' \<Rightarrow> replay_loop crc h rd2 (recs @ [record]) expected' valid'))))"
      using full ne by (subst unf(1)) (simp add: unf(2-) two rd2(1) dec Let_def)
    show ?thesis
    proof (cases "\<exists>r n. decode_prefix crc bs = Ok (r, n) \<and> unat (fr_sequence r) = k")
      case False
      then show ?thesis
        using "1.prems"(3) ne
        by (auto simp: loop peel.simps [of crc k] stop_of_def damaged_outcome_def word_unat_eq_iff
            split: sum.splits)
    next
      case True
      then obtain r n where d: "decode_prefix crc bs = Ok (r, n)" and sq: "unat (fr_sequence r) = k"
        by blast
      have n: "15 \<le> n" "n \<le> length bs" "n = 15 + ?p"
        using record_canonical [OF d] frame_length_field [of crc r "take n bs" "drop n bs"] by auto
      have "n < 2 ^ 64" and lt: "unat valid + n < 2 ^ 64" "k + 1 < 2 ^ 64"
        using n "1.prems"(4,5) by simp_all
      then have t: "try_from_nat n = Some (of_nat n :: u64)" and un: "unat (of_nat n :: u64) = n"
        by (simp_all add: try_from_nat_def unat_of_nat64)
      have a: "checked_add valid (of_nat n) = Some (valid + of_nat n)"
          "checked_add expected 1 = Some (expected + 1)"
        using lt un "1.prems"(3) by (simp_all add: checked_add_def)
      have u: "unat (valid + of_nat n) = unat valid + n" "unat (expected + 1) = Suc k"
        using checked_add_Some a un "1.prems"(3) by (metis, metis One_nat_def add.right_neutral add_Suc_right unat_1)
      obtain rs rest where p: "peel crc (Suc k) (drop n bs) = (rs, rest)"
        by (cases "peel crc (Suc k) (drop n bs)")
      have "length rest \<le> length bs - n"
        using peel_sound [OF p] by (metis length_append length_drop le_add2)
      then have off: "of_nat n + of_nat (length bs - n - length rest) = (of_nat (length bs - length rest) :: u64)"
        using n(2) by (metis (no_types) Nat.add_diff_assoc le_add_diff_inverse of_nat_add)
      have "stream rd2 = drop n bs"
        using rd2(2) n(3) by (simp add: add.commute)
      note IH = "1.IH" [OF d refl sq rd2(3) this u(2), of "valid + of_nat n" "recs @ [r]"]
      have "fr_sequence r = expected"
        using sq "1.prems"(3) by (simp add: word_unat_eq_iff)
      then show ?thesis
        using IH "1.prems"(4,5) n u t a p d sq off
        by (simp add: loop peel.simps [of crc k] add.assoc)
    qed
  qed
qed

lemma decode_header_take:
  "decode_header crc (take HEADER_LEN bs) = Ok h \<longleftrightarrow> decode_header crc bs = Ok h"
proof
  assume "decode_header crc (take HEADER_LEN bs) = Ok h"
  then have wf: "wf_header h" and eq: "take HEADER_LEN bs = encode_header crc h"
    using header_canonical [of crc "take HEADER_LEN bs" h] by (auto simp: min_def split: if_splits)
  have "bs = encode_header crc h @ drop HEADER_LEN bs"
    by (metis append_take_drop_id eq)
  then show "decode_header crc bs = Ok h"
    using header_round_trip [OF wf, of crc "drop HEADER_LEN bs"] by simp
next
  assume "decode_header crc bs = Ok h"
  then have wf: "wf_header h" and eq: "bs = encode_header crc h @ drop HEADER_LEN bs"
    using header_canonical by blast+
  then have "take HEADER_LEN bs = encode_header crc h"
    by (metis append_eq_conv_conj length_encode_header)
  then show "decode_header crc (take HEADER_LEN bs) = Ok h"
    using header_round_trip [OF wf, of crc "[]"] by simp
qed

lemma replay_reader_spec:
  assumes "healthy rd" and "length (stream rd) < 2 ^ 64"
  shows "replay_reader crc rd =
    (case decode_header crc (take HEADER_LEN (stream rd)) of
       Err e \<Rightarrow> Err (ReplayFormat e)
     | Ok h \<Rightarrow>
         let (rs, rest) = peel crc 0 (drop HEADER_LEN (stream rd)) in
         Ok \<lparr>ro_header = h, ro_records = rs,
             ro_valid_bytes = of_nat (length (stream rd) - length rest),
             ro_stop = stop_of crc (of_nat (length rs)) rest\<rparr>)"
proof -
  obtain rd1 where rd1: "read_up_to rd HEADER_LEN = (rd1, Ok (take HEADER_LEN (stream rd)))"
    "stream rd1 = drop HEADER_LEN (stream rd)" "healthy rd1"
    using read_up_to_healthy [OF assms(1)] by metis
  show ?thesis
  proof (cases "decode_header crc (take HEADER_LEN (stream rd))")
    case (Inr h)
    have len: "72 \<le> length (stream rd)"
      using header_canonical [OF Inr] length_encode_header [of h crc]
      by (metis HEADER_LEN_def length_append length_take le_add1 min.bounded_iff)
    obtain rs rest where p: "peel crc 0 (drop HEADER_LEN (stream rd)) = (rs, rest)"
      by (cases "peel crc 0 (drop HEADER_LEN (stream rd))")
    have "length rest \<le> length (stream rd) - 72"
      using peel_sound [OF p] by (metis HEADER_LEN_def le_add2 length_append length_drop)
    then have off: "72 + of_nat (length (stream rd) - 72 - length rest) =
        (of_nat (length (stream rd) - length rest) :: u64)"
      using len by (metis (no_types) Nat.add_diff_assoc le_add_diff_inverse of_nat_add of_nat_numeral)
    show ?thesis
      using replay_loop_peel [OF rd1(3,2), of 0 0 72 crc h "[]"] assms(2) len p off Inr
      by (simp add: replay_reader_def rd1(1) [unfolded HEADER_LEN_def] HEADER_LEN_def)
  qed (simp add: replay_reader_def rd1(1))
qed

lemma replay_bytes_spec:
  assumes "length bs < 2 ^ 64"
  shows "replay_bytes crc bs =
    (case decode_header crc (take HEADER_LEN bs) of
       Err e \<Rightarrow> Err (ReplayFormat e)
     | Ok h \<Rightarrow>
         let (rs, rest) = peel crc 0 (drop HEADER_LEN bs) in
         Ok \<lparr>ro_header = h, ro_records = rs, ro_valid_bytes = of_nat (length bs - length rest),
             ro_stop = stop_of crc (of_nat (length rs)) rest\<rparr>)"
proof -
  have "healthy (if bs = [] then [] else [RdData bs])" and "stream (if bs = [] then [] else [RdData bs]) = bs"
    by simp_all
  then show ?thesis
    using replay_reader_spec [of "if bs = [] then [] else [RdData bs]" crc] assms
    by (simp only: replay_bytes_def)
qed

lemma replay_reader_bytes:
  "healthy rd \<Longrightarrow> length (stream rd) < 2 ^ 64 \<Longrightarrow> replay_reader crc rd = replay_bytes crc (stream rd)"
  by (simp add: replay_reader_spec replay_bytes_spec)

text \<open>A journal file with given header, records and unusable tail.\<close>

lemma replay_of_journal:
  assumes "wf_header h" and "wf_frames 0 rs"
    and "length (encode_header crc h @ journal_body crc rs @ tail) < 2 ^ 64"
  shows "replay_bytes crc (encode_header crc h @ journal_body crc rs @ tail) =
    (let (rs', rest) = peel crc (length rs) tail in
     Ok \<lparr>ro_header = h, ro_records = rs @ rs',
         ro_valid_bytes = of_nat (HEADER_LEN + length (journal_body crc rs) + (length tail - length rest)),
         ro_stop = stop_of crc (of_nat (length rs + length rs')) rest\<rparr>)"
proof -
  obtain rs' rest where p: "peel crc (length rs) tail = (rs', rest)"
    by (cases "peel crc (length rs) tail")
  have "length rest \<le> length tail"
    using peel_sound [OF p] by (metis le_add2 length_append)
  moreover have "decode_header crc (encode_header crc h) = Ok h"
    using header_round_trip [OF assms(1), of crc "[]"] by simp
  ultimately show ?thesis
    using assms p peel_frames [OF assms(2), of crc tail]
    by (simp add: replay_bytes_spec add.assoc)
qed

lemma replay_sound:
  assumes "replay_bytes crc bs = Ok o'" and "length bs < 2 ^ 64"
  shows "wf_header (ro_header o') \<and> wf_frames 0 (ro_records o') \<and>
    unat (ro_valid_bytes o') \<le> length bs \<and>
    take (unat (ro_valid_bytes o')) bs =
      encode_header crc (ro_header o') @ journal_body crc (ro_records o') \<and>
    (ro_stop o' = CleanEof \<longleftrightarrow> unat (ro_valid_bytes o') = length bs)"
proof -
  obtain h rs rest where h: "decode_header crc (take HEADER_LEN bs) = Ok h"
    and p: "peel crc 0 (drop HEADER_LEN bs) = (rs, rest)"
    and o': "o' = \<lparr>ro_header = h, ro_records = rs, ro_valid_bytes = of_nat (length bs - length rest),
             ro_stop = stop_of crc (of_nat (length rs)) rest\<rparr>"
    using assms by (auto simp: replay_bytes_spec split: sum.splits prod.splits)
  have wf: "wf_header h" and hd: "bs = encode_header crc h @ drop HEADER_LEN bs"
    using h by (auto simp: decode_header_take dest: header_canonical)
  have body: "wf_frames 0 rs" "drop HEADER_LEN bs = journal_body crc rs @ rest"
    using peel_sound [OF p] by auto
  have "bs = (encode_header crc h @ journal_body crc rs) @ rest"
    using hd body(2) by simp
  moreover from this have v: "unat (of_nat (length bs - length rest) :: u64) = length bs - length rest"
    using assms(2) by (intro unat_of_nat64) simp
  moreover have "stop_of crc e rest = CleanEof \<longleftrightarrow> rest = []" for e
    by (auto simp: stop_of_def split: sum.splits)
  ultimately show ?thesis
    using wf body(1) by (simp add: o' v)
qed

lemma replay_clean_prefix:
  assumes "replay_bytes crc bs = Ok o'" and "length bs < 2 ^ 64"
  shows "replay_bytes crc (take (unat (ro_valid_bytes o')) bs) = Ok (o'\<lparr>ro_stop := CleanEof\<rparr>)"
proof -
  note S = replay_sound [OF assms]
  have "unat (ro_valid_bytes o') = length (encode_header crc (ro_header o') @ journal_body crc (ro_records o'))"
    using S by (metis length_take min.absorb2)
  then have "HEADER_LEN + length (journal_body crc (ro_records o')) = unat (ro_valid_bytes o')"
    using S by simp
  then show ?thesis
    using S assms(2) replay_of_journal [of "ro_header o'" "ro_records o'" crc "[]"]
    by (simp add: peel.simps [of crc _ "[]"] decode_short stop_of_def)
qed

lemma peel_torn:
  assumes "i < length (frame_bytes crc r)" and "length (snd (encode_payload (fr_record r))) \<le> MAX_PAYLOAD_LEN"
  shows "peel crc k (take i (frame_bytes crc r)) = ([], take i (frame_bytes crc r))"
    and "\<exists>needed. decode_prefix crc (take i (frame_bytes crc r)) = Err (Truncated needed i)"
proof -
  have "encode_record crc r = Ok (frame_bytes crc r)"
    using assms(2) by (simp add: encode_record_frame)
  from record_torn [OF this assms(1)]
  show "\<exists>needed. decode_prefix crc (take i (frame_bytes crc r)) = Err (Truncated needed i)"
    by blast
  then show "peel crc k (take i (frame_bytes crc r)) = ([], take i (frame_bytes crc r))"
    by (auto simp: peel.simps [of crc k])
qed

section \<open>Properties\<close>

text \<open>
  A crash that tears the record being appended loses that record and nothing else.  For a
  journal of any well-formed records, numbered from zero, followed by a strict prefix of a further
  frame, replay returns exactly the complete records, the byte boundary just after them, and
  reports a clean end only when the torn part is empty.
\<close>

theorem replay_torn_tail:
  assumes "wf_header h" and "wf_frames 0 rs"
    and "length (snd (encode_payload (fr_record r))) \<le> MAX_PAYLOAD_LEN"
    and "i < length (frame_bytes crc r)"
    and "length (encode_header crc h @ journal_body crc rs @ take i (frame_bytes crc r)) < 2 ^ 64"
  shows "\<exists>needed.
    replay_bytes crc (encode_header crc h @ journal_body crc rs @ take i (frame_bytes crc r)) =
      Ok \<lparr>ro_header = h, ro_records = rs,
          ro_valid_bytes = of_nat (HEADER_LEN + length (journal_body crc rs)),
          ro_stop = (if i = 0 then CleanEof else DamagedTail (Truncated needed i))\<rparr>"
proof -
  obtain needed where n: "decode_prefix crc (take i (frame_bytes crc r)) = Err (Truncated needed i)"
    using peel_torn(2) [OF assms(4,3)] by blast
  have "take i (frame_bytes crc r) = [] \<longleftrightarrow> i = 0"
    using assms(4) by auto
  then show ?thesis
    using replay_of_journal [OF assms(1,2,5)] peel_torn(1) [OF assms(4,3)] n
    by (intro exI [of _ needed]) (auto simp: stop_of_def)
qed

theorem replay_torn_tail_witness:
  "\<exists>needed.
    replay_bytes (\<lambda>_. 0)
      (encode_header (\<lambda>_. 0) \<lparr>fh_transfer_id = replicate 16 1, fh_total_length = 9, fh_block_size = 4,
          fh_validator_hash = replicate 32 2\<rparr>
       @ journal_body (\<lambda>_. 0) [\<lparr>fr_sequence = 0, fr_record = Truncate 5\<rparr>]
       @ take 13 (frame_bytes (\<lambda>_. 0) \<lparr>fr_sequence = 1, fr_record = Truncate 4\<rparr>)) =
      Ok \<lparr>ro_header = \<lparr>fh_transfer_id = replicate 16 1, fh_total_length = 9, fh_block_size = 4,
            fh_validator_hash = replicate 32 2\<rparr>,
          ro_records = [\<lparr>fr_sequence = 0, fr_record = Truncate 5\<rparr>],
          ro_valid_bytes = of_nat (HEADER_LEN + length (journal_body (\<lambda>_. 0)
            [\<lparr>fr_sequence = 0, fr_record = Truncate 5\<rparr>])),
          ro_stop = (if (13 :: nat) = 0 then CleanEof else DamagedTail (Truncated needed 13))\<rparr>"
  by (rule replay_torn_tail)
     (simp_all add: wf_header_def MAX_PAYLOAD_LEN_def length_frame_bytes HEADER_LEN_def)

text \<open>
  C28.  Whatever bytes follow it, a valid journal prefix survives: replaying header, records and an
  arbitrary (damaged, unknown or foreign) tail succeeds and returns all those records first.
\<close>

theorem replay_keeps_prefix:
  assumes "wf_header h" and "wf_frames 0 rs"
    and "length (encode_header crc h @ journal_body crc rs @ tail) < 2 ^ 64"
  shows "\<exists>out more. replay_bytes crc (encode_header crc h @ journal_body crc rs @ tail) = Ok out \<and>
    ro_header out = h \<and> ro_records out = rs @ more"
  using replay_of_journal [OF assms] by (simp add: split_beta Let_def)

theorem replay_keeps_prefix_witness:
  "\<exists>out more. replay_bytes (\<lambda>_. 0)
      (encode_header (\<lambda>_. 0) \<lparr>fh_transfer_id = replicate 16 1, fh_total_length = 9, fh_block_size = 4,
          fh_validator_hash = replicate 32 2\<rparr>
       @ journal_body (\<lambda>_. 0) [\<lparr>fr_sequence = 0, fr_record = Truncate 5\<rparr>] @ [1, 2, 3]) = Ok out \<and>
    ro_header out = \<lparr>fh_transfer_id = replicate 16 1, fh_total_length = 9, fh_block_size = 4,
          fh_validator_hash = replicate 32 2\<rparr> \<and>
    ro_records out = [\<lparr>fr_sequence = 0, fr_record = Truncate 5\<rparr>] @ more"
  by (rule replay_keeps_prefix)
     (simp_all add: wf_header_def MAX_PAYLOAD_LEN_def length_frame_bytes HEADER_LEN_def)

text \<open>
  C29.  Replay invents nothing and skips nothing: the bytes up to \<open>valid_bytes\<close> are exactly the
  canonical encoding of the reported header and records, whose sequence numbers are 0, 1, 2, ...;
  the stop reason is \<open>CleanEof\<close> precisely when that is the whole file.
\<close>

theorem replay_reports_file:
  assumes "replay_bytes crc bs = Ok out" and "length bs < 2 ^ 64"
  shows "wf_frames 0 (ro_records out) \<and> unat (ro_valid_bytes out) \<le> length bs \<and>
    take (unat (ro_valid_bytes out)) bs =
      encode_header crc (ro_header out) @ journal_body crc (ro_records out) \<and>
    (ro_stop out = CleanEof \<longleftrightarrow> unat (ro_valid_bytes out) = length bs)"
  using replay_sound [OF assms] by simp

theorem replay_reports_file_witness:
  "\<exists>out :: replay_outcome. take (unat (ro_valid_bytes out))
        (encode_header (\<lambda>_. 0) \<lparr>fh_transfer_id = replicate 16 1, fh_total_length = 9, fh_block_size = 4,
          fh_validator_hash = replicate 32 2\<rparr>) =
      encode_header (\<lambda>_. 0) (ro_header out) @ journal_body (\<lambda>_. 0) (ro_records out)"
proof -
  let ?h = "\<lparr>fh_transfer_id = replicate 16 1, fh_total_length = 9, fh_block_size = 4,
          fh_validator_hash = replicate 32 2\<rparr>" and ?crc = "\<lambda>_ :: bytes. 0 :: u32"
  have "wf_header ?h"
    by (simp add: wf_header_def)
  then obtain out where "replay_bytes ?crc (encode_header ?crc ?h) = Ok out"
    and "length (encode_header ?crc ?h) < 2 ^ 64"
    using replay_of_journal [of ?h "[]" ?crc "[]"] by (auto simp: HEADER_LEN_def split_beta Let_def)
  from replay_reports_file [OF this] show ?thesis
    by blast
qed

text \<open>
  C30.  The outcome does not depend on how the operating system cuts the file into reads: short
  reads and interrupted calls give the same result as one contiguous read.
\<close>

theorem replay_ignores_chunking:
  assumes "healthy rd" and "length (stream rd) < 2 ^ 64"
  shows "replay_reader crc rd = replay_bytes crc (stream rd)"
  using assms by (rule replay_reader_bytes)

theorem replay_ignores_chunking_witness:
  "replay_reader (\<lambda>_. 0) [RdData [0x44], RdInterrupted, RdData [0x50, 0x4A]] =
   replay_bytes (\<lambda>_. 0) [0x44, 0x50, 0x4A]"
  using replay_ignores_chunking [of "[RdData [0x44], RdInterrupted, RdData [0x50, 0x4A]]" "\<lambda>_. 0"]
  by simp

lemma file_set_len_cut:
  "n \<le> length (f_cache f) \<Longrightarrow> file_set_len f n = (f', Ok u) \<Longrightarrow> f_cache f' = take n (f_cache f)"
  by (auto simp: file_set_len_def next_fault_def split: list.splits fault.splits prod.splits)

lemma file_sync_Ok: "file_sync f = (f', Ok u) \<Longrightarrow> f_cache f' = f_cache f \<and> f_stable f' = f_cache f"
  by (auto simp: file_sync_def next_fault_def split: list.splits fault.splits prod.splits)

lemma recover_journal_repairs:
  assumes "healthy (cuts (f_cache f))" and "stream (cuts (f_cache f)) = f_cache f"
    and "length (f_cache f) < 2 ^ 64" and "recover_journal crc cuts (Ok f) = (Some f', res)"
  shows "(\<forall>out. res = Ok out \<longrightarrow>
       f_cache f' = take (unat (ro_valid_bytes out)) (f_cache f) \<and>
       (ro_stop out \<noteq> CleanEof \<longrightarrow> f_stable f' = f_cache f') \<and>
       replay_bytes crc (f_cache f') = Ok (out\<lparr>ro_stop := CleanEof\<rparr>)) \<and>
    (\<forall>e. res = Err (ReplayFormat e) \<longrightarrow> f' = f)"
proof -
  have rep: "replay_reader crc (cuts (f_cache f)) = replay_bytes crc (f_cache f)"
    using replay_reader_bytes [OF assms(1)] assms(2,3) by simp
  have ok: "f_cache f' = take (unat (ro_valid_bytes out)) (f_cache f) \<and>
      (ro_stop out \<noteq> CleanEof \<longrightarrow> f_stable f' = f_cache f')" if res: "res = Ok out" for out
  proof -
    have out: "replay_bytes crc (f_cache f) = Ok out"
      using assms(4) that by (auto simp: recover_journal_def rep split: sum.splits prod.splits if_splits)
    have v: "unat (ro_valid_bytes out) \<le> length (f_cache f)"
      "ro_stop out = CleanEof \<Longrightarrow> unat (ro_valid_bytes out) = length (f_cache f)"
      using replay_sound [OF out assms(3)] by blast+
    show ?thesis
    proof (cases "ro_stop out = CleanEof")
      case True
      then show ?thesis
        using assms(4) out v(2) by (simp add: recover_journal_def rep)
    next
      case False
      then obtain f1 where cut: "file_set_len f (unat (ro_valid_bytes out)) = (f1, Ok ())"
        and sync: "file_sync f1 = (f', Ok ())"
        using assms(4) res out
        by (simp add: recover_journal_def rep split: prod.splits sum.splits)
      then show ?thesis
        using file_set_len_cut [OF v(1) cut] file_sync_Ok [OF sync] by simp
    qed
  qed
  moreover have "replay_bytes crc (f_cache f) = Ok out" if "res = Ok out" for out
    using assms(4) that by (auto simp: recover_journal_def rep split: sum.splits prod.splits if_splits)
  ultimately have "\<forall>out. res = Ok out \<longrightarrow> replay_bytes crc (f_cache f') = Ok (out\<lparr>ro_stop := CleanEof\<rparr>)"
    using replay_clean_prefix assms(3) by metis
  moreover have "f' = f" if "res = Err (ReplayFormat e)" for e
    using assms(4) that by (auto simp: recover_journal_def split: sum.splits prod.splits if_splits)
  ultimately show ?thesis
    using ok by blast
qed

text \<open>
  C31.  Recovery repairs the file: when \<open>recover_journal\<close> succeeds, the file holds exactly the valid
  prefix, a removed suffix has been synchronised to stable storage, and replaying the repaired file
  gives the same header and records with a clean end.  A header that does not decode is reported
  with the file untouched.
\<close>

theorem recover_repairs:
  assumes "healthy (cuts (f_cache f))" and "stream (cuts (f_cache f)) = f_cache f"
    and "length (f_cache f) < 2 ^ 64" and "recover_journal crc cuts (Ok f) = (Some f', res)"
  shows "(\<forall>out. res = Ok out \<longrightarrow>
       f_cache f' = take (unat (ro_valid_bytes out)) (f_cache f) \<and>
       (ro_stop out \<noteq> CleanEof \<longrightarrow> f_stable f' = f_cache f') \<and>
       replay_bytes crc (f_cache f') = Ok (out\<lparr>ro_stop := CleanEof\<rparr>)) \<and>
    (\<forall>e. res = Err (ReplayFormat e) \<longrightarrow> f' = f)"
  using assms by (rule recover_journal_repairs)

definition demo_journal :: os_file where
  "demo_journal =
     \<lparr>f_cache = encode_header (\<lambda>_. 0) \<lparr>fh_transfer_id = replicate 16 1, fh_total_length = 9,
         fh_block_size = 4, fh_validator_hash = replicate 32 2\<rparr> @ [7, 7],
      f_stable = [], f_faults = []\<rparr>"

theorem recover_repairs_witness:
  "\<exists>f' out. recover_journal (\<lambda>_. 0) (\<lambda>bs. [RdData bs]) (Ok demo_journal) = (Some f', Ok out) \<and>
     f_stable f' = f_cache f' \<and> length (f_cache f') = 72"
proof -
  let ?h = "\<lparr>fh_transfer_id = replicate 16 1, fh_total_length = 9, fh_block_size = 4,
      fh_validator_hash = replicate 32 2\<rparr>" and ?crc = "\<lambda>_ :: bytes. 0 :: u32"
  have wf: "wf_header ?h"
    by (simp add: wf_header_def)
  have hl: "healthy [RdData (f_cache demo_journal)]" "length (f_cache demo_journal) < 2 ^ 64"
    "stream [RdData (f_cache demo_journal)] = f_cache demo_journal"
    using wf by (simp_all add: demo_journal_def HEADER_LEN_def)
  have "replay_bytes ?crc (f_cache demo_journal) = Ok \<lparr>ro_header = ?h, ro_records = [],
      ro_valid_bytes = 72, ro_stop = DamagedTail (Truncated 11 2)\<rparr>"
    using replay_of_journal [OF wf, of "[]" ?crc "[7, 7]"] wf
    by (simp add: demo_journal_def HEADER_LEN_def peel.simps [of ?crc 0] decode_short stop_of_def)
  then have rep: "replay_reader ?crc [RdData (f_cache demo_journal)] = Ok \<lparr>ro_header = ?h, ro_records = [],
      ro_valid_bytes = 72, ro_stop = DamagedTail (Truncated 11 2)\<rparr>"
    using replay_reader_bytes [OF hl(1), of ?crc] hl(2,3) by simp
  have "f_faults demo_journal = []"
    by (simp add: demo_journal_def)
  with rep obtain f' out where
      r: "recover_journal ?crc (\<lambda>bs. [RdData bs]) (Ok demo_journal) = (Some f', Ok out)"
    and "ro_stop out \<noteq> CleanEof" and v: "unat (ro_valid_bytes out) = 72"
    by (simp add: recover_journal_def file_set_len_def file_sync_def next_fault_def)
  have "f_cache f' = take 72 (f_cache demo_journal)" "f_stable f' = f_cache f'"
    using recover_repairs [of "\<lambda>bs. [RdData bs]" demo_journal ?crc f' "Ok out"] hl r v \<open>ro_stop out \<noteq> CleanEof\<close>
    by simp_all
  then show ?thesis
    using r wf by (auto simp: demo_journal_def HEADER_LEN_def)
qed

end
