(* ===== verification/JournalState.thy ===== *)
theory JournalState
  imports JournalFormat "HOL-Library.Multiset"
begin

text \<open>
  The single semantic reading of a replayed record sequence, \<open>downpour-storage/src/journal/state.rs\<close>:
  the fold that compaction and recovery share.  The lemmas show what a successful fold guarantees
  (sorted, disjoint, in-bounds blocks) and which blocks survive a \<open>Truncate\<close>.
\<close>

section \<open>Data\<close>

datatype journal_state_error = JournalStateError string

record completed_block =
  cb_offset :: u64
  cb_len :: u32
  cb_blake3 :: bytes

record effective_state =
  es_effective_length :: u64
  es_truncate :: "u64 option"
  es_identities :: "bytes list"
  es_blocks :: "completed_block list"
  es_sealed :: "bytes option"

section \<open>Operations\<close>

definition cb_end :: "completed_block \<Rightarrow> journal_state_error + u64" where
  "cb_end b =
     ok_or (JournalStateError ''completed block end overflows u64'')
       (checked_add (cb_offset b) (ucast (cb_len b)))"

fun apply_record ::
    "bool \<Rightarrow> effective_state \<Rightarrow> journal_record \<Rightarrow> journal_state_error + effective_state" where
  "apply_record is_last st (BlockComplete off len digest) =
     (if len = 0 then Err (JournalStateError ''completed block has zero length'')
      else
        (let block = \<lparr>cb_offset = off, cb_len = len, cb_blake3 = digest\<rparr> in
         and_then (cb_end block) (\<lambda>e.
           if e > es_effective_length st
           then Err (JournalStateError ''completed block lies beyond the effective length'')
           else Ok (st\<lparr>es_blocks := es_blocks st @ [block]\<rparr>))))"
| "apply_record is_last st (Checkpoint _ _) = Ok st"
| "apply_record is_last st (IdentityUpdate cbor) =
     Ok (st\<lparr>es_identities := es_identities st @ [cbor]\<rparr>)"
| "apply_record is_last st (Truncate new_length) =
     (if new_length > es_effective_length st
      then Err (JournalStateError ''truncate increases the effective length'')
      else Ok (st\<lparr>es_effective_length := new_length, es_truncate := Some new_length,
                  es_blocks := filter (\<lambda>b. case cb_end b of Inl _ \<Rightarrow> False | Inr e \<Rightarrow> e \<le> new_length)
                                 (es_blocks st)\<rparr>))"
| "apply_record is_last st (Sealed digest) =
     (if es_sealed st \<noteq> None \<or> \<not> is_last
      then Err (JournalStateError ''sealed record is not unique and final'')
      else Ok (st\<lparr>es_sealed := Some digest\<rparr>))"

fun apply_records ::
    "effective_state \<Rightarrow> framed_record list \<Rightarrow> journal_state_error + effective_state" where
  "apply_records st [] = Ok st"
| "apply_records st (r # rs) =
     and_then (apply_record (rs = []) st (fr_record r)) (\<lambda>st'. apply_records st' rs)"

fun check_overlap :: "completed_block list \<Rightarrow> journal_state_error + unit" where
  "check_overlap (a # b # rest) =
     and_then (cb_end a) (\<lambda>previous_end.
       if cb_offset b < previous_end
       then Err (JournalStateError ''surviving completed blocks overlap'')
       else check_overlap (b # rest))"
| "check_overlap _ = Ok ()"

definition effective_state ::
    "file_header \<Rightarrow> framed_record list \<Rightarrow> journal_state_error + effective_state" where
  "effective_state header records =
     and_then
       (apply_records \<lparr>es_effective_length = fh_total_length header, es_truncate = None,
          es_identities = [], es_blocks = [], es_sealed = None\<rparr> records) (\<lambda>st.
     let blocks = sort_key cb_offset (es_blocks st) in
     and_then (check_overlap blocks) (\<lambda>_. Ok (st\<lparr>es_blocks := blocks\<rparr>)))"

section \<open>Reading of the result\<close>

text \<open>The exclusive end of a block as a natural number; it is exact when the block is in range.\<close>

definition block_end :: "completed_block \<Rightarrow> nat" where
  "block_end b = unat (cb_offset b) + unat (cb_len b)"

definition block_in :: "nat \<Rightarrow> completed_block \<Rightarrow> bool" where
  "block_in n b = (cb_len b \<noteq> 0 \<and> block_end b \<le> n)"

fun records_truncates :: "framed_record list \<Rightarrow> u64 list" where
  "records_truncates [] = []"
| "records_truncates (r # rs) =
     (case fr_record r of Truncate n \<Rightarrow> n # records_truncates rs | _ \<Rightarrow> records_truncates rs)"

text \<open>Reference: the blocks no later truncation cuts into.\<close>

fun surviving :: "framed_record list \<Rightarrow> completed_block list" where
  "surviving [] = []"
| "surviving (r # rs) =
     (case fr_record r of
        BlockComplete off len digest \<Rightarrow>
          (if \<forall>t \<in> set (records_truncates rs). unat off + unat len \<le> unat t
           then \<lparr>cb_offset = off, cb_len = len, cb_blake3 = digest\<rparr> # surviving rs
           else surviving rs)
      | _ \<Rightarrow> surviving rs)"

section \<open>Lemmas\<close>

lemma unat_ucast32 [simp]: "unat (ucast (x :: u32) :: u64) = unat x"
proof -
  have "unat x < 2 ^ 32"
    using unat_lt_2p [of x] by simp
  then show ?thesis
    by (simp add: unsigned_ucast_eq take_bit_nat_eq_self)
qed

lemma cb_end_Ok: "cb_end b = Ok e \<longleftrightarrow> unat e = block_end b"
  by (simp add: cb_end_def checked_add_Some block_end_def)

lemma cb_end_Err: "cb_end b = Err e \<Longrightarrow> 2 ^ 64 \<le> block_end b"
  by (auto simp: cb_end_def ok_or_def checked_add_None block_end_def split: option.splits)

lemma retain_iff:
  "(case cb_end b of Inl _ \<Rightarrow> False | Inr e \<Rightarrow> e \<le> n) \<longleftrightarrow> block_end b \<le> unat n"
proof (cases "cb_end b")
  case (Inl e)
  then show ?thesis
    using cb_end_Err [OF Inl] unat_lt_2p [of n] by simp
next
  case (Inr e)
  then have "unat e = block_end b"
    by (simp add: cb_end_Ok)
  with Inr show ?thesis
    by (simp add: word_le_unat)
qed

text \<open>One record, seen from the blocks and the length.\<close>

lemma apply_record_Ok:
  assumes "apply_record lst st r = Ok st'"
  shows "es_blocks st' =
      (case r of BlockComplete off len d \<Rightarrow> es_blocks st @ [\<lparr>cb_offset = off, cb_len = len, cb_blake3 = d\<rparr>]
       | Truncate n \<Rightarrow> filter (\<lambda>b. block_end b \<le> unat n) (es_blocks st)
       | _ \<Rightarrow> es_blocks st)"
    and "es_effective_length st' = (case r of Truncate n \<Rightarrow> n | _ \<Rightarrow> es_effective_length st)"
    and "es_effective_length st' \<le> es_effective_length st"
    and "list_all (block_in (unat (es_effective_length st))) (es_blocks st) \<Longrightarrow>
         list_all (block_in (unat (es_effective_length st'))) (es_blocks st')"
  using assms
  by (cases r; auto simp: Let_def and_then_eq_Inr cb_end_Ok retain_iff list_all_iff block_in_def
      word_le_unat not_less split: if_splits)+

lemma apply_records_inv:
  "apply_records st rs = Ok st' \<Longrightarrow> list_all (block_in (unat (es_effective_length st))) (es_blocks st) \<Longrightarrow>
   list_all (block_in (unat (es_effective_length st'))) (es_blocks st') \<and>
   es_effective_length st' \<le> es_effective_length st"
proof (induction rs arbitrary: st)
  case (Cons r rs)
  then obtain st1 where s1: "apply_record (rs = []) st (fr_record r) = Ok st1" "apply_records st1 rs = Ok st'"
    by (auto simp: and_then_eq_Inr)
  then show ?case
    using Cons.IH [OF s1(2)] apply_record_Ok(3,4) [OF s1(1)] Cons.prems(2) by auto
qed simp

lemma apply_records_blocks:
  "apply_records st rs = Ok st' \<Longrightarrow>
   es_blocks st' = filter (\<lambda>b. \<forall>t \<in> set (records_truncates rs). block_end b \<le> unat t) (es_blocks st) @ surviving rs
   \<and> es_effective_length st' = last (es_effective_length st # records_truncates rs)"
proof (induction rs arbitrary: st)
  case (Cons r rs)
  then obtain st1 where s1: "apply_record (rs = []) st (fr_record r) = Ok st1" "apply_records st1 rs = Ok st'"
    by (auto simp: and_then_eq_Inr)
  show ?case
    using Cons.IH [OF s1(2)] apply_record_Ok(1,2) [OF s1(1)]
    by (cases "fr_record r") (auto simp: block_end_def conj_commute cong: filter_cong)
qed simp

definition before :: "completed_block \<Rightarrow> completed_block \<Rightarrow> bool" where
  "before a b = (block_end a \<le> unat (cb_offset b))"

lemma transp_before: "transp before"
  by (rule transpI) (auto simp: before_def block_end_def)

lemma check_overlap_Ok:
  assumes "\<forall>b \<in> set bs. block_end b < 2 ^ 64"
  shows "check_overlap bs = Ok u \<longleftrightarrow> sorted_wrt before bs"
proof -
  have "check_overlap bs = Ok u \<longleftrightarrow> successively before bs"
    using assms
  proof (induction bs rule: check_overlap.induct)
    case (1 a b rest)
    obtain e where e: "cb_end a = Ok e" "unat e = block_end a"
      using 1(2) cb_end_Err [of a] by (cases "cb_end a") (auto simp: cb_end_Ok)
    show ?case
    proof (cases "cb_offset b < e")
      case True
      then show ?thesis
        using e by (simp add: before_def word_lt_unat)
    next
      case False
      then have "before a b"
        using e by (simp add: before_def word_lt_unat)
      with False show ?thesis
        using 1(1) [OF False] 1(2) e by simp
    qed
  qed auto
  then show ?thesis
    using successively_conv_sorted_wrt [OF transp_before] by blast
qed

lemma effective_state_Ok:
  assumes "effective_state h rs = Ok st"
  obtains st0 where
    "apply_records \<lparr>es_effective_length = fh_total_length h, es_truncate = None,
        es_identities = [], es_blocks = [], es_sealed = None\<rparr> rs = Ok st0"
    "st = st0\<lparr>es_blocks := sort_key cb_offset (surviving rs)\<rparr>"
    "es_effective_length st = last (fh_total_length h # records_truncates rs)"
    "es_effective_length st \<le> fh_total_length h"
    "list_all (block_in (unat (es_effective_length st))) (es_blocks st)"
    "sorted_wrt before (es_blocks st)"
proof -
  obtain st0 where s0: "apply_records \<lparr>es_effective_length = fh_total_length h, es_truncate = None,
        es_identities = [], es_blocks = [], es_sealed = None\<rparr> rs = Ok st0"
    and ov: "check_overlap (sort_key cb_offset (es_blocks st0)) = Ok ()"
    and st: "st = st0\<lparr>es_blocks := sort_key cb_offset (es_blocks st0)\<rparr>"
    using assms by (auto simp: effective_state_def and_then_eq_Inr Let_def)
  note B = apply_records_blocks [OF s0]
  have I: "list_all (block_in (unat (es_effective_length st0))) (es_blocks st0)"
    "es_effective_length st0 \<le> fh_total_length h"
    using apply_records_inv [OF s0] by simp_all
  then have "\<forall>b \<in> set (es_blocks st0). block_end b < 2 ^ 64"
    using unat_lt_2p [of "es_effective_length st0"] by (fastforce simp: list_all_iff block_in_def)
  then have "sorted_wrt before (sort_key cb_offset (es_blocks st0))"
    using ov check_overlap_Ok [of "sort_key cb_offset (es_blocks st0)"] by simp
  then show thesis
    using B I st by (intro that [OF s0]) (simp_all add: list_all_iff)
qed

section \<open>Properties\<close>

text \<open>
  C32.  What a successful fold guarantees: the surviving blocks are ordered by offset, pairwise
  disjoint, non-empty and inside the effective length, which is the header's length lowered by the
  last \<open>Truncate\<close>; a violated rule is an error, never a quietly adjusted state.
\<close>

theorem effective_state_wellformed:
  assumes "effective_state h rs = Ok st"
  shows "sorted_wrt (\<lambda>a b. block_end a \<le> unat (cb_offset b)) (es_blocks st) \<and>
    (\<forall>b \<in> set (es_blocks st). cb_len b \<noteq> 0 \<and> block_end b \<le> unat (es_effective_length st)) \<and>
    es_effective_length st = last (fh_total_length h # records_truncates rs) \<and>
    es_effective_length st \<le> fh_total_length h"
  using assms
proof (rule effective_state_Ok)
  assume "sorted_wrt before (es_blocks st)"
    and "list_all (block_in (unat (es_effective_length st))) (es_blocks st)"
    and "es_effective_length st = last (fh_total_length h # records_truncates rs)"
    and "es_effective_length st \<le> fh_total_length h"
  then show ?thesis
    by (auto simp: before_def list_all_iff block_in_def elim: sorted_wrt_mono_rel [rotated])
qed

definition demo_header :: file_header where
  "demo_header = \<lparr>fh_transfer_id = replicate 16 0, fh_total_length = 100, fh_block_size = 10,
     fh_validator_hash = replicate 32 0\<rparr>"

definition demo_records :: "framed_record list" where
  "demo_records =
     [\<lparr>fr_sequence = 0, fr_record = BlockComplete 50 20 [1]\<rparr>,
      \<lparr>fr_sequence = 1, fr_record = BlockComplete 0 10 [2]\<rparr>,
      \<lparr>fr_sequence = 2, fr_record = Truncate 60\<rparr>,
      \<lparr>fr_sequence = 3, fr_record = BlockComplete 10 50 [3]\<rparr>]"

lemma demo_effective:
  "effective_state demo_header demo_records =
     Ok \<lparr>es_effective_length = 60, es_truncate = Some 60, es_identities = [],
         es_blocks = [\<lparr>cb_offset = 0, cb_len = 10, cb_blake3 = [2]\<rparr>,
                      \<lparr>cb_offset = 10, cb_len = 50, cb_blake3 = [3]\<rparr>],
         es_sealed = None\<rparr>"
  by (simp add: effective_state_def demo_header_def demo_records_def cb_end_def checked_add_def Let_def
      word_lt_unat word_le_unat)

theorem effective_state_wellformed_witness:
  "sorted_wrt (\<lambda>a b. block_end a \<le> unat (cb_offset b))
     [\<lparr>cb_offset = 0, cb_len = 10, cb_blake3 = [2]\<rparr>, \<lparr>cb_offset = 10, cb_len = 50, cb_blake3 = [3]\<rparr>]"
  using effective_state_wellformed [OF demo_effective] by simp

text \<open>
  C33.  Which blocks survive: exactly the recorded ones that no later \<open>Truncate\<close> cuts into, each as
  recorded (same offset, length and digest); a crossed block is dropped whole, never cropped.
\<close>

theorem effective_state_survivors:
  assumes "effective_state h rs = Ok st"
  shows "mset (es_blocks st) = mset (surviving rs)"
  using assms by (rule effective_state_Ok) simp

theorem effective_state_survivors_witness:
  "mset [\<lparr>cb_offset = 0, cb_len = 10, cb_blake3 = [2]\<rparr>, \<lparr>cb_offset = 10, cb_len = 50, cb_blake3 = [3]\<rparr>] =
   mset (surviving demo_records)"
  using effective_state_survivors [OF demo_effective] by simp

end
