(* ===== verification/PartFile.thy ===== *)
theory PartFile
  imports IoModel
begin

text \<open>
  The preallocated part file of \<open>downpour-storage/src/part_file.rs\<close>: exclusive creation, reopening
  for recovery, growth, bounds-checked positional writes and synchronisation.  The results of
  \<open>open\<close>, of \<open>fallocate\<close>/\<open>posix_fallocate\<close> (crates \<open>rustix\<close> and \<open>libc\<close>), of the Win32 calls and of
  the block-count query are parameters; every branch the code takes on them is modelled, for the
  Linux and for the Windows preparation.
\<close>

section \<open>Data\<close>

datatype preallocation_method =
    NotNeeded | FallocateKeepSize | PosixFallocate | FileAllocationInfo | SetLength

definition method_space_reserved :: "preallocation_method \<Rightarrow> bool" where
  "method_space_reserved m = (m \<noteq> SetLength)"

record part_file =
  pf_file :: os_file
  pf_path :: path
  pf_total_length :: u64
  pf_method :: preallocation_method

record recovered_part_file =
  rp_part :: part_file
  rp_observed_length :: u64
  rp_reextended :: bool
  rp_space_reserved :: bool

datatype part_file_error =
    Missing path
  | CannotShrink u64 u64
  | InvalidTarget path
  | UnsupportedLength u64
  | AlreadyExists path
  | OutOfBounds u64 u64 u64
  | BufferTooLarge
  | PartIo string path io_error

text \<open>The operating-system allocation calls on an open file.\<close>

record linux_alloc =
  la_fallocate_keep_size :: "os_file \<Rightarrow> os_file \<times> (io_error + unit)"
  la_posix_fallocate :: "os_file \<Rightarrow> os_file \<times> (io_error + unit)"

record windows_alloc =
  wa_mark_sparse :: "os_file \<Rightarrow> os_file \<times> (io_error + unit)"
  wa_request_allocation :: "os_file \<Rightarrow> os_file \<times> (io_error + unit)"
  wa_allocated_size :: "os_file \<Rightarrow> io_error + u64"

section \<open>Preparation\<close>

definition part_path_for :: "path \<Rightarrow> part_file_error + path" where
  "part_path_for target =
     (if path_file_name target = None then Err (InvalidTarget target) else Ok (target @ ''.dppart''))"

text \<open>\<open>EOPNOTSUPP\<close>, \<open>ENOSYS\<close> and \<open>EINVAL\<close> on Linux.\<close>

definition is_unsupported :: "io_error \<Rightarrow> bool" where
  "is_unsupported e =
     (case raw_os_error e of None \<Rightarrow> False | Some code \<Rightarrow> code = 95 \<or> code = 38 \<or> code = 22)"

definition set_len_then ::
    "os_file \<Rightarrow> u64 \<Rightarrow> preallocation_method \<Rightarrow> os_file \<times> (io_error + preallocation_method)" where
  "set_len_then f len m =
     (case file_set_len f (unat len) of (g, Err e) \<Rightarrow> (g, Err e) | (g, Ok _) \<Rightarrow> (g, Ok m))"

definition prepare_with ::
    "linux_alloc \<Rightarrow> os_file \<Rightarrow> u64 \<Rightarrow> os_file \<times> (io_error + preallocation_method)" where
  "prepare_with ops f len =
     (case la_fallocate_keep_size ops f of
        (f1, Ok _) \<Rightarrow> set_len_then f1 len FallocateKeepSize
      | (f1, Err e) \<Rightarrow>
          if \<not> is_unsupported e then (f1, Err e)
          else
            (case la_posix_fallocate ops f1 of
               (f2, Ok _) \<Rightarrow> set_len_then f2 len PosixFallocate
             | (f2, Err e2) \<Rightarrow>
                 if is_unsupported e2 then set_len_then f2 len SetLength else (f2, Err e2)))"

definition prepare ::
    "linux_alloc \<Rightarrow> os_file \<Rightarrow> u64 \<Rightarrow> os_file \<times> (io_error + preallocation_method)" where
  "prepare ops f len = (if len = 0 then set_len_then f 0 NotNeeded else prepare_with ops f len)"

text \<open>\<open>ERROR_INVALID_FUNCTION\<close>, \<open>ERROR_NOT_SUPPORTED\<close> and \<open>ERROR_INVALID_PARAMETER\<close> on Windows.\<close>

definition is_unsupported_windows :: "io_error \<Rightarrow> bool" where
  "is_unsupported_windows e =
     (case raw_os_error e of None \<Rightarrow> False | Some code \<Rightarrow> code = 1 \<or> code = 50 \<or> code = 87)"

definition prepare_with_windows ::
    "windows_alloc \<Rightarrow> os_file \<Rightarrow> u64 \<Rightarrow> os_file \<times> (io_error + preallocation_method)" where
  "prepare_with_windows ops f len =
     (case wa_request_allocation ops f of
        (f1, Ok _) \<Rightarrow>
          (case file_set_len f1 (unat len) of
             (f2, Err e) \<Rightarrow> (f2, Err e)
           | (f2, Ok _) \<Rightarrow>
               (let (f3, sparse) = wa_mark_sparse ops f2;
                    measured = (case wa_allocated_size ops f3 of
                                  Err e \<Rightarrow> (f3, Err e)
                                | Ok n \<Rightarrow> (f3, Ok (if n \<ge> len then FileAllocationInfo else SetLength)))
                in case sparse of
                     Err e \<Rightarrow> if \<not> is_unsupported_windows e then (f3, Err e) else measured
                   | Ok _ \<Rightarrow> measured))
      | (f1, Err e) \<Rightarrow>
          if \<not> is_unsupported_windows e then (f1, Err e)
          else
            (let (f2, sparse) = wa_mark_sparse ops f1 in
             case sparse of
               Err e2 \<Rightarrow> if \<not> is_unsupported_windows e2 then (f2, Err e2) else set_len_then f2 len SetLength
             | Ok _ \<Rightarrow> set_len_then f2 len SetLength))"

section \<open>Operations\<close>

definition i64_max :: nat where
  "i64_max = 2 ^ 63 - 1"

text \<open>\<open>opened\<close> is the answer of the exclusive \<open>open\<close>; a fresh file is empty.\<close>

definition pf_create ::
    "linux_alloc \<Rightarrow> (path \<Rightarrow> io_error + os_file) \<Rightarrow> path \<Rightarrow> u64 \<Rightarrow> part_file_error + part_file" where
  "pf_create ops open_new target total_length =
     (if unat total_length > i64_max then Err (UnsupportedLength total_length)
      else and_then (part_path_for target) (\<lambda>p.
        case open_new p of
          Err e \<Rightarrow> if io_kind_of e = IoAlreadyExists then Err (AlreadyExists p)
                   else Err (PartIo ''create part file exclusively'' p e)
        | Ok f \<Rightarrow>
            (case prepare ops f total_length of
               (f1, Err e) \<Rightarrow> Err (PartIo ''prepare part-file extent'' p e)
             | (f1, Ok m) \<Rightarrow>
                 Ok \<lparr>pf_file = f1, pf_path = p, pf_total_length = total_length, pf_method = m\<rparr>)))"

definition pf_create_growable ::
    "(path \<Rightarrow> io_error + os_file) \<Rightarrow> path \<Rightarrow> part_file_error + part_file" where
  "pf_create_growable open_new target =
     and_then (part_path_for target) (\<lambda>p.
       case open_new p of
         Err e \<Rightarrow> if io_kind_of e = IoAlreadyExists then Err (AlreadyExists p)
                  else Err (PartIo ''create growable part file exclusively'' p e)
       | Ok f \<Rightarrow> Ok \<lparr>pf_file = f, pf_path = p, pf_total_length = 0, pf_method = SetLength\<rparr>)"

text \<open>\<open>blocks\<close> answers the 512-byte block count of the file's metadata.\<close>

definition pf_allocated_size :: "(os_file \<Rightarrow> io_error + u64) \<Rightarrow> part_file \<Rightarrow> part_file_error + u64" where
  "pf_allocated_size blocks pf =
     (case blocks (pf_file pf) of
        Err e \<Rightarrow> Err (PartIo ''query part-file allocation'' (pf_path pf) e)
      | Ok n \<Rightarrow> Ok (saturating_mul n 512))"

text \<open>
  \<open>file_len\<close> answers \<open>metadata().len()\<close>.  The file is handed back on every path on which it was
  opened, since preparation may have grown it before failing.
\<close>

definition pf_open_existing ::
    "linux_alloc \<Rightarrow> (os_file \<Rightarrow> io_error + u64) \<Rightarrow> (os_file \<Rightarrow> io_error + u64) \<Rightarrow> (path \<Rightarrow> io_error + os_file) \<Rightarrow>
     path \<Rightarrow> u64 \<Rightarrow> os_file option \<times> (part_file_error + recovered_part_file)" where
  "pf_open_existing ops file_len blocks open_rw p total_length =
     (if unat total_length > i64_max then (None, Err (UnsupportedLength total_length))
      else
        (case open_rw p of
           Err e \<Rightarrow> (None, if io_kind_of e = IoNotFound then Err (Missing p)
                            else Err (PartIo ''reopen part file for recovery'' p e))
         | Ok f \<Rightarrow>
             (case file_len f of
                Err e \<Rightarrow> (Some f, Err (PartIo ''measure recovered part-file extent'' p e))
              | Ok observed \<Rightarrow>
                  if observed < total_length then
                    (case prepare ops f total_length of
                       (f1, Err e) \<Rightarrow> (Some f1, Err (PartIo ''restore part-file extent'' p e))
                     | (f1, Ok m) \<Rightarrow>
                         (Some f1,
                          Ok \<lparr>rp_part = \<lparr>pf_file = f1, pf_path = p, pf_total_length = total_length, pf_method = m\<rparr>,
                              rp_observed_length = observed, rp_reextended = True,
                              rp_space_reserved = method_space_reserved m\<rparr>))
                  else
                    (let part = \<lparr>pf_file = f, pf_path = p, pf_total_length = total_length,
                                 pf_method = SetLength\<rparr> in
                     case pf_allocated_size blocks part of
                       Err e \<Rightarrow> (Some f, Err e)
                     | Ok n \<Rightarrow>
                         (Some f,
                          Ok \<lparr>rp_part = part, rp_observed_length = observed, rp_reextended = False,
                              rp_space_reserved = (n \<ge> total_length)\<rparr>)))))"

definition pf_extend_to :: "part_file \<Rightarrow> u64 \<Rightarrow> part_file \<times> (part_file_error + unit)" where
  "pf_extend_to pf new_length =
     (if new_length < pf_total_length pf
      then (pf, Err (CannotShrink (pf_total_length pf) new_length))
      else if new_length = pf_total_length pf then (pf, Ok ())
      else
        (case file_set_len (pf_file pf) (unat new_length) of
           (f1, Err e) \<Rightarrow>
             (pf\<lparr>pf_file := f1\<rparr>, Err (PartIo ''extend growable part-file extent'' (pf_path pf) e))
         | (f1, Ok _) \<Rightarrow> (pf\<lparr>pf_file := f1, pf_total_length := new_length\<rparr>, Ok ())))"

definition pf_write_all_at :: "part_file \<Rightarrow> u64 \<Rightarrow> bytes \<Rightarrow> part_file \<times> (part_file_error + unit)" where
  "pf_write_all_at pf off bs =
     (case try_from_nat (length bs) :: u64 option of
        None \<Rightarrow> (pf, Err BufferTooLarge)
      | Some len \<Rightarrow>
          if \<not> (case checked_add off len of None \<Rightarrow> False | Some e \<Rightarrow> e \<le> pf_total_length pf)
          then (pf, Err (OutOfBounds off len (pf_total_length pf)))
          else
            (case file_write_at (pf_file pf) (unat off) bs of
               (f1, Err e) \<Rightarrow>
                 (pf\<lparr>pf_file := f1\<rparr>, Err (PartIo ''write part-file bytes positionally'' (pf_path pf) e))
             | (f1, Ok _) \<Rightarrow> (pf\<lparr>pf_file := f1\<rparr>, Ok ())))"

definition pf_sync_data :: "part_file \<Rightarrow> part_file \<times> (part_file_error + unit)" where
  "pf_sync_data pf =
     (case file_sync (pf_file pf) of
        (f1, Err e) \<Rightarrow> (pf\<lparr>pf_file := f1\<rparr>, Err (PartIo ''synchronise part-file data'' (pf_path pf) e))
      | (f1, Ok _) \<Rightarrow> (pf\<lparr>pf_file := f1\<rparr>, Ok ()))"

section \<open>Well-formedness\<close>

text \<open>The logical length of the file is at least the accepted extent.\<close>

definition pf_wf :: "part_file \<Rightarrow> bool" where
  "pf_wf pf = (unat (pf_total_length pf) \<le> length (f_cache (pf_file pf)))"

section \<open>Lemmas\<close>

lemma set_len_then_Ok:
  "set_len_then f len m = (g, Ok m') \<Longrightarrow> m' = m \<and>
     f_cache g = take (unat len) (f_cache f) @ replicate (unat len - length (f_cache f)) 0"
  by (auto simp: set_len_then_def file_set_len_def split: prod.splits sum.splits fault.splits
      dest: next_fault_content)

lemma set_len_then_Err:
  "set_len_then f len m = (g, Err e) \<Longrightarrow> f_cache g = f_cache f"
  by (auto simp: set_len_then_def file_set_len_def split: prod.splits sum.splits fault.splits
      dest: next_fault_content)

text \<open>Documented behaviour of the allocation calls: they never drop or change existing bytes.\<close>

definition alloc_keeps :: "(os_file \<Rightarrow> os_file \<times> (io_error + unit)) \<Rightarrow> bool" where
  "alloc_keeps op =
     (\<forall>f. length (f_cache f) \<le> length (f_cache (fst (op f))) \<and>
          take (length (f_cache f)) (f_cache (fst (op f))) = f_cache f)"

lemma keeps_grow:
  assumes "take n b = a" and "length a = n" and "n \<le> length b" and "n \<le> k"
  shows "take n (take k b @ replicate (k - length b) 0) = a"
  using assms by (auto simp: min_def)

lemma set_len_then_keeps:
  assumes "set_len_then f len m = (g, res)" and "take n (f_cache f) = a" and "length a = n"
    and "n \<le> length (f_cache f)" and "n \<le> unat len"
  shows "n \<le> length (f_cache g) \<and> take n (f_cache g) = a"
proof (cases res)
  case (Inl e)
  then show ?thesis
    using assms set_len_then_Err [of f len m g e] by simp
next
  case (Inr m')
  then have "f_cache g = take (unat len) (f_cache f) @ replicate (unat len - length (f_cache f)) 0"
    using assms(1) set_len_then_Ok by blast
  then show ?thesis
    using assms keeps_grow [OF assms(2-5)] by simp
qed

lemma prepare_keeps:
  assumes "alloc_keeps (la_fallocate_keep_size ops)" and "alloc_keeps (la_posix_fallocate ops)"
    and "length (f_cache f) \<le> unat len" and "prepare ops f len = (g, res)"
  shows "length (f_cache f) \<le> length (f_cache g) \<and> take (length (f_cache f)) (f_cache g) = f_cache f"
proof -
  obtain f1 r1 where f1: "la_fallocate_keep_size ops f = (f1, r1)"
    by (cases "la_fallocate_keep_size ops f")
  obtain f2 r2 where f2: "la_posix_fallocate ops f1 = (f2, r2)"
    by (cases "la_posix_fallocate ops f1")
  let ?n = "length (f_cache f)"
  have k1: "?n \<le> length (f_cache f1)" "take ?n (f_cache f1) = f_cache f"
    using assms(1) f1 by (metis alloc_keeps_def fst_conv)+
  have "length (f_cache f1) \<le> length (f_cache f2)" "take (length (f_cache f1)) (f_cache f2) = f_cache f1"
    using assms(2) f2 by (metis alloc_keeps_def fst_conv)+
  then have k2: "?n \<le> length (f_cache f2)" "take ?n (f_cache f2) = f_cache f"
    using k1 by (simp, metis min.absorb1 take_take)
  show ?thesis
  proof (cases "len = 0")
    case True
    then show ?thesis
      using assms(3,4) set_len_then_keeps [of f 0 NotNeeded g res 0 "[]"] by (simp add: prepare_def)
  next
    case False
    then show ?thesis
      using assms(3,4) k1 k2 f1 f2
        set_len_then_keeps [of f1 len _ g res ?n "f_cache f"]
        set_len_then_keeps [of f2 len _ g res ?n "f_cache f"]
      by (auto simp: prepare_def prepare_with_def split: sum.splits if_splits)
  qed
qed

section \<open>Properties\<close>

text \<open>
  Preparation is truthful: on success the file has exactly the requested length, a method that
  claims reserved space was really granted by the corresponding allocation call (or nothing was
  needed), and the non-reserving fallback is chosen only when both calls are unsupported, so a full
  disk is never hidden behind it.
\<close>

theorem prepare_truthful:
  assumes "prepare ops f len = (g, Ok m)"
  shows "length (f_cache g) = unat len \<and>
    (case m of
       NotNeeded \<Rightarrow> len = 0
     | FallocateKeepSize \<Rightarrow> snd (la_fallocate_keep_size ops f) = Ok ()
     | PosixFallocate \<Rightarrow> snd (la_posix_fallocate ops (fst (la_fallocate_keep_size ops f))) = Ok ()
     | FileAllocationInfo \<Rightarrow> False
     | SetLength \<Rightarrow> (\<exists>e e2. snd (la_fallocate_keep_size ops f) = Err e \<and> is_unsupported e \<and>
         snd (la_posix_fallocate ops (fst (la_fallocate_keep_size ops f))) = Err e2 \<and> is_unsupported e2))"
  using assms
  by (auto simp: prepare_def prepare_with_def split: if_splits prod.splits sum.splits
      dest!: set_len_then_Ok)

definition demo_alloc :: linux_alloc where
  "demo_alloc =
     \<lparr>la_fallocate_keep_size = (\<lambda>f. (f, Err (IoError IoOther (Some 95)))),
      la_posix_fallocate = (\<lambda>f. (f, Ok ()))\<rparr>"

theorem prepare_truthful_witness:
  "length (f_cache (fst (prepare demo_alloc \<lparr>f_cache = [], f_stable = [], f_faults = []\<rparr> 3))) = 3"
proof -
  let ?p = "prepare demo_alloc \<lparr>f_cache = [], f_stable = [], f_faults = []\<rparr> 3"
  have "snd ?p = Ok PosixFallocate"
    by (simp add: prepare_def prepare_with_def demo_alloc_def is_unsupported_def set_len_then_def
        file_set_len_def next_fault_def)
  then have "?p = (fst ?p, Ok PosixFallocate)"
    by (metis prod.collapse)
  then show ?thesis
    using prepare_truthful by fastforce
qed

lemma open_existing_keeps:
  assumes "alloc_keeps (la_fallocate_keep_size ops)" and "alloc_keeps (la_posix_fallocate ops)"
    and "\<forall>g n. file_len g = Ok n \<longrightarrow> unat n = length (f_cache g)"
    and "open_rw p = Ok f" and "pf_open_existing ops file_len blocks open_rw p len = (Some g, res)"
  shows "length (f_cache f) \<le> length (f_cache g) \<and> take (length (f_cache f)) (f_cache g) = f_cache f"
proof (cases "\<exists>n. file_len f = Ok n \<and> n < len")
  case True
  then have "length (f_cache f) \<le> unat len"
    using assms(3) by (auto simp: word_lt_unat)
  then show ?thesis
    using prepare_keeps [OF assms(1,2)] assms(4,5) True
    by (auto simp: pf_open_existing_def split: if_splits prod.splits sum.splits)
next
  case False
  then have "g = f"
    using assms(4,5)
    by (auto simp: pf_open_existing_def Let_def split: if_splits sum.splits)
  then show ?thesis
    by simp
qed

text \<open>
  C34.  Reopening for recovery never loses a byte: provided the allocation calls keep existing bytes
  and the length query is right, every outcome of \<open>open_existing\<close>, errors included, leaves all bytes
  that were in the file in place, and never shortens it.
\<close>

theorem open_existing_keeps_bytes:
  assumes "alloc_keeps (la_fallocate_keep_size ops)" and "alloc_keeps (la_posix_fallocate ops)"
    and "\<forall>g n. file_len g = Ok n \<longrightarrow> unat n = length (f_cache g)"
    and "open_rw p = Ok f" and "pf_open_existing ops file_len blocks open_rw p len = (Some g, res)"
  shows "length (f_cache f) \<le> length (f_cache g) \<and> take (length (f_cache f)) (f_cache g) = f_cache f"
  using assms by (rule open_existing_keeps)

theorem open_existing_keeps_bytes_witness:
  "\<exists>g res. pf_open_existing \<lparr>la_fallocate_keep_size = (\<lambda>f. (f, Ok ())), la_posix_fallocate = (\<lambda>f. (f, Ok ()))\<rparr>
       (\<lambda>f. if length (f_cache f) < 2 ^ 64 then Ok (of_nat (length (f_cache f))) else Err (io_new IoOther))
       (\<lambda>_. Ok 0) (\<lambda>_. Ok \<lparr>f_cache = [1, 2], f_stable = [], f_faults = []\<rparr>) ''x.dppart'' 5 = (Some g, res) \<and>
     take 2 (f_cache g) = [1, 2]"
proof -
  let ?ops = "\<lparr>la_fallocate_keep_size = (\<lambda>f. (f, Ok ())), la_posix_fallocate = (\<lambda>f. (f, Ok ()))\<rparr> :: linux_alloc"
  let ?len = "\<lambda>f :: os_file. if length (f_cache f) < 2 ^ 64 then Ok (of_nat (length (f_cache f)))
      else Err (io_new IoOther) :: io_error + u64"
  let ?open = "\<lambda>_ :: path. Ok \<lparr>f_cache = [1, 2], f_stable = [], f_faults = []\<rparr> :: io_error + os_file"
  have keeps: "alloc_keeps (la_fallocate_keep_size ?ops)" "alloc_keeps (la_posix_fallocate ?ops)"
    by (simp_all add: alloc_keeps_def)
  have len: "\<forall>g n. ?len g = Ok n \<longrightarrow> unat n = length (f_cache g)"
    by (auto simp: unat_of_nat split: if_splits)
  obtain g res where r: "pf_open_existing ?ops ?len (\<lambda>_. Ok 0) ?open ''x.dppart'' 5 = (Some g, res)"
    by (simp add: pf_open_existing_def i64_max_def prepare_def prepare_with_def set_len_then_def
        file_set_len_def next_fault_def)
  have "take 2 (f_cache g) = [1, 2]"
    using open_existing_keeps_bytes [OF keeps len _ r] by (simp add: numeral_2_eq_2)
  with r show ?thesis
    by blast
qed

end
