(* ===== verification/DurableWriter.thy ===== *)
theory DurableWriter
  imports IntervalMap JournalReplay JournalState PartFile
begin

text \<open>
  The durable writer of \<open>downpour-storage/src/writer.rs\<close>: blocks are written, then the data is
  synchronised, then their records are appended, then the journal is synchronised, and only then do
  the bytes become \<open>Complete\<close> in the interval map.  The traits \<open>DurableData\<close> and \<open>DurableJournal\<close>
  are records of functions handed to the writer's operations; \<open>PartFile\<close> and \<open>JournalFile\<close> are the
  instances the program uses.  The content hash comes from the \<open>blake3\<close> crate and is a parameter.
  A duration is its number of nanoseconds.

  The contract the two traits promise is the locale \<open>durable_store\<close>; the writer's safety invariant
  is proved once against it and obtained for the real files by interpretation.
\<close>

section \<open>Data\<close>

definition JOURNAL_FLUSH_INTERVAL :: nat where
  "JOURNAL_FLUSH_INTERVAL = 2 * 10 ^ 9"

definition JOURNAL_FLUSH_BYTES :: u64 where
  "JOURNAL_FLUSH_BYTES = 8 * 1024 * 1024"

datatype writer_error =
    WePartFile part_file_error
  | WeFormat format_error
  | WeInterval interval_map_error
  | WeIo string io_error
  | WeJournalAlreadyExists path
  | WeLengthMismatch u64 u64
  | WeIntervalLengthMismatch u64 u64
  | WeEmptyBlock
  | WeBlockTooLarge u64
  | WeRangeOverflow u64 u64
  | WeOverlappingStaged u64 u64 u64 u64
  | WeBatchLengthOverflow
  | WeSequenceExhausted
  | WeNoSpace u64
  | WePoisoned

record 'd durable_data =
  dd_total_length :: "'d \<Rightarrow> u64"
  dd_write_all_at :: "'d \<Rightarrow> u64 \<Rightarrow> bytes \<Rightarrow> 'd \<times> (writer_error + unit)"
  dd_sync_data :: "'d \<Rightarrow> 'd \<times> (writer_error + unit)"

record 'j durable_journal =
  dj_total_length :: "'j \<Rightarrow> u64"
  dj_append :: "'j \<Rightarrow> framed_record \<Rightarrow> 'j \<times> (writer_error + unit)"
  dj_sync_data :: "'j \<Rightarrow> 'j \<times> (writer_error + unit)"

record staged_block =
  sb_range :: range64
  sb_record_length :: u32
  sb_worker :: worker_id
  sb_blake3 :: bytes

record durable_block =
  db_sequence :: u64
  db_range :: range64
  db_worker :: worker_id
  db_blake3 :: bytes

record ('d, 'j) durable_writer =
  dw_data :: 'd
  dw_journal :: 'j
  dw_next_sequence :: u64
  dw_staged :: "staged_block list"
  dw_staged_bytes :: u64
  dw_first_staged_at :: "nat option"
  dw_poisoned :: bool
  dw_disk_full_at :: "u64 option"
  dw_durable_bytes :: u64

section \<open>The two implementations\<close>

definition part_file_data :: "part_file durable_data" where
  "part_file_data =
     \<lparr>dd_total_length = pf_total_length,
      dd_write_all_at = (\<lambda>pf off bs. case pf_write_all_at pf off bs of
         (pf', Err e) \<Rightarrow> (pf', Err (WePartFile e)) | (pf', Ok _) \<Rightarrow> (pf', Ok ())),
      dd_sync_data = (\<lambda>pf. case pf_sync_data pf of
         (pf', Err e) \<Rightarrow> (pf', Err (WePartFile e)) | (pf', Ok _) \<Rightarrow> (pf', Ok ()))\<rparr>"

record journal_file =
  jf_file :: os_file
  jf_path :: path
  jf_total_length :: u64

text \<open>\<open>sync_parent\<close> answers the synchronisation of the directory (always \<open>Ok\<close> off Unix).\<close>

definition jf_create ::
    "(bytes \<Rightarrow> u32) \<Rightarrow> (path \<Rightarrow> io_error + os_file) \<Rightarrow> (path \<Rightarrow> io_error + unit) \<Rightarrow>
     path \<Rightarrow> file_header \<Rightarrow> writer_error + journal_file" where
  "jf_create crc open_new sync_parent p header =
     (case open_new p of
        Err e \<Rightarrow> if io_kind_of e = IoAlreadyExists then Err (WeJournalAlreadyExists p)
                 else Err (WeIo ''create recovery journal exclusively'' e)
      | Ok f \<Rightarrow>
          (case file_append f (encode_header crc header) of
             (f1, Err e) \<Rightarrow> Err (WeIo ''write recovery-journal header'' e)
           | (f1, Ok _) \<Rightarrow>
               (case file_sync f1 of
                  (f2, Err e) \<Rightarrow> Err (WeIo ''synchronise recovery-journal header'' e)
                | (f2, Ok _) \<Rightarrow>
                    (case sync_parent p of
                       Err e \<Rightarrow> Err (WeIo ''synchronise recovery-journal directory'' e)
                     | Ok _ \<Rightarrow> Ok \<lparr>jf_file = f2, jf_path = p,
                                  jf_total_length = fh_total_length header\<rparr>))))"

definition jf_append ::
    "(bytes \<Rightarrow> u32) \<Rightarrow> journal_file \<Rightarrow> framed_record \<Rightarrow> journal_file \<times> (writer_error + unit)" where
  "jf_append crc jf r =
     (case encode_record crc r of
        Err e \<Rightarrow> (jf, Err (WeFormat e))
      | Ok encoded \<Rightarrow>
          (case file_append (jf_file jf) encoded of
             (f1, Err e) \<Rightarrow> (jf\<lparr>jf_file := f1\<rparr>, Err (WeIo ''append recovery-journal record'' e))
           | (f1, Ok _) \<Rightarrow> (jf\<lparr>jf_file := f1\<rparr>, Ok ())))"

definition jf_sync_data :: "journal_file \<Rightarrow> journal_file \<times> (writer_error + unit)" where
  "jf_sync_data jf =
     (case file_sync (jf_file jf) of
        (f1, Err e) \<Rightarrow> (jf\<lparr>jf_file := f1\<rparr>, Err (WeIo ''synchronise recovery-journal records'' e))
      | (f1, Ok _) \<Rightarrow> (jf\<lparr>jf_file := f1\<rparr>, Ok ()))"

definition journal_file_journal :: "(bytes \<Rightarrow> u32) \<Rightarrow> journal_file durable_journal" where
  "journal_file_journal crc =
     \<lparr>dj_total_length = jf_total_length, dj_append = jf_append crc, dj_sync_data = jf_sync_data\<rparr>"

section \<open>Operations of the writer\<close>

definition dw_try_new ::
    "'d durable_data \<Rightarrow> 'j durable_journal \<Rightarrow> 'd \<Rightarrow> 'j \<Rightarrow> u64 \<Rightarrow> writer_error + ('d, 'j) durable_writer" where
  "dw_try_new D J data journal next_sequence =
     (if dd_total_length D data \<noteq> dj_total_length J journal
      then Err (WeLengthMismatch (dd_total_length D data) (dj_total_length J journal))
      else Ok \<lparr>dw_data = data, dw_journal = journal, dw_next_sequence = next_sequence, dw_staged = [],
               dw_staged_bytes = 0, dw_first_staged_at = None, dw_poisoned = False,
               dw_disk_full_at = None, dw_durable_bytes = 0\<rparr>)"

definition ensure_usable :: "('d, 'j) durable_writer \<Rightarrow> writer_error + unit" where
  "ensure_usable w = (if dw_poisoned w then Err WePoisoned else Ok ())"

definition ensure_interval_identity ::
    "'d durable_data \<Rightarrow> ('d, 'j) durable_writer \<Rightarrow> interval_map \<Rightarrow> writer_error + unit" where
  "ensure_interval_identity D w m =
     (if im_total_length m = dd_total_length D (dw_data w) then Ok ()
      else Err (WeIntervalLengthMismatch (dd_total_length D (dw_data w)) (im_total_length m)))"

definition ensure_current_grant :: "interval_map \<Rightarrow> range64 \<Rightarrow> worker_id \<Rightarrow> writer_error + unit" where
  "ensure_current_grant m r worker = map_err WeInterval (snd (im_complete m r worker))"

definition ensure_not_staged :: "('d, 'j) durable_writer \<Rightarrow> range64 \<Rightarrow> writer_error + unit" where
  "ensure_not_staged w r =
     (case find (\<lambda>b. fst (sb_range b) < snd r \<and> fst r < snd (sb_range b)) (dw_staged w) of
        Some b \<Rightarrow> Err (WeOverlappingStaged (fst (sb_range b)) (snd (sb_range b)) (fst r) (snd r))
      | None \<Rightarrow> Ok ())"

definition no_space_offset :: "platform \<Rightarrow> writer_error \<Rightarrow> u64 \<Rightarrow> u64 option" where
  "no_space_offset plat e off =
     (let classify = (\<lambda>src. case raw_os_error src of
             None \<Rightarrow> None
           | Some raw \<Rightarrow>
               if (plat = Unix \<and> raw = 28) \<or> (plat = Windows \<and> (raw = 39 \<or> raw = 112))
               then Some off else None)
      in case e of
           WePartFile (PartIo _ _ src) \<Rightarrow> classify src
         | WeIo _ src \<Rightarrow> classify src
         | WeNoSpace o' \<Rightarrow> Some o'
         | _ \<Rightarrow> None)"

text \<open>The candidate map: every staged range completed in turn.\<close>

fun complete_staged :: "interval_map \<Rightarrow> staged_block list \<Rightarrow> interval_map_error + interval_map" where
  "complete_staged m [] = Ok m"
| "complete_staged m (b # bs) =
     (case im_complete m (sb_range b) (sb_worker b) of
        (m', Err e) \<Rightarrow> Err e
      | (m', Ok _) \<Rightarrow> complete_staged m' bs)"

text \<open>The records and the reported blocks of a batch; \<open>i\<close> is the index in the batch.\<close>

fun number_staged ::
    "u64 \<Rightarrow> nat \<Rightarrow> staged_block list \<Rightarrow> writer_error + (framed_record list \<times> durable_block list)" where
  "number_staged base i [] = Ok ([], [])"
| "number_staged base i (b # bs) =
     (case (try_from_nat i :: u64 option) of
        None \<Rightarrow> Err WeSequenceExhausted
      | Some index \<Rightarrow>
          (case checked_add base index of
             None \<Rightarrow> Err WeSequenceExhausted
           | Some sequence \<Rightarrow>
               and_then (number_staged base (Suc i) bs) (\<lambda>(rs, ds).
                 Ok (\<lparr>fr_sequence = sequence,
                      fr_record = BlockComplete (fst (sb_range b)) (sb_record_length b) (sb_blake3 b)\<rparr> # rs,
                     \<lparr>db_sequence = sequence, db_range = sb_range b, db_worker = sb_worker b,
                      db_blake3 = sb_blake3 b\<rparr> # ds))))"

fun append_all ::
    "'j durable_journal \<Rightarrow> 'j \<Rightarrow> framed_record list \<Rightarrow> 'j \<times> (writer_error + unit)" where
  "append_all J j [] = (j, Ok ())"
| "append_all J j (r # rs) =
     (case dj_append J j r of
        (j', Err e) \<Rightarrow> (j', Err e)
      | (j', Ok _) \<Rightarrow> append_all J j' rs)"

definition dw_flush ::
    "'d durable_data \<Rightarrow> 'j durable_journal \<Rightarrow> ('d, 'j) durable_writer \<Rightarrow> interval_map \<Rightarrow>
     ('d, 'j) durable_writer \<times> interval_map \<times> (writer_error + durable_block list)" where
  "dw_flush D J w m =
     (case ensure_usable w of Err e \<Rightarrow> (w, m, Err e) | Ok _ \<Rightarrow>
     (case ensure_interval_identity D w m of Err e \<Rightarrow> (w, m, Err e) | Ok _ \<Rightarrow>
     if dw_staged w = [] then (w, m, Ok []) else
     (case complete_staged m (dw_staged w) of
        Err e \<Rightarrow> (w\<lparr>dw_poisoned := True\<rparr>, m, Err (WeInterval e))
      | Ok next_intervals \<Rightarrow>
     (case (try_from_nat (length (dw_staged w)) :: u64 option) of
        None \<Rightarrow> (w, m, Err WeSequenceExhausted)
      | Some record_count \<Rightarrow>
     (case checked_add (dw_next_sequence w) record_count of
        None \<Rightarrow> (w, m, Err WeSequenceExhausted)
      | Some next_sequence \<Rightarrow>
     (case number_staged (dw_next_sequence w) 0 (dw_staged w) of
        Err e \<Rightarrow> (w, m, Err e)
      | Ok (records, completed) \<Rightarrow>
     (case dd_sync_data D (dw_data w) of
        (d', Err e) \<Rightarrow> (w\<lparr>dw_data := d', dw_poisoned := True\<rparr>, m, Err e)
      | (d', Ok _) \<Rightarrow>
     (case append_all J (dw_journal w) records of
        (j', Err e) \<Rightarrow> (w\<lparr>dw_data := d', dw_journal := j', dw_poisoned := True\<rparr>, m, Err e)
      | (j', Ok _) \<Rightarrow>
     (case dj_sync_data J j' of
        (j'', Err e) \<Rightarrow> (w\<lparr>dw_data := d', dw_journal := j'', dw_poisoned := True\<rparr>, m, Err e)
      | (j'', Ok _) \<Rightarrow>
          (w\<lparr>dw_data := d', dw_journal := j'', dw_next_sequence := next_sequence,
             dw_durable_bytes :=
               foldl (\<lambda>acc b. saturating_add acc (snd (db_range b) - fst (db_range b)))
                 (dw_durable_bytes w) completed,
             dw_staged := [], dw_staged_bytes := 0, dw_first_staged_at := None\<rparr>,
           next_intervals, Ok completed))))))))))"

definition dw_flush_if_due ::
    "'d durable_data \<Rightarrow> 'j durable_journal \<Rightarrow> ('d, 'j) durable_writer \<Rightarrow> interval_map \<Rightarrow> nat \<Rightarrow>
     ('d, 'j) durable_writer \<times> interval_map \<times> (writer_error + durable_block list)" where
  "dw_flush_if_due D J w m now =
     (case ensure_usable w of Err e \<Rightarrow> (w, m, Err e) | Ok _ \<Rightarrow>
      if (case dw_first_staged_at w of
            None \<Rightarrow> False
          | Some started \<Rightarrow> started \<le> now \<and> now - started \<ge> JOURNAL_FLUSH_INTERVAL)
      then dw_flush D J w m else (w, m, Ok []))"

text \<open>The last step of \<open>stage\<close>: the block is recorded and the byte bound may flush the batch.\<close>

definition push_staged ::
    "'d durable_data \<Rightarrow> 'j durable_journal \<Rightarrow> ('d, 'j) durable_writer \<Rightarrow> interval_map \<Rightarrow> staged_block \<Rightarrow> u64 \<Rightarrow> nat \<Rightarrow>
     ('d, 'j) durable_writer \<times> interval_map \<times> (writer_error + durable_block list)" where
  "push_staged D J w m block next_staged_bytes now =
     (let w' = w\<lparr>dw_staged := dw_staged w @ [block], dw_staged_bytes := next_staged_bytes,
                 dw_first_staged_at :=
                   (case dw_first_staged_at w of None \<Rightarrow> Some now | Some t \<Rightarrow> Some t)\<rparr>
      in if next_staged_bytes \<ge> JOURNAL_FLUSH_BYTES then dw_flush D J w' m else (w', m, Ok []))"

definition dw_stage ::
    "platform \<Rightarrow> (bytes \<Rightarrow> bytes) \<Rightarrow> 'd durable_data \<Rightarrow> 'j durable_journal \<Rightarrow> ('d, 'j) durable_writer \<Rightarrow>
     interval_map \<Rightarrow> worker_id \<Rightarrow> u64 \<Rightarrow> bytes \<Rightarrow> nat \<Rightarrow>
     ('d, 'j) durable_writer \<times> interval_map \<times> (writer_error + durable_block list)" where
  "dw_stage plat blake3 D J w m worker off bs now =
     (case ensure_usable w of Err e \<Rightarrow> (w, m, Err e) | Ok _ \<Rightarrow>
     (case ensure_interval_identity D w m of Err e \<Rightarrow> (w, m, Err e) | Ok _ \<Rightarrow>
     if bs = [] then (w, m, Err WeEmptyBlock) else
     (case (try_from_nat (length bs) :: u64 option) of
        None \<Rightarrow> (w, m, Err (WeBlockTooLarge (- 1)))
      | Some len \<Rightarrow>
     (case (try_from_nat (unat len) :: u32 option) of
        None \<Rightarrow> (w, m, Err (WeBlockTooLarge len))
      | Some record_length \<Rightarrow>
     (case checked_add off len of
        None \<Rightarrow> (w, m, Err (WeRangeOverflow off len))
      | Some end' \<Rightarrow>
     (case ensure_current_grant m (off, end') worker of Err e \<Rightarrow> (w, m, Err e) | Ok _ \<Rightarrow>
     (case ensure_not_staged w (off, end') of Err e \<Rightarrow> (w, m, Err e) | Ok _ \<Rightarrow>
     (case checked_add (dw_staged_bytes w) len of
        None \<Rightarrow> (w, m, Err WeBatchLengthOverflow)
      | Some next_staged_bytes \<Rightarrow>
     (case dd_write_all_at D (dw_data w) off bs of
        (d', Err e) \<Rightarrow>
          (case no_space_offset plat e off of
             Some o' \<Rightarrow>
               (let (w1, m1, _) = dw_flush D J (w\<lparr>dw_data := d'\<rparr>) m
                in (w1\<lparr>dw_disk_full_at := Some o'\<rparr>, m1, Err (WeNoSpace o')))
           | None \<Rightarrow> (w\<lparr>dw_data := d', dw_poisoned := True\<rparr>, m, Err e))
      | (d', Ok _) \<Rightarrow>
          push_staged D J (w\<lparr>dw_data := d'\<rparr>) m
            \<lparr>sb_range = (off, end'), sb_record_length = record_length, sb_worker = worker,
             sb_blake3 = blake3 bs\<rparr> next_staged_bytes now)))))))))"

definition has_staged_work :: "('d, 'j) durable_writer \<Rightarrow> bool" where
  "has_staged_work w = (dw_staged w \<noteq> [])"

section \<open>Blocks of a record sequence\<close>

fun record_block :: "journal_record \<Rightarrow> completed_block" where
  "record_block (BlockComplete off len d) = \<lparr>cb_offset = off, cb_len = len, cb_blake3 = d\<rparr>"
| "record_block _ = \<lparr>cb_offset = 0, cb_len = 0, cb_blake3 = []\<rparr>"

abbreviation frame_block :: "framed_record \<Rightarrow> completed_block" where
  "frame_block r \<equiv> record_block (fr_record r)"

definition apart :: "completed_block \<Rightarrow> completed_block \<Rightarrow> bool" where
  "apart a b = (block_end a \<le> unat (cb_offset b) \<or> block_end b \<le> unat (cb_offset a))"

text \<open>A sequence of block records that one download can have produced.\<close>

definition block_log :: "nat \<Rightarrow> framed_record list \<Rightarrow> bool" where
  "block_log n rs =
     (wf_frames 0 rs \<and> (\<forall>r \<in> set rs. \<exists>off len d. fr_record r = BlockComplete off len d) \<and>
      (\<forall>r \<in> set rs. block_in n (frame_block r)) \<and> sorted_wrt apart (map frame_block rs))"

definition log_covers :: "framed_record list \<Rightarrow> u64 \<Rightarrow> bool" where
  "log_covers rs b =
     (\<exists>r \<in> set rs. unat (cb_offset (frame_block r)) \<le> unat b \<and> unat b < block_end (frame_block r))"

lemma apart_sym: "apart a b \<longleftrightarrow> apart b a"
  by (auto simp: apart_def)

lemma apart_irrefl: "cb_len a \<noteq> 0 \<Longrightarrow> \<not> apart a a"
  by (simp add: apart_def block_end_def unat_gt_0)

lemma sorted_wrt_apart_set:
  assumes "\<forall>b \<in> set bs. cb_len b \<noteq> 0"
  shows "sorted_wrt apart bs \<longleftrightarrow> distinct bs \<and> (\<forall>a \<in> set bs. \<forall>b \<in> set bs. a \<noteq> b \<longrightarrow> apart a b)"
  using assms
proof (induction bs)
  case (Cons a bs)
  have "a \<notin> set bs" if "\<forall>b \<in> set bs. apart a b"
    using apart_irrefl [of a] Cons.prems that by auto
  then show ?case
    using Cons apart_sym by auto
qed simp

lemma sort_before:
  assumes ne: "\<forall>b \<in> set bs. cb_len b \<noteq> 0" and ap: "sorted_wrt apart bs"
  shows "sorted_wrt before (sort_key cb_offset bs)"
proof -
  let ?s = "sort_key cb_offset bs"
  have d: "distinct ?s" and pw: "\<And>a b. a \<in> set ?s \<Longrightarrow> b \<in> set ?s \<Longrightarrow> a \<noteq> b \<Longrightarrow> apart a b"
    using sorted_wrt_apart_set [OF ne] ap by auto
  have "before (?s ! i) (?s ! j)" if "i < j" "j < length ?s" for i j
  proof -
    have mem: "?s ! i \<in> set ?s" "?s ! j \<in> set ?s"
      using that by (intro nth_mem; simp)+
    have "cb_offset (?s ! i) \<le> cb_offset (?s ! j)"
      using sorted_nth_mono [OF sorted_sort_key [of cb_offset bs], of i j] that by simp
    moreover have "?s ! i \<noteq> ?s ! j"
      using d that by (auto simp: nth_eq_iff_index_eq)
    then have "apart (?s ! i) (?s ! j)"
      using pw mem by blast
    moreover have "0 < unat (cb_len (?s ! j))"
      using ne mem by (simp add: unat_gt_0)
    ultimately show ?thesis
      by (auto simp: apart_def before_def block_end_def word_le_unat unat_gt_0)
  qed
  then show ?thesis
    by (simp add: sorted_wrt_iff_nth_less)
qed

lemma wf_frames_take: "wf_frames k rs \<Longrightarrow> wf_frames k (take n rs)"
  by (metis append_take_drop_id wf_frames_append)

lemma block_log_take: "block_log n rs \<Longrightarrow> block_log n (take k rs)"
  by (auto simp: block_log_def wf_frames_take sorted_wrt_take simp flip: take_map dest: in_set_takeD)

lemma log_covers_append [simp]: "log_covers (rs @ ss) b \<longleftrightarrow> log_covers rs b \<or> log_covers ss b"
  by (auto simp: log_covers_def)

lemma surviving_blocks:
  "(\<forall>r \<in> set rs. \<exists>off len d. fr_record r = BlockComplete off len d) \<Longrightarrow>
   surviving rs = map frame_block rs \<and> records_truncates rs = []"
  by (induction rs) auto

lemma apply_records_blocks_Ok:
  assumes "\<forall>r \<in> set rs. \<exists>off len d. fr_record r = BlockComplete off len d"
    and "\<forall>r \<in> set rs. block_in (unat (es_effective_length st)) (frame_block r)"
  shows "apply_records st rs = Ok (st\<lparr>es_blocks := es_blocks st @ map frame_block rs\<rparr>)"
  using assms
proof (induction rs arbitrary: st)
  case (Cons r rs)
  then obtain off len d where r: "fr_record r = BlockComplete off len d"
    by auto
  let ?b = "\<lparr>cb_offset = off, cb_len = len, cb_blake3 = d\<rparr>"
  have in_b: "block_in (unat (es_effective_length st)) ?b"
    using Cons.prems(2) r by auto
  then have lt: "block_end ?b < 2 ^ 64"
    using unat_lt_2p [of "es_effective_length st"] by (simp add: block_in_def)
  then obtain e where e: "cb_end ?b = Ok e" "unat e = block_end ?b"
    using cb_end_Err [of ?b] by (cases "cb_end ?b") (auto simp: cb_end_Ok)
  have "apply_record (rs = []) st (fr_record r) = Ok (st\<lparr>es_blocks := es_blocks st @ [?b]\<rparr>)"
    using in_b e by (simp add: r Let_def block_in_def word_lt_unat)
  then show ?case
    using Cons.IH [of "st\<lparr>es_blocks := es_blocks st @ [?b]\<rparr>"] Cons.prems r by simp
qed simp

text \<open>Such a log always folds, to exactly its blocks.\<close>

lemma block_log_effective:
  assumes "block_log (unat (fh_total_length h)) rs"
  shows "\<exists>st. effective_state h rs = Ok st \<and> set (es_blocks st) = frame_block ` set rs \<and>
    es_effective_length st = fh_total_length h \<and> es_sealed st = None"
proof -
  let ?st = "\<lparr>es_effective_length = fh_total_length h, es_truncate = None, es_identities = [],
      es_blocks = [], es_sealed = None\<rparr>"
  let ?bs = "sort_key cb_offset (map frame_block rs)"
  have ap: "apply_records ?st rs = Ok (?st\<lparr>es_blocks := map frame_block rs\<rparr>)"
    using apply_records_blocks_Ok [of rs ?st] assms by (simp add: block_log_def)
  have "sorted_wrt before ?bs"
    using assms by (intro sort_before) (auto simp: block_log_def block_in_def)
  moreover have "\<forall>b \<in> set ?bs. block_end b < 2 ^ 64"
    using assms unat_lt_2p [of "fh_total_length h"] by (fastforce simp: block_log_def block_in_def)
  ultimately have "check_overlap ?bs = Ok ()"
    by (simp add: check_overlap_Ok)
  then show ?thesis
    using ap by (simp add: effective_state_def Let_def)
qed

section \<open>Torn block logs\<close>

text \<open>A prefix of the bytes of a log is a shorter log followed by a torn frame.\<close>

lemma journal_body_prefix:
  assumes "wf_frames k rs"
  shows "\<exists>m r i. take n (journal_body crc rs) = journal_body crc (take m rs) @ take i (frame_bytes crc r) \<and>
    i < length (frame_bytes crc r) \<and> length (snd (encode_payload (fr_record r))) \<le> MAX_PAYLOAD_LEN \<and>
    (length (journal_body crc (take q rs)) \<le> n \<longrightarrow> q \<le> m \<or> length rs \<le> m)"
  using assms
proof (induction rs arbitrary: k n q)
  case Nil
  have "0 < length (frame_bytes crc \<lparr>fr_sequence = 0, fr_record = Truncate 0\<rparr>)"
    by (simp add: length_frame_bytes)
  then show ?case
    by (intro exI [of _ 0] exI [of _ "\<lparr>fr_sequence = 0, fr_record = Truncate 0\<rparr>"])
       (simp add: MAX_PAYLOAD_LEN_def)
next
  case (Cons r rs)
  show ?case
  proof (cases "n < length (frame_bytes crc r)")
    case True
    have "q = 0 \<or> length (frame_bytes crc r) \<le> length (journal_body crc (take q (r # rs)))"
      by (cases q) simp_all
    then show ?thesis
      using True Cons.prems by (intro exI [of _ 0] exI [of _ r] exI [of _ n]) auto
  next
    case False
    obtain m r' i where IH: "take (n - length (frame_bytes crc r)) (journal_body crc rs) =
        journal_body crc (take m rs) @ take i (frame_bytes crc r')"
      "i < length (frame_bytes crc r')" "length (snd (encode_payload (fr_record r'))) \<le> MAX_PAYLOAD_LEN"
      "length (journal_body crc (take (q - 1) rs)) \<le> n - length (frame_bytes crc r) \<longrightarrow> q - 1 \<le> m \<or> length rs \<le> m"
      using Cons.IH [of "Suc k" "n - length (frame_bytes crc r)" "q - 1"] Cons.prems by auto
    have "length (journal_body crc (take q (r # rs))) \<le> n \<longrightarrow> q \<le> Suc m \<or> length (r # rs) \<le> Suc m"
      using IH(4) False by (cases q) auto
    then show ?thesis
      using IH(1-3) False by (intro exI [of _ "Suc m"] exI [of _ r'] exI [of _ i]) simp
  qed
qed

lemma length_journal_take_mono: "length (journal_body crc (take m rs)) \<le> length (journal_body crc rs)"
  by (metis append_take_drop_id journal_body_simps(3) le_add1 length_append)

text \<open>Replay of a torn log returns a prefix of it, at least as long as the part known complete.\<close>

lemma replay_torn_log:
  assumes "wf_header h" and "wf_frames 0 (rs @ ext)"
    and "length (journal_body crc rs) \<le> n"
    and "length (encode_header crc h @ take n (journal_body crc (rs @ ext))) < 2 ^ 64"
  shows "\<exists>out m. replay_bytes crc (encode_header crc h @ take n (journal_body crc (rs @ ext))) = Ok out \<and>
    ro_header out = h \<and> ro_records out = take m (rs @ ext) \<and> length rs \<le> m"
proof -
  obtain m r i where p: "take n (journal_body crc (rs @ ext)) =
      journal_body crc (take m (rs @ ext)) @ take i (frame_bytes crc r)"
    "i < length (frame_bytes crc r)" "length (snd (encode_payload (fr_record r))) \<le> MAX_PAYLOAD_LEN"
    "length rs \<le> m \<or> length (rs @ ext) \<le> m"
    using journal_body_prefix [OF assms(2), of n crc "length rs"] assms(3) by auto
  have wf: "wf_frames 0 (take m (rs @ ext))"
    using assms(2) by (rule wf_frames_take)
  have len: "length (encode_header crc h @ journal_body crc (take m (rs @ ext)) @ take i (frame_bytes crc r)) < 2 ^ 64"
    using assms(4) by (simp only: p(1))
  show ?thesis
    using replay_of_journal [OF assms(1) wf len] peel_torn(1) [OF p(2,3)] p(1,4)
    by (auto intro!: exI [of _ m])
qed

section \<open>Staged blocks\<close>

definition staged_frame :: "staged_block \<Rightarrow> completed_block" where
  "staged_frame b = \<lparr>cb_offset = fst (sb_range b), cb_len = sb_record_length b, cb_blake3 = sb_blake3 b\<rparr>"

text \<open>A staged block is a non-empty range owned by its worker, with the length it will record.\<close>

definition staged_owned :: "interval_map \<Rightarrow> staged_block \<Rightarrow> bool" where
  "staged_owned m b =
     (fst (sb_range b) < snd (sb_range b) \<and> snd (sb_range b) \<le> im_total_length m \<and>
      unat (snd (sb_range b)) = unat (fst (sb_range b)) + unat (sb_record_length b) \<and>
      length (sb_blake3 b) = 32 \<and>
      (\<forall>n. fst (sb_range b) \<le> n \<and> n < snd (sb_range b) \<longrightarrow> byte_state m n = Some (InProgress (sb_worker b))))"

definition in_staged :: "staged_block list \<Rightarrow> u64 \<Rightarrow> bool" where
  "in_staged bs n = (\<exists>b \<in> set bs. fst (sb_range b) \<le> n \<and> n < snd (sb_range b))"

lemma staged_frame_end: "staged_owned m b \<Longrightarrow> block_end (staged_frame b) = unat (snd (sb_range b))"
  by (simp add: staged_frame_def block_end_def staged_owned_def)

lemma staged_frame_in: "staged_owned m b \<Longrightarrow> block_in (unat (im_total_length m)) (staged_frame b)"
  using staged_frame_end [of m b]
  by (auto simp: block_in_def staged_owned_def staged_frame_def word_lt_unat word_le_unat)

lemma complete_staged_Ok:
  assumes "invariants_hold m" and "\<forall>b \<in> set bs. staged_owned m b"
    and "sorted_wrt apart (map staged_frame bs)"
  shows "\<exists>m'. complete_staged m bs = Ok m' \<and> invariants_hold m' \<and> im_total_length m' = im_total_length m \<and>
    (\<forall>n. byte_state m' n = (if in_staged bs n then Some Complete else byte_state m n))"
  using assms
proof (induction bs arbitrary: m)
  case (Cons b bs)
  let ?m = "fst (im_complete m (sb_range b) (sb_worker b))"
  have own: "staged_owned m b"
    using Cons.prems by simp
  have ok: "snd (im_complete m (sb_range b) (sb_worker b)) = Ok ()"
    using own by (simp add: im_complete_Ok [OF Cons.prems(1)] staged_owned_def)
  note st = im_complete_state [OF Cons.prems(1) ok] im_complete_inv [OF Cons.prems(1), of "sb_range b" "sb_worker b"]
  have "staged_owned ?m c" if c: "c \<in> set bs" for c
  proof -
    have oc: "staged_owned m c" and ap: "apart (staged_frame b) (staged_frame c)"
      using Cons.prems c by auto
    have "snd (sb_range b) \<le> fst (sb_range c) \<or> snd (sb_range c) \<le> fst (sb_range b)"
      using ap staged_frame_end [OF own] staged_frame_end [OF oc]
      by (simp add: apart_def word_le_unat) (simp add: staged_frame_def)
    then show ?thesis
      using oc st by (auto simp: staged_owned_def upd_range_def)
  qed
  then obtain m' where m': "complete_staged ?m bs = Ok m'" "invariants_hold m'"
    "im_total_length m' = im_total_length m"
    "\<forall>n. byte_state m' n = (if in_staged bs n then Some Complete else byte_state ?m n)"
    using Cons.IH [of ?m] Cons.prems(3) st by auto
  have "complete_staged m (b # bs) = Ok m'"
    using ok m'(1) by (simp add: split_beta)
  moreover have "byte_state m' n = (if in_staged (b # bs) n then Some Complete else byte_state m n)" for n
    using m'(4) st(1) by (auto simp: in_staged_def upd_range_def)
  ultimately show ?case
    using m'(2,3) by blast
qed (simp add: in_staged_def)

lemma number_staged_Ok:
  assumes "unat base + i + length bs < 2 ^ 64" and "\<forall>b \<in> set bs. staged_owned m b"
  shows "\<exists>rs ds. number_staged base i bs = Ok (rs, ds) \<and> map frame_block rs = map staged_frame bs \<and>
    wf_frames (unat base + i) rs \<and> (\<forall>r \<in> set rs. \<exists>off len d. fr_record r = BlockComplete off len d) \<and>
    map db_range ds = map sb_range bs"
  using assms
proof (induction bs arbitrary: i)
  case (Cons b bs)
  have i: "i < 2 ^ 64" "unat base + i < 2 ^ 64"
    using Cons.prems(1) by simp_all
  then have u: "unat (of_nat i :: u64) = i"
    by (simp add: unat_of_nat64)
  then have c: "checked_add base (of_nat i) = Some (base + of_nat i)" "unat (base + of_nat i) = unat base + i"
    using i(2) by (simp_all add: checked_add_def unat_word_ariths)
  have t: "(try_from_nat i :: u64 option) = Some (of_nat i)"
    using i(1) by (simp add: try_from_nat_def)
  obtain rs ds where IH: "number_staged base (Suc i) bs = Ok (rs, ds)" "map frame_block rs = map staged_frame bs"
    "wf_frames (unat base + Suc i) rs" "\<forall>r \<in> set rs. \<exists>off len d. fr_record r = BlockComplete off len d"
    "map db_range ds = map sb_range bs"
    using Cons.IH [of "Suc i"] Cons.prems by auto
  show ?case
    using IH Cons.prems(2) c(2)
    by (simp add: t c(1) staged_frame_def staged_owned_def MAX_PAYLOAD_LEN_def)
qed simp

section \<open>The contract of the two stores\<close>

locale durable_store =
  fixes crc :: "bytes \<Rightarrow> u32" and D :: "'d durable_data" and J :: "'j durable_journal"
    and d_ok :: "'d \<Rightarrow> bool" and d_cache :: "'d \<Rightarrow> bytes" and d_stable :: "'d \<Rightarrow> bytes"
    and j_cache :: "'j \<Rightarrow> bytes" and j_stable :: "'j \<Rightarrow> bytes"
  assumes data_extent: "d_ok d \<Longrightarrow> unat (dd_total_length D d) \<le> length (d_cache d)"
    and write_law: "d_ok d \<Longrightarrow> dd_write_all_at D d off bs = (d', res) \<Longrightarrow>
      d_ok d' \<and> dd_total_length D d' = dd_total_length D d \<and> d_stable d' = d_stable d \<and>
      length (d_cache d') = length (d_cache d) \<and>
      (\<forall>i < length (d_cache d). i < unat off \<or> unat off + length bs \<le> i \<longrightarrow> d_cache d' ! i = d_cache d ! i) \<and>
      (res = Ok () \<longrightarrow> unat off + length bs \<le> unat (dd_total_length D d) \<and>
         chunk (unat off) (unat off + length bs) (d_cache d') = bs)"
    and sync_law: "d_ok d \<Longrightarrow> dd_sync_data D d = (d', res) \<Longrightarrow>
      d_ok d' \<and> dd_total_length D d' = dd_total_length D d \<and> d_cache d' = d_cache d \<and>
      d_stable d' = (if res = Ok () then d_cache d else d_stable d)"
    and append_law: "dj_append J j r = (j', res) \<Longrightarrow>
      dj_total_length J j' = dj_total_length J j \<and> j_stable j' = j_stable j \<and>
      (\<exists>n. j_cache j' = j_cache j @ take n (frame_bytes crc r)) \<and>
      (res = Ok () \<longrightarrow> j_cache j' = j_cache j @ frame_bytes crc r)"
    and jsync_law: "dj_sync_data J j = (j', res) \<Longrightarrow>
      dj_total_length J j' = dj_total_length J j \<and> j_cache j' = j_cache j \<and>
      j_stable j' = (if res = Ok () then j_cache j else j_stable j)"
begin

text \<open>Every recorded block is intact in the data file, on stable storage and in the cache alike.\<close>

definition vouched :: "(bytes \<Rightarrow> bytes) \<Rightarrow> 'd \<Rightarrow> completed_block \<Rightarrow> bool" where
  "vouched blake3 d b =
     (block_end b \<le> length (d_stable d) \<and> block_end b \<le> length (d_cache d) \<and>
      chunk (unat (cb_offset b)) (block_end b) (d_stable d) = chunk (unat (cb_offset b)) (block_end b) (d_cache d) \<and>
      blake3 (chunk (unat (cb_offset b)) (block_end b) (d_cache d)) = cb_blake3 b)"

text \<open>The journal bytes are a prefix of the encoding of a log all of whose blocks are vouched for.\<close>

definition recorded :: "(bytes \<Rightarrow> bytes) \<Rightarrow> file_header \<Rightarrow> ('d, 'j) durable_writer \<Rightarrow> framed_record list \<Rightarrow> framed_record list \<Rightarrow> bool" where
  "recorded blake3 h w rs extra =
     (wf_header h \<and> fh_total_length h = dd_total_length D (dw_data w) \<and> d_ok (dw_data w) \<and>
      block_log (unat (fh_total_length h)) (rs @ extra) \<and>
      (\<forall>r \<in> set (rs @ extra). vouched blake3 (dw_data w) (frame_block r)) \<and>
      (\<exists>n. length (journal_body crc rs) \<le> n \<and>
        j_cache (dw_journal w) = encode_header crc h @ take n (journal_body crc (rs @ extra))) \<and>
      (\<exists>k \<ge> HEADER_LEN + length (journal_body crc rs). j_stable (dw_journal w) = take k (j_cache (dw_journal w))))"

text \<open>The states between operations of a writer that is still usable, with the durable log \<open>rs\<close>.\<close>

definition usable :: "(bytes \<Rightarrow> bytes) \<Rightarrow> file_header \<Rightarrow> ('d, 'j) durable_writer \<Rightarrow> interval_map \<Rightarrow> framed_record list \<Rightarrow> bool" where
  "usable blake3 h w m rs =
     (\<not> dw_poisoned w \<and> recorded blake3 h w rs [] \<and> j_stable (dw_journal w) = j_cache (dw_journal w) \<and>
      unat (dw_next_sequence w) = length rs \<and>
      invariants_hold m \<and> im_total_length m = dd_total_length D (dw_data w) \<and>
      (\<forall>n. byte_state m n = Some Complete \<longleftrightarrow> log_covers rs n) \<and>
      (\<forall>b \<in> set (dw_staged w). staged_owned m b \<and>
         blake3 (chunk (unat (fst (sb_range b))) (unat (snd (sb_range b))) (d_cache (dw_data w))) = sb_blake3 b) \<and>
      sorted_wrt apart (map staged_frame (dw_staged w)))"

text \<open>After a failure in mid-commit: poisoned, with records possibly appended but not all durable.\<close>

definition broken :: "(bytes \<Rightarrow> bytes) \<Rightarrow> file_header \<Rightarrow> ('d, 'j) durable_writer \<Rightarrow> interval_map \<Rightarrow> framed_record list \<Rightarrow> bool" where
  "broken blake3 h w m rs =
     (dw_poisoned w \<and> (\<exists>extra. recorded blake3 h w rs extra) \<and> invariants_hold m \<and>
      im_total_length m = dd_total_length D (dw_data w) \<and>
      (\<forall>n. byte_state m n = Some Complete \<longleftrightarrow> log_covers rs n))"

lemma append_all_law:
  "append_all J j rs = (j', res) \<Longrightarrow>
   dj_total_length J j' = dj_total_length J j \<and> j_stable j' = j_stable j \<and>
   (\<exists>n. j_cache j' = j_cache j @ take n (journal_body crc rs)) \<and>
   (res = Ok () \<longrightarrow> j_cache j' = j_cache j @ journal_body crc rs)"
proof (induction rs arbitrary: j)
  case (Cons r rs)
  obtain j1 r1 where a: "dj_append J j r = (j1, r1)"
    by (cases "dj_append J j r")
  note law = append_law [OF a]
  show ?case
  proof (cases r1)
    case (Inl e)
    obtain n where n: "j_cache j1 = j_cache j @ take n (frame_bytes crc r)"
      using law by blast
    have "take n (frame_bytes crc r) = take (min n (length (frame_bytes crc r))) (journal_body crc (r # rs))"
      by (simp add: min_def)
    then have "\<exists>k. j_cache j1 = j_cache j @ take k (journal_body crc (r # rs))"
      using n by metis
    moreover have "j' = j1" "res = Err e"
      using Cons.prems a Inl by simp_all
    ultimately show ?thesis
      using law by simp
  next
    case (Inr u)
    then have IH: "append_all J j1 rs = (j', res)" and c: "j_cache j1 = j_cache j @ frame_bytes crc r"
      using Cons.prems a law by auto
    note I = Cons.IH [OF IH]
    obtain n where "j_cache j' = j_cache j1 @ take n (journal_body crc rs)"
      using I by blast
    then have "j_cache j' = j_cache j @ take (length (frame_bytes crc r) + n) (journal_body crc (r # rs))"
      using c by simp
    then have "\<exists>k. j_cache j' = j_cache j @ take k (journal_body crc (r # rs))" ..
    moreover have "res = Ok () \<longrightarrow> j_cache j' = j_cache j @ journal_body crc (r # rs)"
      using I c by simp
    ultimately show ?thesis
      using I law by simp
  qed
qed (auto simp: exI [of _ 0])

lemma vouched_sync:
  assumes "d_ok d" and "dd_sync_data D d = (d', res)" and "vouched blake3 d b"
  shows "vouched blake3 d' b"
  using assms sync_law [OF assms(1,2)] by (auto simp: vouched_def)

lemma vouched_write:
  assumes "d_ok d" and "dd_write_all_at D d off bs = (d', res)" and "vouched blake3 d b"
    and "block_end b \<le> unat off \<or> unat off + length bs \<le> unat (cb_offset b)"
  shows "vouched blake3 d' b"
proof -
  note law = write_law [OF assms(1,2)]
  have "chunk (unat (cb_offset b)) (block_end b) (d_cache d') = chunk (unat (cb_offset b)) (block_end b) (d_cache d)"
    using law assms(3,4) by (intro chunk_cong) (auto simp: vouched_def)
  then show ?thesis
    using assms(3) law by (simp add: vouched_def)
qed

end

context durable_store
begin

lemma staged_log:
  assumes u: "usable blake3 h w m rs" and len: "length rs + length (dw_staged w) < 2 ^ 64"
  obtains recs ds where "number_staged (dw_next_sequence w) 0 (dw_staged w) = Ok (recs, ds)"
    "map frame_block recs = map staged_frame (dw_staged w)"
    "block_log (unat (fh_total_length h)) (rs @ recs)"
    "\<And>n. log_covers recs n \<longleftrightarrow> in_staged (dw_staged w) n"
    "map db_range ds = map sb_range (dw_staged w)"
proof -
  let ?bs = "dw_staged w"
  have seq: "unat (dw_next_sequence w) = length rs" and own: "\<forall>b \<in> set ?bs. staged_owned m b"
    and ap: "sorted_wrt apart (map staged_frame ?bs)" and blog: "block_log (unat (fh_total_length h)) rs"
    and tl: "im_total_length m = fh_total_length h" and inv: "invariants_hold m"
    and cov: "\<And>n. byte_state m n = Some Complete \<longleftrightarrow> log_covers rs n"
    using u by (auto simp: usable_def recorded_def)
  obtain recs ds where n: "number_staged (dw_next_sequence w) 0 ?bs = Ok (recs, ds)"
    and mb: "map frame_block recs = map staged_frame ?bs" and wf: "wf_frames (length rs) recs"
    and bc: "\<forall>r \<in> set recs. \<exists>off len d. fr_record r = BlockComplete off len d"
    and dr: "map db_range ds = map sb_range ?bs"
    using number_staged_Ok [of "dw_next_sequence w" 0 ?bs m] len own seq by auto
  have fb: "frame_block ` set recs = staged_frame ` set ?bs"
    using mb by (metis list.set_map)
  have cross: "apart (frame_block r) (staged_frame b)" if r: "r \<in> set rs" and b: "b \<in> set ?bs" for r b
  proof (rule ccontr)
    assume na: "\<not> apart (frame_block r) (staged_frame b)"
    have ob: "staged_owned m b" and bi: "block_in (unat (fh_total_length h)) (frame_block r)"
      using own b blog r by (auto simp: block_log_def)
    let ?x = "max (cb_offset (frame_block r)) (fst (sb_range b))"
    have off: "cb_offset (staged_frame b) = fst (sb_range b)"
      by (simp add: staged_frame_def)
    have "unat (cb_offset (frame_block r)) < unat (snd (sb_range b))"
      "unat (fst (sb_range b)) < block_end (frame_block r)"
      using na off staged_frame_end [OF ob] by (auto simp: apart_def)
    moreover have "unat (cb_offset (frame_block r)) < block_end (frame_block r)"
      using bi by (simp add: block_in_def block_end_def unat_gt_0)
    moreover have "fst (sb_range b) < snd (sb_range b)"
      using ob by (simp add: staged_owned_def)
    ultimately have "fst (sb_range b) \<le> ?x" "?x < snd (sb_range b)" "log_covers rs ?x"
      using r by (auto simp: log_covers_def max_def word_lt_unat word_le_unat intro!: bexI [of _ r])
    then show False
      using ob cov [of ?x] by (auto simp: staged_owned_def)
  qed
  have "sorted_wrt apart (map frame_block (rs @ recs))"
    using blog ap mb cross by (auto simp: block_log_def sorted_wrt_append)
  moreover have "block_in (unat (fh_total_length h)) (frame_block r)" if "r \<in> set recs" for r
  proof -
    have "frame_block r \<in> staged_frame ` set ?bs"
      using that fb by blast
    then show ?thesis
      using own tl staged_frame_in [of m] by auto
  qed
  ultimately have "block_log (unat (fh_total_length h)) (rs @ recs)"
    using blog wf bc by (auto simp: block_log_def wf_frames_append)
  moreover have "log_covers recs n \<longleftrightarrow> in_staged ?bs n" for n
  proof -
    have "log_covers recs n \<longleftrightarrow> (\<exists>c \<in> frame_block ` set recs. unat (cb_offset c) \<le> unat n \<and> unat n < block_end c)"
      by (auto simp: log_covers_def)
    also have "\<dots> \<longleftrightarrow> (\<exists>b \<in> set ?bs. fst (sb_range b) \<le> n \<and> n < snd (sb_range b))"
      using own staged_frame_end [of m] unfolding fb
      by (auto simp: word_le_unat word_lt_unat) (auto simp: staged_frame_def)
    finally show ?thesis
      by (simp add: in_staged_def)
  qed
  ultimately show thesis
    using that [OF n mb _ _ dr] by blast
qed
end

context durable_store
begin

text \<open>Once the data is synchronised, the staged blocks are vouched for as well.\<close>

lemma vouched_staged:
  assumes u: "usable blake3 h w m rs" and s: "dd_sync_data D (dw_data w) = (d', Ok v)"
    and mb: "map frame_block recs = map staged_frame (dw_staged w)"
    and r: "r \<in> set (rs @ recs)"
  shows "vouched blake3 d' (frame_block r)"
proof (cases "r \<in> set rs")
  case True
  then show ?thesis
    using u vouched_sync [OF _ s] by (auto simp: usable_def recorded_def)
next
  case False
  have ok: "d_ok (dw_data w)" and tl: "im_total_length m = dd_total_length D (dw_data w)"
    using u by (auto simp: usable_def recorded_def)
  have "frame_block r \<in> set (map staged_frame (dw_staged w))"
    using r False mb by (metis UnE image_eqI list.set_map set_append)
  then obtain b where b: "b \<in> set (dw_staged w)" and fb: "frame_block r = staged_frame b"
    by auto
  have own: "staged_owned m b" and hash: "blake3 (chunk (unat (fst (sb_range b))) (unat (snd (sb_range b)))
      (d_cache (dw_data w))) = sb_blake3 b"
    using u b by (auto simp: usable_def)
  have "unat (snd (sb_range b)) \<le> length (d_cache (dw_data w))"
    using own data_extent [OF ok] tl by (auto simp: staged_owned_def word_le_unat)
  then show ?thesis
    using sync_law [OF ok s] staged_frame_end [OF own] hash
    by (simp add: vouched_def fb) (simp add: staged_frame_def)
qed

lemma flush_outcome:
  assumes u: "usable blake3 h w m rs" and f: "dw_flush D J w m = (w', m', res)"
  obtains (flushed) recs ds where "res = Ok ds" "usable blake3 h w' m' (rs @ recs)" "dw_staged w' = []"
      "map frame_block recs = map staged_frame (dw_staged w)" "map db_range ds = map sb_range (dw_staged w)"
      "\<And>n. byte_state m' n = (if in_staged (dw_staged w) n then Some Complete else byte_state m n)"
  | (failed) e where "res = Err e" "m' = m" "broken blake3 h w' m rs"
  | (exhausted) "res = Err WeSequenceExhausted" "w' = w" "m' = m"
proof -
  let ?bs = "dw_staged w" and ?n = "length rs + length (dw_staged w)"
  have np: "\<not> dw_poisoned w" and rec: "recorded blake3 h w rs []" and ok: "d_ok (dw_data w)"
    and jc: "j_stable (dw_journal w) = j_cache (dw_journal w)" and seq: "unat (dw_next_sequence w) = length rs"
    and inv: "invariants_hold m" and tl: "im_total_length m = dd_total_length D (dw_data w)"
    and cov: "\<And>n. byte_state m n = Some Complete \<longleftrightarrow> log_covers rs n"
    and own: "\<forall>b \<in> set ?bs. staged_owned m b" and ap: "sorted_wrt apart (map staged_frame ?bs)"
    using u by (auto simp: usable_def recorded_def)
  have body: "j_cache (dw_journal w) = encode_header crc h @ journal_body crc rs" and wfh: "wf_header h"
    using rec by (auto simp: recorded_def)
  have pre: "ensure_usable w = Ok ()" "ensure_interval_identity D w m = Ok ()"
    using np tl by (simp_all add: ensure_usable_def ensure_interval_identity_def)
  obtain next_m where nm: "complete_staged m ?bs = Ok next_m" "invariants_hold next_m"
    "im_total_length next_m = im_total_length m"
    "\<And>n. byte_state next_m n = (if in_staged ?bs n then Some Complete else byte_state m n)"
    using complete_staged_Ok [OF inv own ap] by blast
  consider (empty) "?bs = []" | (over) "?bs \<noteq> []" "2 ^ 64 \<le> ?n" | (fit) "?bs \<noteq> []" "?n < 2 ^ 64"
    by linarith
  then show thesis
  proof cases
    case empty
    then have "w' = w" "m' = m" "res = Ok []"
      using f pre by (simp_all add: dw_flush_def)
    then show thesis
      using flushed [of "[]" "[]"] u empty by (simp add: in_staged_def)
  next
    case over
    have "checked_add (dw_next_sequence w) c = None" if "try_from_nat (length ?bs) = Some c" for c :: u64
      using that over(2) seq by (simp add: arith_simps)
    then have "res = Err WeSequenceExhausted" "w' = w" "m' = m"
      using f pre over(1) nm(1) by (auto simp: dw_flush_def split: option.splits)
    then show thesis
      by (rule exhausted)
  next
    case fit
    obtain recs ds where num: "number_staged (dw_next_sequence w) 0 ?bs = Ok (recs, ds)"
      and mb: "map frame_block recs = map staged_frame ?bs"
      and blog: "block_log (unat (fh_total_length h)) (rs @ recs)"
      and lc: "\<And>n. log_covers recs n \<longleftrightarrow> in_staged ?bs n" and dr: "map db_range ds = map sb_range ?bs"
      using staged_log [OF u fit(2)] by blast
    have len: "length recs = length ?bs"
      using mb by (metis length_map)
    obtain c :: u64 where c: "try_from_nat (length ?bs) = Some c" "unat c = length ?bs"
      using fit(2) by (cases "try_from_nat (length ?bs) :: u64 option") (auto simp: arith_simps)
    obtain ns where ns: "checked_add (dw_next_sequence w) c = Some ns" "unat ns = ?n"
      using fit(2) c(2) seq by (cases "checked_add (dw_next_sequence w) c") (auto simp: arith_simps)
    obtain d' r1 where s: "dd_sync_data D (dw_data w) = (d', r1)"
      by (cases "dd_sync_data D (dw_data w)")
    note slaw = sync_law [OF ok s]
    obtain j1 r2 where a: "append_all J (dw_journal w) recs = (j1, r2)"
      by (cases "append_all J (dw_journal w) recs")
    note alaw = append_all_law [OF a]
    obtain j2 r3 where js: "dj_sync_data J j1 = (j2, r3)"
      by (cases "dj_sync_data J j1")
    note jlaw = jsync_law [OF js]
    note unf = dw_flush_def pre fit(1) nm(1) c(1) ns(1) num s a js
    obtain n where n: "j_cache j1 = encode_header crc h @ journal_body crc rs @ take n (journal_body crc recs)"
      using alaw body by auto
    then have n': "j_cache j1 = encode_header crc h @
        take (length (journal_body crc rs) + n) (journal_body crc (rs @ recs))"
      by simp
    have st1: "j_stable j1 = take (HEADER_LEN + length (journal_body crc rs)) (j_cache j1)"
      using alaw jc body n wfh by simp
    have common: "recorded blake3 h (w\<lparr>dw_data := d', dw_journal := j, dw_poisoned := p\<rparr>) rs recs"
      if "r1 = Ok ()" "j_cache j = j_cache j1" "j_stable j = j_stable j1 \<or> j_stable j = j_cache j1" for j p
    proof -
      have "HEADER_LEN + length (journal_body crc rs) \<le> length (j_cache j1)"
        using n wfh by simp
      then have "\<exists>k \<ge> HEADER_LEN + length (journal_body crc rs). j_stable j = take k (j_cache j)"
        using that(2,3) st1 by (metis order_refl take_all)
      moreover have "\<forall>r \<in> set (rs @ recs). vouched blake3 d' (frame_block r)"
        using vouched_staged [OF u _ mb] s that(1) by blast
      moreover have "\<exists>k \<ge> length (journal_body crc rs).
          j_cache j = encode_header crc h @ take k (journal_body crc (rs @ recs))"
        using n' that(2) by (metis le_add1)
      ultimately show ?thesis
        using rec blog slaw unfolding recorded_def
        by (simp del: journal_body_simps take_append)
    qed
    show thesis
    proof (cases r1)
      case (Inl e)
      have "recorded blake3 h (w\<lparr>dw_data := d', dw_poisoned := True\<rparr>) rs []"
        using rec slaw vouched_sync [OF ok s] by (auto simp: recorded_def)
      then show thesis
        using f Inl inv tl cov slaw by (intro failed [of e]) (auto simp: unf broken_def)
    next
      case (Inr v)
      then have r1: "r1 = Ok ()"
        by simp
      show thesis
      proof (cases "\<exists>e. r2 = Err e \<or> r3 = Err e")
        case True
        have "\<exists>e j. res = Err e \<and> m' = m \<and> w' = w\<lparr>dw_data := d', dw_journal := j, dw_poisoned := True\<rparr> \<and>
            j_cache j = j_cache j1 \<and> (j_stable j = j_stable j1 \<or> j_stable j = j_cache j1)"
          using f True r1 jlaw by (cases r2; cases r3) (auto simp: unf)
        then obtain e j where "res = Err e" "m' = m"
            "w' = w\<lparr>dw_data := d', dw_journal := j, dw_poisoned := True\<rparr>"
            "recorded blake3 h w' rs recs"
          using common [OF r1] by metis
        then show thesis
          using inv tl cov slaw by (intro failed [of e]) (auto simp: broken_def)
      next
        case False
        then have "r2 = Ok ()"
          by (cases r2) auto
        moreover have "r3 = Ok ()"
          using False by (cases r3) auto
        ultimately have ok2: "r2 = Ok ()" "r3 = Ok ()"
          by simp_all
        have j2: "j_cache j2 = encode_header crc h @ journal_body crc (rs @ recs)" "j_stable j2 = j_cache j2"
          using jlaw alaw ok2 body by simp_all
        have w': "res = Ok ds" "m' = next_m" "dw_data w' = d'" "dw_journal w' = j2" "dw_next_sequence w' = ns"
            "dw_staged w' = []" "dw_poisoned w' = False"
          using f r1 ok2 np by (auto simp: unf)
        have "recorded blake3 h w' (rs @ recs) []"
          using common [OF r1, of j2 False] j2 jlaw w' wfh rec
          by (auto simp: recorded_def intro!: exI [of _ "length (j_cache j2)"])
        then have "usable blake3 h w' m' (rs @ recs)"
          using w' j2(2) ns(2) len nm(2,3,4) tl slaw cov lc by (auto simp: usable_def)
        then show thesis
          using flushed [of ds recs] w' mb dr nm(4) by blast
      qed
    qed
  qed
qed

end

text \<open>What the \<open>blake3\<close> crate promises: a digest is 32 bytes.\<close>

definition digest32 :: "(bytes \<Rightarrow> bytes) \<Rightarrow> bool" where
  "digest32 blake3 = (\<forall>bs. length (blake3 bs) = 32)"

text \<open>Stand-ins for the checksum and the hash in concrete runs.\<close>

definition demo_crc :: "bytes \<Rightarrow> u32" where
  "demo_crc bs = of_nat (length bs)"

definition demo_hash :: "bytes \<Rightarrow> bytes" where
  "demo_hash bs = take 32 (bs @ replicate 32 0)"

lemma digest32_demo: "digest32 demo_hash"
  by (simp add: digest32_def demo_hash_def min_def)

text \<open>The byte states an operation of the writer may change: owned bytes that become complete.\<close>

definition only_completes :: "interval_map \<Rightarrow> interval_map \<Rightarrow> bool" where
  "only_completes m m' =
     (\<forall>n. byte_state m' n = byte_state m n \<or>
          (byte_state m' n = Some Complete \<and> (\<exists>v. byte_state m n = Some (InProgress v))))"

lemma only_completes_refl [simp]: "only_completes m m"
  by (simp add: only_completes_def)

lemma not_staged_apart:
  assumes "ensure_not_staged w r = Ok u" and "b \<in> set (dw_staged w)"
  shows "snd (sb_range b) \<le> fst r \<or> snd r \<le> fst (sb_range b)"
proof -
  have "find (\<lambda>b. fst (sb_range b) < snd r \<and> fst r < snd (sb_range b)) (dw_staged w) = None"
    using assms(1) by (auto simp: ensure_not_staged_def split: option.splits)
  then show ?thesis
    using assms(2) by (auto simp: find_None_iff not_less)
qed

context durable_store
begin

lemma usable_inert [simp]:
  "usable blake3 h (w\<lparr>dw_disk_full_at := x\<rparr>) m rs = usable blake3 h w m rs"
  "broken blake3 h (w\<lparr>dw_disk_full_at := x\<rparr>) m rs = broken blake3 h w m rs"
  by (simp_all add: usable_def broken_def recorded_def)

lemma usable_cover: "usable blake3 h w m rs \<Longrightarrow> byte_state m n = Some Complete \<longleftrightarrow> log_covers rs n"
  by (simp add: usable_def)

lemma recorded_data:
  assumes "recorded blake3 h w rs ext" and "d_ok d'" and "dd_total_length D d' = dd_total_length D (dw_data w)"
    and "\<And>r. r \<in> set (rs @ ext) \<Longrightarrow> vouched blake3 d' (frame_block r)"
  shows "recorded blake3 h (w\<lparr>dw_data := d'\<rparr>) rs ext"
  using assms unfolding recorded_def by (elim conjE) (intro conjI; simp)

lemma owned_apart_log:
  assumes u: "usable blake3 h w m rs" and r: "r \<in> set rs"
    and own: "\<And>n. off \<le> n \<Longrightarrow> n < e \<Longrightarrow> byte_state m n = Some (InProgress v)" and lt: "off < e"
  shows "block_end (frame_block r) \<le> unat off \<or> unat e \<le> unat (cb_offset (frame_block r))"
proof (rule ccontr)
  assume "\<not> ?thesis"
  moreover have "cb_len (frame_block r) \<noteq> 0"
    using u r by (auto simp: usable_def recorded_def block_log_def block_in_def)
  ultimately have "log_covers rs (max off (cb_offset (frame_block r)))"
    and "max off (cb_offset (frame_block r)) < e"
    using r lt
    by (auto simp: log_covers_def max_def word_le_unat word_lt_unat block_end_def unat_gt_0 intro!: bexI [of _ r])
  then show False
    using own [of "max off (cb_offset (frame_block r))"]
      usable_cover [OF u, of "max off (cb_offset (frame_block r))"] by simp
qed

text \<open>A write into a range the worker owns, away from the staged ones, disturbs nothing recorded.\<close>

lemma write_usable:
  assumes u: "usable blake3 h w m rs" and wr: "dd_write_all_at D (dw_data w) off bs = (d', res)"
    and e: "unat e = unat off + length bs" and ok: "snd (im_complete m (off, e) v) = Ok ()"
    and ns: "ensure_not_staged w (off, e) = Ok ()"
  shows "usable blake3 h (w\<lparr>dw_data := d'\<rparr>) m rs"
proof -
  have dok: "d_ok (dw_data w)" and inv: "invariants_hold m"
    and tl: "im_total_length m = dd_total_length D (dw_data w)"
    using u by (auto simp: usable_def recorded_def)
  note law = write_law [OF dok wr]
  have lt: "off < e" and own: "\<And>n. off \<le> n \<Longrightarrow> n < e \<Longrightarrow> byte_state m n = Some (InProgress v)"
    using ok im_complete_Ok [OF inv] by auto
  have vou: "vouched blake3 d' (frame_block r)" if "r \<in> set rs" for r
  proof (rule vouched_write [OF dok wr])
    show "vouched blake3 (dw_data w) (frame_block r)"
      using u that by (simp add: usable_def recorded_def)
    show "block_end (frame_block r) \<le> unat off \<or> unat off + length bs \<le> unat (cb_offset (frame_block r))"
      using owned_apart_log [OF u that own lt] e by simp
  qed
  have rec: "recorded blake3 h (w\<lparr>dw_data := d'\<rparr>) rs []"
    using u vou law by (intro recorded_data) (simp_all add: usable_def)
  have "chunk (unat (fst (sb_range b))) (unat (snd (sb_range b))) (d_cache d') =
      chunk (unat (fst (sb_range b))) (unat (snd (sb_range b))) (d_cache (dw_data w))"
    if b: "b \<in> set (dw_staged w)" for b
  proof (rule chunk_cong)
    have "staged_owned m b"
      using u b by (simp add: usable_def)
    then have "unat (snd (sb_range b)) \<le> length (d_cache (dw_data w))"
      using data_extent [OF dok] tl by (auto simp: staged_owned_def word_le_unat)
    then show "unat (snd (sb_range b)) \<le> length (d_cache d')"
      "unat (snd (sb_range b)) \<le> length (d_cache (dw_data w))"
      using law by simp_all
    fix i assume "unat (fst (sb_range b)) \<le> i" "i < unat (snd (sb_range b))"
    then show "d_cache d' ! i = d_cache (dw_data w) ! i"
      using law not_staged_apart [OF ns b] e \<open>unat (snd (sb_range b)) \<le> length (d_cache (dw_data w))\<close>
      by (auto simp: word_le_unat)
  qed
  then show ?thesis
    using u rec law by (auto simp: usable_def)
qed

lemma push_usable:
  assumes u: "usable blake3 h (w\<lparr>dw_data := d'\<rparr>) m rs"
    and wr: "dd_write_all_at D (dw_data w) off bs = (d', Ok ())" and dok: "d_ok (dw_data w)"
    and e: "unat e = unat off + length bs" and ok: "snd (im_complete m (off, e) v) = Ok ()"
    and ns: "ensure_not_staged w (off, e) = Ok ()" and len: "unat len = length bs" and dg: "digest32 blake3"
    and w': "dw_data w' = d'" "dw_journal w' = dw_journal w" "dw_next_sequence w' = dw_next_sequence w"
      "dw_poisoned w' = dw_poisoned w"
      "dw_staged w' = dw_staged w @ [\<lparr>sb_range = (off, e), sb_record_length = len, sb_worker = v, sb_blake3 = blake3 bs\<rparr>]"
  shows "usable blake3 h w' m rs"
proof -
  let ?b = "\<lparr>sb_range = (off, e), sb_record_length = len, sb_worker = v, sb_blake3 = blake3 bs\<rparr>"
  have inv: "invariants_hold m"
    using u by (simp add: usable_def)
  have so: "staged_owned m ?b"
    using ok im_complete_Ok [OF inv, of "(off, e)" v] e len dg by (simp add: staged_owned_def digest32_def)
  have "apart (staged_frame c) (staged_frame ?b)" if "c \<in> set (dw_staged w)" for c
  proof -
    have "staged_owned m c"
      using u that by (simp add: usable_def)
    then show ?thesis
      using not_staged_apart [OF ns that] staged_frame_end [of m c] staged_frame_end [OF so]
      by (simp add: apart_def word_le_unat) (simp add: staged_frame_def)
  qed
  moreover have "chunk (unat off) (unat e) (d_cache d') = bs"
    using write_law [OF dok wr] e by simp
  ultimately show ?thesis
    using u so w' by (auto simp: usable_def recorded_def sorted_wrt_append)
qed

lemma flush_safe:
  assumes "usable blake3 h w m rs" and "dw_flush D J w m = (w', m', res)"
  shows "\<exists>recs. (usable blake3 h w' m' (rs @ recs) \<or> broken blake3 h w' m' (rs @ recs)) \<and> only_completes m m'"
  using assms
proof (rule flush_outcome)
  fix recs ds
  assume u: "usable blake3 h w' m' (rs @ recs)"
    and st: "\<And>n. byte_state m' n = (if in_staged (dw_staged w) n then Some Complete else byte_state m n)"
  have "\<exists>v. byte_state m n = Some (InProgress v)" if "in_staged (dw_staged w) n" for n
    using that assms(1) by (auto simp: in_staged_def usable_def staged_owned_def)
  then show ?thesis
    using u st by (auto simp: only_completes_def)
next
  assume "m' = m" "broken blake3 h w' m rs"
  then show ?thesis
    by (intro exI [of _ "[]"]) simp
next
  assume "w' = w" "m' = m"
  then show ?thesis
    using assms(1) by (intro exI [of _ "[]"]) simp
qed
end

context durable_store
begin

lemma recorded_poison [simp]:
  "recorded blake3 h (w\<lparr>dw_poisoned := p\<rparr>) rs ext = recorded blake3 h w rs ext"
  by (simp add: recorded_def)

lemma usable_poison:
  assumes "usable blake3 h w m rs"
  shows "broken blake3 h (w\<lparr>dw_poisoned := True\<rparr>) m rs"
proof -
  have "recorded blake3 h w rs []"
    using assms by (simp add: usable_def)
  then have "recorded blake3 h (w\<lparr>dw_poisoned := True\<rparr>) rs []"
    by simp
  then show ?thesis
    using assms by (auto simp: usable_def broken_def)
qed

lemma stage_safe:
  assumes u: "usable blake3 h w m rs" and dg: "digest32 blake3"
    and st: "dw_stage plat blake3 D J w m v off bs now = (w', m', res)"
  shows "\<exists>recs. (usable blake3 h w' m' (rs @ recs) \<or> broken blake3 h w' m' (rs @ recs)) \<and> only_completes m m'"
proof -
  have refl: ?thesis if "w' = w" "m' = m"
    using u that by (intro exI [of _ "[]"]) simp
  have np: "ensure_usable w = Ok ()" "ensure_interval_identity D w m = Ok ()" and dok: "d_ok (dw_data w)"
    using u by (simp_all add: usable_def recorded_def ensure_usable_def ensure_interval_identity_def)
  note unf = dw_stage_def np
  show ?thesis
  proof (cases "\<exists>len rl e sb. bs \<noteq> [] \<and> try_from_nat (length bs) = Some (len :: u64) \<and>
      try_from_nat (unat len) = Some (rl :: u32) \<and> checked_add off len = Some e \<and>
      ensure_current_grant m (off, e) v = Ok () \<and> ensure_not_staged w (off, e) = Ok () \<and>
      checked_add (dw_staged_bytes w) len = Some sb")
    case False
    then have "w' = w \<and> m' = m"
      using st by (auto simp: unf split: option.splits sum.splits if_splits)
    then show ?thesis
      using refl by blast
  next
    case True
    then obtain len rl e sb where g: "bs \<noteq> []" "try_from_nat (length bs) = Some (len :: u64)"
      "try_from_nat (unat len) = Some (rl :: u32)" "checked_add off len = Some e"
      "ensure_current_grant m (off, e) v = Ok ()" "ensure_not_staged w (off, e) = Ok ()"
      "checked_add (dw_staged_bytes w) len = Some sb"
      by blast
    have lens: "unat len = length bs" "unat rl = length bs" "unat e = unat off + length bs"
      using g(2-4) by (simp_all add: arith_simps)
    have ic: "snd (im_complete m (off, e) v) = Ok ()"
      using g(5) by (simp add: ensure_current_grant_def)
    obtain d' r1 where wr: "dd_write_all_at D (dw_data w) off bs = (d', r1)"
      by (cases "dd_write_all_at D (dw_data w) off bs")
    have u1: "usable blake3 h (w\<lparr>dw_data := d'\<rparr>) m rs"
      by (rule write_usable [OF u wr lens(3) ic g(6)])
    note unf2 = unf g wr
    show ?thesis
    proof (cases r1)
      case (Inl err)
      show ?thesis
      proof (cases "no_space_offset plat err off")
        case None
        then have "w' = (w\<lparr>dw_data := d'\<rparr>)\<lparr>dw_poisoned := True\<rparr>" "m' = m"
          using st Inl by (simp_all add: unf2)
        then show ?thesis
          using usable_poison [OF u1] by (intro exI [of _ "[]"]) simp
      next
        case (Some o')
        obtain w1 m1 r2 where f: "dw_flush D J (w\<lparr>dw_data := d'\<rparr>) m = (w1, m1, r2)"
          by (cases "dw_flush D J (w\<lparr>dw_data := d'\<rparr>) m") auto
        then have "w' = w1\<lparr>dw_disk_full_at := Some o'\<rparr>" "m' = m1"
          using st Inl Some by (simp_all add: unf2)
        then show ?thesis
          using flush_safe [OF u1 f] by simp
      qed
    next
      case (Inr x)
      let ?b = "\<lparr>sb_range = (off, e), sb_record_length = rl, sb_worker = v, sb_blake3 = blake3 bs\<rparr>"
      have ps: "push_staged D J (w\<lparr>dw_data := d'\<rparr>) m ?b sb now = (w', m', res)"
        using st Inr by (simp add: unf2)
      define w2 where "w2 = (w\<lparr>dw_data := d'\<rparr>)\<lparr>dw_staged := dw_staged w @ [?b], dw_staged_bytes := sb,
          dw_first_staged_at := (case dw_first_staged_at w of None \<Rightarrow> Some now | Some t \<Rightarrow> Some t)\<rparr>"
      have "dd_write_all_at D (dw_data w) off bs = (d', Ok ())"
        using wr Inr by simp
      then have "usable blake3 h w2 m rs"
        by (rule push_usable [OF u1 _ dok lens(3) ic g(6) lens(2) dg]) (simp_all add: w2_def)
      moreover have "dw_flush D J w2 m = (w', m', res) \<or> w' = w2 \<and> m' = m"
        using ps by (auto simp: push_staged_def Let_def w2_def split: if_splits)
      ultimately show ?thesis
        using flush_safe [of blake3 h w2 m rs w' m' res] by (auto intro: exI [of _ "[]"])
    qed
  qed
qed

lemma flush_if_due_safe:
  assumes "usable blake3 h w m rs" and "dw_flush_if_due D J w m now = (w', m', res)"
  shows "\<exists>recs. (usable blake3 h w' m' (rs @ recs) \<or> broken blake3 h w' m' (rs @ recs)) \<and> only_completes m m'"
proof -
  have "dw_flush D J w m = (w', m', res) \<or> w' = w \<and> m' = m"
    using assms by (auto simp: dw_flush_if_due_def ensure_usable_def split: sum.splits if_splits)
  then show ?thesis
    using flush_safe [OF assms(1)] assms(1) by (auto intro: exI [of _ "[]"])
qed

text \<open>A poisoned writer refuses everything and changes nothing.\<close>

lemma poisoned_refuses:
  assumes "dw_poisoned w"
  shows "dw_stage plat blake3 D J w m v off bs now = (w, m, Err WePoisoned)"
    and "dw_flush D J w m = (w, m, Err WePoisoned)"
    and "dw_flush_if_due D J w m now = (w, m, Err WePoisoned)"
  using assms by (simp_all add: dw_stage_def dw_flush_def dw_flush_if_due_def ensure_usable_def)

lemma recorded_crash:
  assumes rec: "recorded blake3 h w rs ext"
    and j: "crash_append_image (j_stable (dw_journal w)) (j_cache (dw_journal w)) jb"
    and d: "crash_image (d_stable (dw_data w)) (d_cache (dw_data w)) db" and len: "length jb < 2 ^ 64"
  shows "\<exists>out st. replay_bytes crc jb = Ok out \<and> ro_header out = h \<and>
    effective_state h (ro_records out) = Ok st \<and>
    (\<forall>b \<in> set (es_blocks st). block_end b \<le> length db \<and>
       blake3 (chunk (unat (cb_offset b)) (block_end b) db) = cb_blake3 b) \<and>
    (\<forall>n. log_covers rs n \<longrightarrow> (\<exists>b \<in> set (es_blocks st). unat (cb_offset b) \<le> unat n \<and> unat n < block_end b))"
proof -
  let ?jc = "j_cache (dw_journal w)" and ?js = "j_stable (dw_journal w)"
  have wf: "wf_header h" and bl: "block_log (unat (fh_total_length h)) (rs @ ext)"
    and vou: "\<And>r. r \<in> set (rs @ ext) \<Longrightarrow> vouched blake3 (dw_data w) (frame_block r)"
    using rec by (auto simp: recorded_def)
  obtain n where n: "length (journal_body crc rs) \<le> n"
      "?jc = encode_header crc h @ take n (journal_body crc (rs @ ext))"
    using rec unfolding recorded_def by blast
  obtain k where k: "HEADER_LEN + length (journal_body crc rs) \<le> k" "?js = take k ?jc"
    using rec unfolding recorded_def by blast
  obtain k' where k': "length ?js \<le> k'" "jb = take k' ?jc"
    using j by (auto simp: crash_append_image_def)
  have "HEADER_LEN + length (journal_body crc rs) \<le> length ?jc"
    using n wf by simp
  then have big: "HEADER_LEN + length (journal_body crc rs) \<le> k'"
    using k k' by simp
  let ?q = "min (k' - HEADER_LEN) n"
  have jb: "jb = encode_header crc h @ take ?q (journal_body crc (rs @ ext))"
    using k'(2) n(2) big wf by (simp add: min.commute del: journal_body_simps(3))
  have q: "length (journal_body crc rs) \<le> ?q"
    using big n(1) by simp
  have frames: "wf_frames 0 (rs @ ext)"
    using bl by (simp add: block_log_def)
  obtain out m where out: "replay_bytes crc jb = Ok out" "ro_header out = h"
      "ro_records out = take m (rs @ ext)" "length rs \<le> m"
    using replay_torn_log [OF wf frames q] len jb by metis
  obtain st where st: "effective_state h (ro_records out) = Ok st"
      "set (es_blocks st) = frame_block ` set (take m (rs @ ext))"
    using block_log_effective [OF block_log_take [OF bl, of m]] out(3) by auto
  have "block_end b \<le> length db \<and> blake3 (chunk (unat (cb_offset b)) (block_end b) db) = cb_blake3 b"
    if b: "b \<in> set (es_blocks st)" for b
  proof -
    obtain r where "r \<in> set (take m (rs @ ext))" "b = frame_block r"
      using b st(2) by blast
    then have "vouched blake3 (dw_data w) b"
      using vou in_set_takeD by metis
    then show ?thesis
      using crash_image_agree [OF d] by (auto simp: vouched_def)
  qed
  moreover have "set rs \<subseteq> set (take m (rs @ ext))"
    using out(4) by simp
  then have "\<exists>b \<in> set (es_blocks st). unat (cb_offset b) \<le> unat i \<and> unat i < block_end b" if "log_covers rs i" for i
    using that st(2) by (auto simp: log_covers_def)
  ultimately show ?thesis
    using out st by blast
qed

end

section \<open>The real files satisfy the contract\<close>

lemma pf_write_law:
  assumes wf: "pf_wf d" and wr: "dd_write_all_at part_file_data d off bs = (d', res)"
  shows "pf_wf d' \<and> pf_total_length d' = pf_total_length d \<and> f_stable (pf_file d') = f_stable (pf_file d) \<and>
    length (f_cache (pf_file d')) = length (f_cache (pf_file d)) \<and>
    (\<forall>i < length (f_cache (pf_file d)). i < unat off \<or> unat off + length bs \<le> i \<longrightarrow>
       f_cache (pf_file d') ! i = f_cache (pf_file d) ! i) \<and>
    (res = Ok () \<longrightarrow> unat off + length bs \<le> unat (pf_total_length d) \<and>
       chunk (unat off) (unat off + length bs) (f_cache (pf_file d')) = bs)"
proof (cases "\<exists>len e. try_from_nat (length bs) = Some (len :: u64) \<and> checked_add off len = Some e \<and> e \<le> pf_total_length d")
  case False
  then have "d' = d \<and> (\<exists>x. res = Err x)"
    using wr by (auto simp: part_file_data_def pf_write_all_at_def split: option.splits if_splits)
  then show ?thesis
    using wf by auto
next
  case True
  then obtain len e where g: "try_from_nat (length bs) = Some (len :: u64)" "checked_add off len = Some e"
    "e \<le> pf_total_length d"
    by blast
  have fit: "unat off + length bs \<le> unat (pf_total_length d)"
    using g by (simp add: arith_simps word_le_unat)
  obtain f1 r1 where w: "file_write_at (pf_file d) (unat off) bs = (f1, r1)"
    by (cases "file_write_at (pf_file d) (unat off) bs")
  have d': "d' = d\<lparr>pf_file := f1\<rparr>" and ok: "res = Ok () \<longleftrightarrow> r1 = Ok ()"
    using wr g w by (cases r1; auto simp: part_file_data_def pf_write_all_at_def)+
  obtain n where n: "f_cache f1 = overwrite (f_cache (pf_file d)) (unat off) (take n bs)"
    using file_write_at_result(3) [OF w] by blast
  have room: "unat off + length (take n bs) \<le> length (f_cache (pf_file d))"
    "unat off + length bs \<le> length (f_cache (pf_file d))"
    using fit wf by (simp_all add: pf_wf_def)
  have "\<forall>i < length (f_cache (pf_file d)). i < unat off \<or> unat off + length bs \<le> i \<longrightarrow>
      f_cache f1 ! i = f_cache (pf_file d) ! i"
    using nth_overwrite [OF room(1)] by (auto simp: n)
  moreover have "chunk (unat off) (unat off + length bs) (f_cache f1) = bs" if "r1 = Ok ()"
    using file_write_at_result(2) [OF w] that chunk_overwrite_same [OF room(2)] by simp
  ultimately show ?thesis
    using d' ok fit wf room(1) length_overwrite [OF room(1)] file_write_at_result(1) [OF w]
    by (simp add: n pf_wf_def)
qed

lemma pf_sync_law:
  assumes "pf_wf d" and "dd_sync_data part_file_data d = (d', res)"
  shows "pf_wf d' \<and> pf_total_length d' = pf_total_length d \<and> f_cache (pf_file d') = f_cache (pf_file d) \<and>
    f_stable (pf_file d') = (if res = Ok () then f_cache (pf_file d) else f_stable (pf_file d))"
proof -
  obtain f1 r1 where s: "file_sync (pf_file d) = (f1, r1)"
    by (cases "file_sync (pf_file d)")
  show ?thesis
    using assms s file_sync_result [OF s]
    by (cases r1) (auto simp: part_file_data_def pf_sync_data_def pf_wf_def)
qed

lemma jf_append_law:
  assumes "jf_append crc j r = (j', res)"
  shows "jf_total_length j' = jf_total_length j \<and> f_stable (jf_file j') = f_stable (jf_file j) \<and>
    (\<exists>n. f_cache (jf_file j') = f_cache (jf_file j) @ take n (frame_bytes crc r)) \<and>
    (res = Ok () \<longrightarrow> f_cache (jf_file j') = f_cache (jf_file j) @ frame_bytes crc r)"
proof (cases "encode_record crc r")
  case (Inl e)
  then have "j' = j" "res = Err (WeFormat e)"
    using assms by (simp_all add: jf_append_def)
  then show ?thesis
    by (auto intro: exI [of _ 0])
next
  case (Inr bs)
  obtain f1 r1 where a: "file_append (jf_file j) bs = (f1, r1)"
    by (cases "file_append (jf_file j) bs")
  have "bs = frame_bytes crc r"
    using Inr by (simp add: encode_record_frame)
  then show ?thesis
    using assms Inr a file_append_result [OF a] by (cases r1) (auto simp: jf_append_def)
qed

lemma jf_sync_law:
  assumes "jf_sync_data j = (j', res)"
  shows "jf_total_length j' = jf_total_length j \<and> f_cache (jf_file j') = f_cache (jf_file j) \<and>
    f_stable (jf_file j') = (if res = Ok () then f_cache (jf_file j) else f_stable (jf_file j))"
proof -
  obtain f1 r1 where s: "file_sync (jf_file j) = (f1, r1)"
    by (cases "file_sync (jf_file j)")
  show ?thesis
    using assms s file_sync_result [OF s] by (cases r1) (auto simp: jf_sync_data_def)
qed

interpretation files: durable_store crc part_file_data "journal_file_journal crc"
    pf_wf "\<lambda>pf. f_cache (pf_file pf)" "\<lambda>pf. f_stable (pf_file pf)"
    "\<lambda>jf. f_cache (jf_file jf)" "\<lambda>jf. f_stable (jf_file jf)"
  for crc
proof (unfold_locales, goal_cases)
  case (1 d)
  then show ?case
    by (simp add: part_file_data_def pf_wf_def)
next
  case (2 d off bs d' res)
  then show ?case
    using pf_write_law [OF 2] by (simp add: part_file_data_def)
next
  case (3 d d' res)
  then show ?case
    using pf_sync_law [OF 3] by (simp add: part_file_data_def)
next
  case (4 j r j' res)
  then show ?case
    using jf_append_law [of crc j r j' res] by (simp add: journal_file_journal_def)
next
  case (5 j j' res)
  then show ?case
    using jf_sync_law [of j j' res] by (simp add: journal_file_journal_def)
qed

end
