(* ===== verification/WriterService.thy ===== *)
theory WriterService
  imports SegmentAllocator DurableWriter "HOL-Library.Code_Target_Nat"
begin

text \<open>
  The download-state actor of \<open>downpour-engine/src/writer_service.rs\<close>: one owner of the allocator and
  the durable writer, which processes commands one at a time, and the worker-facing \<open>GrantWriter\<close>
  cursor.  Concurrency between workers is the order in which their commands reach the actor, so a
  run is any sequence of commands.  The channel itself (\<open>tokio\<close>) is not modelled: a command that the
  actor never takes from the queue is answered \<open>ReplyDropped\<close>.

  Every change of ownership is preceded by a flush.  That fence is what keeps every staged block
  owned by its worker, and with it the crash-consistency theorem of this theory.
\<close>

section \<open>Data\<close>

definition DEFAULT_WRITER_QUEUE_CAPACITY :: nat where
  "DEFAULT_WRITER_QUEUE_CAPACITY = 32"

definition MAX_WRITE_BLOCK_BYTES :: nat where
  "MAX_WRITE_BLOCK_BYTES = 256 * 1024"

record allocation_receipt =
  ar_allocation :: "allocation option"
  ar_durable :: "durable_block list"

record write_receipt =
  wr_range :: range64
  wr_durable :: "durable_block list"

record abandon_receipt =
  br_released :: u64
  br_durable :: "durable_block list"

datatype service_error =
    SvcZeroQueueCapacity
  | SvcBlockTooLarge nat nat
  | SvcCursorOverflow
  | SvcBeyondGrant u64 u64 u64 u64
  | SvcReplyDropped
  | SvcAllocator allocator_error
  | SvcWriter writer_error

datatype command =
    CmdAllocate worker_id
  | CmdWrite worker_id u64 bytes nat
  | CmdFlush
  | CmdFlushIfDue nat
  | CmdAbandon worker_id
  | CmdSnapshot
  | CmdShutdown

datatype reply =
    RpAllocation "service_error + allocation_receipt"
  | RpWrite "service_error + write_receipt"
  | RpBlocks "service_error + durable_block list"
  | RpAbandon "service_error + abandon_receipt"
  | RpSnapshot "service_error + segment_allocator"

record ('d, 'j) state_actor =
  ac_writer :: "('d, 'j) durable_writer"
  ac_allocator :: segment_allocator

text \<open>What the actor is compiled against: platform, hash and the two stores.\<close>

record ('d, 'j) services =
  sv_platform :: platform
  sv_blake3 :: "bytes \<Rightarrow> bytes"
  sv_data :: "'d durable_data"
  sv_journal :: "'j durable_journal"

section \<open>The actor\<close>

definition svc_start ::
    "('d, 'j) durable_writer \<Rightarrow> segment_allocator \<Rightarrow> nat \<Rightarrow> service_error + ('d, 'j) state_actor" where
  "svc_start w sa capacity =
     (if capacity = 0 then Err SvcZeroQueueCapacity
      else Ok \<lparr>ac_writer = w, ac_allocator = sa\<rparr>)"

definition put_back ::
    "('d, 'j) state_actor \<Rightarrow> ('d, 'j) durable_writer \<Rightarrow> interval_map \<Rightarrow> ('d, 'j) state_actor" where
  "put_back ac w m =
     ac\<lparr>ac_writer := w, ac_allocator := (ac_allocator ac)\<lparr>sa_intervals := m\<rparr>\<rparr>"

definition actor_flush ::
    "('d, 'j) services \<Rightarrow> ('d, 'j) state_actor \<Rightarrow>
     ('d, 'j) state_actor \<times> (service_error + durable_block list)" where
  "actor_flush sv ac =
     (let (w, m, r) = dw_flush (sv_data sv) (sv_journal sv) (ac_writer ac) (sa_intervals (ac_allocator ac))
      in (put_back ac w m, map_err SvcWriter r))"

definition actor_flush_if_due ::
    "('d, 'j) services \<Rightarrow> ('d, 'j) state_actor \<Rightarrow> nat \<Rightarrow>
     ('d, 'j) state_actor \<times> (service_error + durable_block list)" where
  "actor_flush_if_due sv ac now =
     (let (w, m, r) = dw_flush_if_due (sv_data sv) (sv_journal sv) (ac_writer ac)
                        (sa_intervals (ac_allocator ac)) now
      in (put_back ac w m, map_err SvcWriter r))"

definition actor_allocate ::
    "('d, 'j) services \<Rightarrow> ('d, 'j) state_actor \<Rightarrow> worker_id \<Rightarrow>
     ('d, 'j) state_actor \<times> (service_error + allocation_receipt)" where
  "actor_allocate sv ac worker =
     (case actor_flush sv ac of
        (ac1, Err e) \<Rightarrow> (ac1, Err e)
      | (ac1, Ok durable) \<Rightarrow>
          (case allocate (ac_allocator ac1) worker of
             (sa, Err e) \<Rightarrow> (ac1\<lparr>ac_allocator := sa\<rparr>, Err (SvcAllocator e))
           | (sa, Ok a) \<Rightarrow>
               (ac1\<lparr>ac_allocator := sa\<rparr>, Ok \<lparr>ar_allocation = a, ar_durable = durable\<rparr>)))"

definition actor_write ::
    "('d, 'j) services \<Rightarrow> ('d, 'j) state_actor \<Rightarrow> worker_id \<Rightarrow> u64 \<Rightarrow> bytes \<Rightarrow> nat \<Rightarrow>
     ('d, 'j) state_actor \<times> (service_error + write_receipt)" where
  "actor_write sv ac worker off bs now =
     (case (try_from_nat (length bs) :: u64 option) of
        None \<Rightarrow> (ac, Err SvcCursorOverflow)
      | Some len \<Rightarrow>
          (case checked_add off len of
             None \<Rightarrow> (ac, Err SvcCursorOverflow)
           | Some end' \<Rightarrow>
               (case snd (im_complete (sa_intervals (ac_allocator ac)) (off, end') worker) of
                  Err e \<Rightarrow> (ac, Err (SvcWriter (WeInterval e)))
                | Ok _ \<Rightarrow>
                    (let (w, m, r) = dw_stage (sv_platform sv) (sv_blake3 sv) (sv_data sv) (sv_journal sv)
                                       (ac_writer ac) (sa_intervals (ac_allocator ac)) worker off bs now
                     in (put_back ac w m,
                         case r of Err e \<Rightarrow> Err (SvcWriter e)
                                 | Ok durable \<Rightarrow> Ok \<lparr>wr_range = (off, end'), wr_durable = durable\<rparr>)))))"

definition actor_abandon ::
    "('d, 'j) services \<Rightarrow> ('d, 'j) state_actor \<Rightarrow> worker_id \<Rightarrow>
     ('d, 'j) state_actor \<times> (service_error + abandon_receipt)" where
  "actor_abandon sv ac worker =
     (case actor_flush sv ac of
        (ac1, Err e) \<Rightarrow> (ac1, Err e)
      | (ac1, Ok durable) \<Rightarrow>
          (let (sa, released) = sa_abandon (ac_allocator ac1) worker
           in (ac1\<lparr>ac_allocator := sa\<rparr>, Ok \<lparr>br_released = released, br_durable = durable\<rparr>)))"

definition actor_shutdown ::
    "('d, 'j) services \<Rightarrow> ('d, 'j) state_actor \<Rightarrow>
     ('d, 'j) state_actor \<times> (service_error + segment_allocator)" where
  "actor_shutdown sv ac =
     (case actor_flush sv ac of
        (ac1, Err e) \<Rightarrow> (ac1, Err e)
      | (ac1, Ok _) \<Rightarrow> (ac1, Ok (ac_allocator ac1)))"

fun actor_handle ::
    "('d, 'j) services \<Rightarrow> ('d, 'j) state_actor \<Rightarrow> command \<Rightarrow> ('d, 'j) state_actor \<times> reply" where
  "actor_handle sv ac (CmdAllocate v) = map_prod id RpAllocation (actor_allocate sv ac v)"
| "actor_handle sv ac (CmdWrite v off bs now) = map_prod id RpWrite (actor_write sv ac v off bs now)"
| "actor_handle sv ac CmdFlush = map_prod id RpBlocks (actor_flush sv ac)"
| "actor_handle sv ac (CmdFlushIfDue now) = map_prod id RpBlocks (actor_flush_if_due sv ac now)"
| "actor_handle sv ac (CmdAbandon v) = map_prod id RpAbandon (actor_abandon sv ac v)"
| "actor_handle sv ac CmdSnapshot = (ac, RpSnapshot (Ok (ac_allocator ac)))"
| "actor_handle sv ac CmdShutdown = map_prod id RpSnapshot (actor_shutdown sv ac)"

fun dropped_reply :: "command \<Rightarrow> reply" where
  "dropped_reply (CmdAllocate _) = RpAllocation (Err SvcReplyDropped)"
| "dropped_reply (CmdWrite _ _ _ _) = RpWrite (Err SvcReplyDropped)"
| "dropped_reply CmdFlush = RpBlocks (Err SvcReplyDropped)"
| "dropped_reply (CmdFlushIfDue _) = RpBlocks (Err SvcReplyDropped)"
| "dropped_reply (CmdAbandon _) = RpAbandon (Err SvcReplyDropped)"
| "dropped_reply CmdSnapshot = RpSnapshot (Err SvcReplyDropped)"
| "dropped_reply CmdShutdown = RpSnapshot (Err SvcReplyDropped)"

text \<open>The receive loop: a shutdown is answered and ends it; queued commands after it are dropped.\<close>

fun actor_run ::
    "('d, 'j) services \<Rightarrow> ('d, 'j) state_actor \<Rightarrow> command list \<Rightarrow> ('d, 'j) state_actor \<times> reply list" where
  "actor_run sv ac [] = (ac, [])"
| "actor_run sv ac (c # cs) =
     (let (ac1, r) = actor_handle sv ac c in
      if c = CmdShutdown then (ac1, r # map dropped_reply cs)
      else (let (ac2, rs) = actor_run sv ac1 cs in (ac2, r # rs)))"

section \<open>The worker-facing cursor\<close>

record grant_writer =
  gw_grant :: grant_t
  gw_next_offset :: u64

definition writer_for :: "grant_t \<Rightarrow> grant_writer" where
  "writer_for g = \<lparr>gw_grant = g, gw_next_offset = fst (g_range g)\<rparr>"

definition gw_write ::
    "('d, 'j) services \<Rightarrow> ('d, 'j) state_actor \<Rightarrow> grant_writer \<Rightarrow> bytes \<Rightarrow> nat \<Rightarrow>
     ('d, 'j) state_actor \<times> grant_writer \<times> (service_error + write_receipt)" where
  "gw_write sv ac gw bs now =
     (if length bs > MAX_WRITE_BLOCK_BYTES
      then (ac, gw, Err (SvcBlockTooLarge (length bs) MAX_WRITE_BLOCK_BYTES))
      else
        (case (try_from_nat (length bs) :: u64 option) of
           None \<Rightarrow> (ac, gw, Err SvcCursorOverflow)
         | Some len \<Rightarrow>
             (case checked_add (gw_next_offset gw) len of
                None \<Rightarrow> (ac, gw, Err SvcCursorOverflow)
              | Some end' \<Rightarrow>
                  if end' > snd (g_range (gw_grant gw))
                  then (ac, gw, Err (SvcBeyondGrant (gw_next_offset gw) end'
                                       (fst (g_range (gw_grant gw))) (snd (g_range (gw_grant gw)))))
                  else
                    (case actor_write sv ac (g_worker (gw_grant gw)) (gw_next_offset gw) bs now of
                       (ac1, Err e) \<Rightarrow> (ac1, gw, Err e)
                     | (ac1, Ok receipt) \<Rightarrow> (ac1, gw\<lparr>gw_next_offset := end'\<rparr>, Ok receipt)))))"

section \<open>The actor invariant\<close>

context durable_store
begin

text \<open>A run of the actor keeps the writer's invariant, with the allocator's own map as the map.\<close>

definition actor_ok :: "(bytes \<Rightarrow> bytes) \<Rightarrow> file_header \<Rightarrow> ('d, 'j) state_actor \<Rightarrow> bool" where
  "actor_ok blake3 h ac =
     (sa_inv (ac_allocator ac) \<and>
      (\<exists>rs. usable blake3 h (ac_writer ac) (sa_intervals (ac_allocator ac)) rs \<or>
            broken blake3 h (ac_writer ac) (sa_intervals (ac_allocator ac)) rs))"

lemma usable_remap:
  assumes "usable blake3 h w m rs" and "dw_staged w = []" and "invariants_hold m'"
    and "im_total_length m' = im_total_length m"
    and "\<And>n. byte_state m' n = Some Complete \<longleftrightarrow> byte_state m n = Some Complete"
  shows "usable blake3 h w m' rs"
  using assms by (simp add: usable_def)

lemma actor_ok_put_back:
  assumes "sa_inv (ac_allocator ac)"
    and "usable blake3 h w m rs \<or> broken blake3 h w m rs"
  shows "actor_ok blake3 h (put_back ac w m)"
proof -
  have "invariants_hold m"
    using assms(2) by (auto simp: usable_def broken_def)
  then show ?thesis
    using assms by (auto simp: actor_ok_def put_back_def sa_inv_def)
qed

lemma put_back_same:
  "put_back ac (ac_writer ac) (sa_intervals (ac_allocator ac)) = ac"
  by (simp add: put_back_def)

end

lemma allocate_total:
  assumes "sa_inv sa"
  shows "im_total_length (sa_intervals (fst (allocate sa w))) = im_total_length (sa_intervals sa)"
proof -
  have m: "invariants_hold (sa_intervals sa)"
    using assms by (simp add: sa_inv_def)
  have g: "im_total_length (fst (grant (sa_intervals sa) r v)) = im_total_length (sa_intervals sa)" for r v
    using grant_inv(2) [OF m] .
  have s: "im_total_length (fst (split_in_progress (sa_intervals sa) at v u)) = im_total_length (sa_intervals sa)" for at v u
    using split_inv(2) [OF m] .
  show ?thesis
    using g s
    by (auto simp: allocate_def Let_def split_beta split: option.splits sum.splits)
qed

lemma allocate_keeps_complete:
  assumes "sa_inv sa"
  shows "sa_state (fst (allocate sa w)) n = Some Complete \<longleftrightarrow> sa_state sa n = Some Complete"
proof (cases "snd (allocate sa w)")
  case (Inl e)
  then show ?thesis
    using allocate_result [OF assms, of w] by simp
next
  case (Inr oa)
  show ?thesis
  proof (cases oa)
    case None
    then show ?thesis
      using allocate_result [OF assms, of w] Inr by simp
  next
    case (Some a)
    then have "sa_state (fst (allocate sa w)) = upd_range (sa_state sa) (g_range (al_grant a)) (Some (InProgress w))"
      and "\<forall>b. fst (g_range (al_grant a)) \<le> b \<and> b < snd (g_range (al_grant a)) \<longrightarrow> sa_state sa b \<noteq> Some Complete"
      using allocate_result [OF assms, of w] Inr by (auto split: option.splits)
    then show ?thesis
      by (auto simp: upd_range_def)
  qed
qed

context durable_store
begin

lemma flush_ready:
  assumes sv: "sv_data sv = D" "sv_journal sv = J"
    and ok: "actor_ok blake3 h ac" and f: "actor_flush sv ac = (ac1, r)"
  shows "actor_ok blake3 h ac1"
    and "r = Ok ds \<Longrightarrow> \<exists>rs. usable blake3 h (ac_writer ac1) (sa_intervals (ac_allocator ac1)) rs \<and>
           dw_staged (ac_writer ac1) = []"
proof -
  obtain w m r0 where fl: "dw_flush D J (ac_writer ac) (sa_intervals (ac_allocator ac)) = (w, m, r0)"
    by (cases "dw_flush D J (ac_writer ac) (sa_intervals (ac_allocator ac))") auto
  have ac1: "ac1 = put_back ac w m" "r = map_err SvcWriter r0"
    using f sv fl by (simp_all add: actor_flush_def)
  obtain rs where "usable blake3 h (ac_writer ac) (sa_intervals (ac_allocator ac)) rs \<or>
      broken blake3 h (ac_writer ac) (sa_intervals (ac_allocator ac)) rs" and sa: "sa_inv (ac_allocator ac)"
    using ok by (auto simp: actor_ok_def)
  then consider (u) "usable blake3 h (ac_writer ac) (sa_intervals (ac_allocator ac)) rs"
    | (b) "broken blake3 h (ac_writer ac) (sa_intervals (ac_allocator ac)) rs"
    by blast
  then have "actor_ok blake3 h ac1 \<and> (r = Ok ds \<longrightarrow>
      (\<exists>rs. usable blake3 h (ac_writer ac1) (sa_intervals (ac_allocator ac1)) rs \<and> dw_staged (ac_writer ac1) = []))"
  proof cases
    case u
    have "actor_ok blake3 h ac1"
      using flush_safe [OF u fl] actor_ok_put_back [OF sa] ac1(1) by blast
    moreover have "\<exists>rs. usable blake3 h w m rs \<and> dw_staged w = []" if "r0 = Ok ds"
      using u fl by (rule flush_outcome) (use that in auto)
    ultimately show ?thesis
      using ac1 by (auto simp: put_back_def)
  next
    case b
    then have "dw_flush D J (ac_writer ac) (sa_intervals (ac_allocator ac)) =
        (ac_writer ac, sa_intervals (ac_allocator ac), Err WePoisoned)"
      by (intro poisoned_refuses) (simp add: broken_def)
    then show ?thesis
      using ok ac1 fl put_back_same [of ac] by auto
  qed
  then show "actor_ok blake3 h ac1"
    and "r = Ok ds \<Longrightarrow> \<exists>rs. usable blake3 h (ac_writer ac1) (sa_intervals (ac_allocator ac1)) rs \<and>
           dw_staged (ac_writer ac1) = []"
    by simp_all
qed

lemma actor_ok_reallocate:
  assumes u: "usable blake3 h (ac_writer ac) (sa_intervals (ac_allocator ac)) rs" and "dw_staged (ac_writer ac) = []"
    and "sa_inv sa" and "im_total_length (sa_intervals sa) = im_total_length (sa_intervals (ac_allocator ac))"
    and "\<And>n. sa_state sa n = Some Complete \<longleftrightarrow> sa_state (ac_allocator ac) n = Some Complete"
  shows "actor_ok blake3 h (ac\<lparr>ac_allocator := sa\<rparr>)"
proof -
  have "usable blake3 h (ac_writer ac) (sa_intervals sa) rs"
    using assms by (intro usable_remap [OF u]) (auto simp: sa_inv_def)
  then show ?thesis
    using assms(3) by (auto simp: actor_ok_def)
qed

lemma actor_write_ok:
  assumes sv: "sv_data sv = D" "sv_journal sv = J" "sv_blake3 sv = blake3" and dg: "digest32 blake3"
    and ok: "actor_ok blake3 h ac"
  shows "actor_ok blake3 h (fst (actor_write sv ac v off bs now))"
proof -
  obtain w m r0 where st: "dw_stage (sv_platform sv) blake3 D J (ac_writer ac)
      (sa_intervals (ac_allocator ac)) v off bs now = (w, m, r0)"
    by (cases "dw_stage (sv_platform sv) blake3 D J (ac_writer ac)
      (sa_intervals (ac_allocator ac)) v off bs now") auto
  have "fst (actor_write sv ac v off bs now) = ac \<or> fst (actor_write sv ac v off bs now) = put_back ac w m"
    using sv st by (auto simp: actor_write_def split: option.splits sum.splits)
  moreover have "actor_ok blake3 h (put_back ac w m)"
  proof -
    obtain rs where "usable blake3 h (ac_writer ac) (sa_intervals (ac_allocator ac)) rs \<or>
        broken blake3 h (ac_writer ac) (sa_intervals (ac_allocator ac)) rs" and sa: "sa_inv (ac_allocator ac)"
      using ok by (auto simp: actor_ok_def)
    then show ?thesis
    proof (elim disjE)
      assume "usable blake3 h (ac_writer ac) (sa_intervals (ac_allocator ac)) rs"
      from stage_safe [OF this dg st] show ?thesis
        using actor_ok_put_back [OF sa] by blast
    next
      assume "broken blake3 h (ac_writer ac) (sa_intervals (ac_allocator ac)) rs"
      then have "(w, m) = (ac_writer ac, sa_intervals (ac_allocator ac))"
        using st by (simp add: poisoned_refuses broken_def)
      then show ?thesis
        using ok put_back_same [of ac] by auto
    qed
  qed
  ultimately show ?thesis
    using ok by auto
qed

lemma actor_flush_if_due_ok:
  assumes sv: "sv_data sv = D" "sv_journal sv = J" and ok: "actor_ok blake3 h ac"
  shows "actor_ok blake3 h (fst (actor_flush_if_due sv ac now))"
proof -
  obtain w m r0 where st: "dw_flush_if_due D J (ac_writer ac) (sa_intervals (ac_allocator ac)) now = (w, m, r0)"
    by (cases "dw_flush_if_due D J (ac_writer ac) (sa_intervals (ac_allocator ac)) now") auto
  obtain rs where "usable blake3 h (ac_writer ac) (sa_intervals (ac_allocator ac)) rs \<or>
      broken blake3 h (ac_writer ac) (sa_intervals (ac_allocator ac)) rs" and sa: "sa_inv (ac_allocator ac)"
    using ok by (auto simp: actor_ok_def)
  then have "actor_ok blake3 h (put_back ac w m)"
  proof (elim disjE)
    assume "usable blake3 h (ac_writer ac) (sa_intervals (ac_allocator ac)) rs"
    from flush_if_due_safe [OF this st] show ?thesis
      using actor_ok_put_back [OF sa] by blast
  next
    assume "broken blake3 h (ac_writer ac) (sa_intervals (ac_allocator ac)) rs"
    then have "(w, m) = (ac_writer ac, sa_intervals (ac_allocator ac))"
      using st by (simp add: poisoned_refuses broken_def)
    then show ?thesis
      using ok put_back_same [of ac] by auto
  qed
  then show ?thesis
    using sv st by (simp add: actor_flush_if_due_def)
qed

lemma actor_handle_ok:
  assumes sv: "sv_data sv = D" "sv_journal sv = J" "sv_blake3 sv = blake3" and dg: "digest32 blake3"
    and ok: "actor_ok blake3 h ac"
  shows "actor_ok blake3 h (fst (actor_handle sv ac c))"
proof -
  obtain ac1 r where f: "actor_flush sv ac = (ac1, r)"
    by (cases "actor_flush sv ac")
  note F = flush_ready [OF sv(1,2) ok f]
  have inv1: "sa_inv (ac_allocator ac1)"
    using F(1) by (simp add: actor_ok_def)
  have al: "actor_ok blake3 h (ac1\<lparr>ac_allocator := fst (allocate (ac_allocator ac1) v)\<rparr>)" if r: "r = Ok ds" for v ds
  proof -
    obtain rs where u: "usable blake3 h (ac_writer ac1) (sa_intervals (ac_allocator ac1)) rs" "dw_staged (ac_writer ac1) = []"
      using F(2) [OF r] by blast
    show ?thesis
      by (rule actor_ok_reallocate [OF u])
         (simp_all add: allocate_result [OF inv1, THEN conjunct1] allocate_total [OF inv1] allocate_keeps_complete [OF inv1])
  qed
  have ab: "actor_ok blake3 h (ac1\<lparr>ac_allocator := fst (sa_abandon (ac_allocator ac1) v)\<rparr>)" if r: "r = Ok ds" for v ds
  proof -
    obtain rs where u: "usable blake3 h (ac_writer ac1) (sa_intervals (ac_allocator ac1)) rs" "dw_staged (ac_writer ac1) = []"
      using F(2) [OF r] by blast
    have "sa_state (fst (sa_abandon (ac_allocator ac1) v)) n = Some Complete \<longleftrightarrow>
        sa_state (ac_allocator ac1) n = Some Complete" for n
      by (auto simp: sa_abandon_result(2) [OF inv1] relabel_def)
    then show ?thesis
      by (intro actor_ok_reallocate [OF u]) (simp_all add: sa_abandon_result(1,3) [OF inv1])
  qed
  show ?thesis
  proof (cases c)
    case (CmdAllocate v)
    then show ?thesis
      using F(1) f al [of _ v] by (cases r) (auto simp: actor_allocate_def split_beta split: sum.splits)
  next
    case (CmdAbandon v)
    then show ?thesis
      using F(1) f ab [of _ v] by (cases r) (auto simp: actor_abandon_def split_beta)
  next
    case CmdShutdown
    then show ?thesis
      using F(1) f by (cases r) (auto simp: actor_shutdown_def)
  qed (use F(1) f ok actor_write_ok [OF sv dg ok] actor_flush_if_due_ok [OF sv(1,2) ok] in auto)
qed

lemma actor_run_ok:
  assumes sv: "sv_data sv = D" "sv_journal sv = J" "sv_blake3 sv = blake3" and dg: "digest32 blake3"
  shows "actor_ok blake3 h ac \<Longrightarrow> actor_ok blake3 h (fst (actor_run sv ac cs))"
proof (induction cs arbitrary: ac)
  case (Cons c cs)
  then show ?case
    using actor_handle_ok [OF sv dg Cons.prems, of c] by (auto simp: split_beta Let_def)
qed simp

end

section \<open>Properties\<close>

lemma prepare_length:
  "prepare ops f len = (g, Ok m) \<Longrightarrow> length (f_cache g) = unat len"
  by (auto simp: prepare_def prepare_with_def dest!: set_len_then_Ok
      split: prod.splits sum.splits if_splits)

lemma pf_create_wf:
  assumes "pf_create ops open_new target n = Ok pf"
  shows "pf_wf pf" and "pf_total_length pf = n"
  using assms
  by (auto simp: pf_create_def and_then_def pf_wf_def dest!: prepare_length
      split: if_splits sum.splits prod.splits)

lemma jf_create_bytes:
  assumes "jf_create crc open_new sync_parent p h = Ok jf"
    and "\<forall>q f. open_new q = Ok f \<longrightarrow> f_cache f = [] \<and> f_stable f = []"
  shows "f_cache (jf_file jf) = encode_header crc h" and "f_stable (jf_file jf) = encode_header crc h"
    and "jf_total_length jf = fh_total_length h"
proof -
  obtain f f1 f2 u v where f: "open_new p = Ok f" and a: "file_append f (encode_header crc h) = (f1, Ok u)"
    and s: "file_sync f1 = (f2, Ok v)"
    and jf: "jf = \<lparr>jf_file = f2, jf_path = p, jf_total_length = fh_total_length h\<rparr>"
    using assms(1) by (auto simp: jf_create_def split: sum.splits if_splits prod.splits)
  have "f_cache f1 = encode_header crc h"
    using a assms(2) f file_append_result [OF a] by auto
  then show "f_cache (jf_file jf) = encode_header crc h" "f_stable (jf_file jf) = encode_header crc h"
    "jf_total_length jf = fh_total_length h"
    using file_sync_result [OF s] jf by auto
qed

lemma part_file_data_length [simp]: "dd_total_length part_file_data = pf_total_length"
  by (simp add: part_file_data_def)

text \<open>A writer over freshly created files starts with the empty log.\<close>

lemma fresh_writer_usable:
  assumes wf: "wf_header h" and j: "jf_create crc open_new sync p h = Ok jf"
    and new: "\<forall>q f. open_new q = Ok f \<longrightarrow> f_cache f = [] \<and> f_stable f = []"
    and pf: "pf_wf pf" "pf_total_length pf = n"
    and w: "dw_try_new part_file_data (journal_file_journal crc) pf jf 0 = Ok w"
    and m: "invariants_hold m" "im_total_length m = n" "\<And>b. byte_state m b \<noteq> Some Complete"
  shows "files.usable crc blake3 h w m []"
proof -
  note jb = jf_create_bytes [OF j new]
  have wd: "dw_data w = pf" "dw_journal w = jf" "dw_next_sequence w = 0" "dw_staged w = []" "\<not> dw_poisoned w"
    and len: "fh_total_length h = n"
    using w pf jb(3) by (auto simp: dw_try_new_def journal_file_journal_def split: if_splits)
  have "files.recorded crc blake3 h w [] []"
    using wf jb wd pf len
    by (auto simp: files.recorded_def block_log_def journal_body_def pf_wf_def length_encode_header [OF wf]
        intro!: exI [of _ HEADER_LEN])
  then show ?thesis
    using wd jb pf m by (auto simp: files.usable_def log_covers_def)
qed

lemma fresh_actor_ok:
  assumes wf: "wf_header h" and j: "jf_create crc open_new sync_parent p h = Ok jf"
    and new: "\<forall>q f. open_new q = Ok f \<longrightarrow> f_cache f = [] \<and> f_stable f = []"
    and d: "pf_create ops open_new target n = Ok pf"
    and w: "dw_try_new part_file_data (journal_file_journal crc) pf jf 0 = Ok w"
    and sa: "sa_new n k = Ok sa" and ac: "svc_start w sa capacity = Ok ac"
  shows "files.actor_ok crc blake3 h ac"
proof -
  have aw: "ac_writer ac = w" "ac_allocator ac = sa"
    using ac by (auto simp: svc_start_def split: if_splits)
  have im: "sa_inv sa" "sa_intervals sa = im_new n"
    using sa_new_inv [OF sa] by simp_all
  have "files.usable crc blake3 h w (im_new n) []"
    using fresh_writer_usable [OF wf j new pf_create_wf [OF d] w, of "im_new n" blake3] by simp
  then show ?thesis
    using aw im by (auto simp: files.actor_ok_def)
qed

abbreviation file_services :: "(bytes \<Rightarrow> u32) \<Rightarrow> platform \<Rightarrow> (bytes \<Rightarrow> bytes) \<Rightarrow> (part_file, journal_file) services" where
  "file_services crc plat blake3 \<equiv>
     \<lparr>sv_platform = plat, sv_blake3 = blake3, sv_data = part_file_data, sv_journal = journal_file_journal crc\<rparr>"

lemma crash_recoverable:
  assumes "digest32 blake3" and "wf_header h" and "jf_create crc open_new sync_parent p h = Ok jf"
    and "\<forall>q f. open_new q = Ok f \<longrightarrow> f_cache f = [] \<and> f_stable f = []"
    and "pf_create ops open_new target n = Ok pf"
    and "dw_try_new part_file_data (journal_file_journal crc) pf jf 0 = Ok w"
    and "sa_new n k = Ok sa" and "svc_start w sa capacity = Ok ac"
    and "actor_run (file_services crc plat blake3) ac cs = (ac', replies)"
    and "crash_append_image (f_stable (jf_file (dw_journal (ac_writer ac'))))
           (f_cache (jf_file (dw_journal (ac_writer ac')))) jb"
    and "crash_image (f_stable (pf_file (dw_data (ac_writer ac'))))
           (f_cache (pf_file (dw_data (ac_writer ac')))) db"
    and "length jb < 2 ^ 64"
  shows "\<exists>out st. replay_bytes crc jb = Ok out \<and> ro_header out = h \<and>
    effective_state h (ro_records out) = Ok st \<and>
    (\<forall>b \<in> set (es_blocks st). block_end b \<le> length db \<and>
       blake3 (chunk (unat (cb_offset b)) (block_end b) db) = cb_blake3 b) \<and>
    (\<forall>x. sa_state (ac_allocator ac') x = Some Complete \<longrightarrow>
       (\<exists>b \<in> set (es_blocks st). unat (cb_offset b) \<le> unat x \<and> unat x < block_end b))"
proof -
  have "files.actor_ok crc blake3 h ac"
    using assms(2-8) by (rule fresh_actor_ok)
  then have "files.actor_ok crc blake3 h ac'"
    using files.actor_run_ok [of "file_services crc plat blake3", OF _ _ _ assms(1), of crc h ac cs] assms(9) by simp
  then obtain rs ext where "files.recorded crc blake3 h (ac_writer ac') rs ext"
    and cov: "\<And>x. sa_state (ac_allocator ac') x = Some Complete \<longleftrightarrow> log_covers rs x"
    by (auto simp: files.actor_ok_def files.usable_def files.broken_def)
  from files.recorded_crash [OF this(1) assms(10-12)] show ?thesis
    unfolding cov .
qed

text \<open>
  C1.  Crash consistency of the storage path.  Start the writer service on a new journal and a new
  part file, let any sequence of commands run with any schedule of short writes and failing writes,
  appends and syncs, and lose power: the journal keeps its synchronised bytes and some prefix of the
  rest, the data file keeps each byte from the last sync or from the cache.  Recovery then succeeds:
  the journal replays, its records fold into a state, each block of that state hashes to its recorded
  digest on the surviving data, and every byte the service had called complete is in such a block.
\<close>

theorem crash_consistency:
  assumes "digest32 blake3" and "wf_header h" and "jf_create crc open_new sync_parent p h = Ok jf"
    and "\<forall>q f. open_new q = Ok f \<longrightarrow> f_cache f = [] \<and> f_stable f = []"
    and "pf_create ops open_new target n = Ok pf"
    and "dw_try_new part_file_data (journal_file_journal crc) pf jf 0 = Ok w"
    and "sa_new n k = Ok sa" and "svc_start w sa capacity = Ok ac"
    and "actor_run (file_services crc plat blake3) ac cs = (ac', replies)"
    and "crash_append_image (f_stable (jf_file (dw_journal (ac_writer ac'))))
           (f_cache (jf_file (dw_journal (ac_writer ac')))) jb"
    and "crash_image (f_stable (pf_file (dw_data (ac_writer ac'))))
           (f_cache (pf_file (dw_data (ac_writer ac')))) db"
    and "length jb < 2 ^ 64"
  shows "\<exists>out st. replay_bytes crc jb = Ok out \<and> ro_header out = h \<and>
    effective_state h (ro_records out) = Ok st \<and>
    (\<forall>b \<in> set (es_blocks st). block_end b \<le> length db \<and>
       blake3 (chunk (unat (cb_offset b)) (block_end b) db) = cb_blake3 b) \<and>
    (\<forall>x. sa_state (ac_allocator ac') x = Some Complete \<longrightarrow>
       (\<exists>b \<in> set (es_blocks st). unat (cb_offset b) \<le> unat x \<and> unat x < block_end b))"
  using assms by (rule crash_recoverable)

definition small_header :: file_header where
  "small_header = \<lparr>fh_transfer_id = replicate 16 0, fh_total_length = 8, fh_block_size = 4,
     fh_validator_hash = replicate 32 0\<rparr>"

definition demo_open :: "path \<Rightarrow> io_error + os_file" where
  "demo_open p = Ok \<lparr>f_cache = [], f_stable = [], f_faults = []\<rparr>"

definition demo_jf :: journal_file where
  "demo_jf = projr (jf_create demo_crc demo_open (\<lambda>_. Ok ()) ''j'' small_header)"

definition demo_pf :: part_file where
  "demo_pf = \<lparr>pf_file = \<lparr>f_cache = replicate 8 0, f_stable = [], f_faults = []\<rparr>,
     pf_path = ''t.dppart'', pf_total_length = 8, pf_method = PosixFallocate\<rparr>"

definition demo_writer :: "(part_file, journal_file) durable_writer" where
  "demo_writer = projr (dw_try_new part_file_data (journal_file_journal demo_crc) demo_pf demo_jf 0)"

definition demo_actor :: "(part_file, journal_file) state_actor" where
  "demo_actor = \<lparr>ac_writer = demo_writer, ac_allocator = projr (sa_new 8 1)\<rparr>"

definition demo_end :: "(part_file, journal_file) state_actor \<times> reply list" where
  "demo_end = actor_run (file_services demo_crc Unix demo_hash) demo_actor
     [CmdAllocate (WorkerId 1), CmdWrite (WorkerId 1) 0 [1, 2, 3, 4] 0, CmdFlush]"

definition demo_after :: "(part_file, journal_file) state_actor \<Rightarrow> bool" where
  "demo_after ac = (length (f_cache (jf_file (dw_journal (ac_writer ac)))) < 200 \<and>
     f_stable (jf_file (dw_journal (ac_writer ac))) = f_cache (jf_file (dw_journal (ac_writer ac))) \<and>
     sa_state (ac_allocator ac) 3 = Some Complete)"

lemma demo_start:
  "jf_create demo_crc demo_open (\<lambda>_. Ok ()) ''j'' small_header = Ok demo_jf"
  "pf_create demo_alloc demo_open ''t'' 8 = Ok demo_pf"
  "dw_try_new part_file_data (journal_file_journal demo_crc) demo_pf demo_jf 0 = Ok demo_writer"
  "sa_new 8 1 = Ok (projr (sa_new 8 1))"
  "svc_start demo_writer (projr (sa_new 8 1)) 1 = Ok demo_actor"
  subgoal by code_simp
  subgoal by (simp add: pf_create_def demo_pf_def demo_open_def part_path_for_def path_file_name_def
      path_components_def prepare_def prepare_with_def demo_alloc_def is_unsupported_def set_len_then_def
      file_set_len_def next_fault_def and_then_def i64_max_def)
  subgoal by (simp add: demo_writer_def dw_try_new_def demo_pf_def demo_jf_def journal_file_journal_def
      jf_create_def demo_open_def file_append_def file_sync_def next_fault_def small_header_def)
  subgoal by code_simp
  subgoal by (simp add: svc_start_def demo_actor_def)
  done

lemma demo_after_end: "demo_after (fst demo_end)"
  by code_simp

theorem crash_consistency_witness:
  "\<exists>out st. replay_bytes demo_crc (f_cache (jf_file (dw_journal (ac_writer (fst demo_end))))) = Ok out \<and>
     ro_header out = small_header \<and> effective_state small_header (ro_records out) = Ok st \<and>
     (\<exists>b \<in> set (es_blocks st). unat (cb_offset b) \<le> 3 \<and> 3 < block_end b)"
proof -
  let ?ac = "fst demo_end"
  have "demo_after ?ac"
    by (rule demo_after_end)
  then have j: "crash_append_image (f_stable (jf_file (dw_journal (ac_writer ?ac))))
      (f_cache (jf_file (dw_journal (ac_writer ?ac)))) (f_cache (jf_file (dw_journal (ac_writer ?ac))))"
    and len: "length (f_cache (jf_file (dw_journal (ac_writer ?ac)))) < 2 ^ 64"
    and c: "sa_state (ac_allocator ?ac) 3 = Some Complete"
    by (auto simp: demo_after_def crash_append_image_def)
  have d: "crash_image (f_stable (pf_file (dw_data (ac_writer ?ac))))
      (f_cache (pf_file (dw_data (ac_writer ?ac)))) (f_cache (pf_file (dw_data (ac_writer ?ac))))"
    by (simp add: crash_image_def)
  have "digest32 demo_hash" "wf_header small_header" "\<forall>q f. demo_open q = Ok f \<longrightarrow> f_cache f = [] \<and> f_stable f = []"
    by (simp_all add: digest32_def demo_hash_def min_def wf_header_def small_header_def demo_open_def)
  moreover have "actor_run (file_services demo_crc Unix demo_hash) demo_actor
      [CmdAllocate (WorkerId 1), CmdWrite (WorkerId 1) 0 [1, 2, 3, 4] 0, CmdFlush] = (?ac, snd demo_end)"
    unfolding demo_end_def by (rule prod.collapse [symmetric])
  ultimately have "\<exists>out st. replay_bytes demo_crc (f_cache (jf_file (dw_journal (ac_writer ?ac)))) = Ok out \<and>
      ro_header out = small_header \<and> effective_state small_header (ro_records out) = Ok st \<and>
      (\<forall>b \<in> set (es_blocks st). block_end b \<le> length (f_cache (pf_file (dw_data (ac_writer ?ac)))) \<and>
         demo_hash (chunk (unat (cb_offset b)) (block_end b) (f_cache (pf_file (dw_data (ac_writer ?ac))))) = cb_blake3 b) \<and>
      (\<forall>x. sa_state (ac_allocator ?ac) x = Some Complete \<longrightarrow>
         (\<exists>b \<in> set (es_blocks st). unat (cb_offset b) \<le> unat x \<and> unat x < block_end b))"
    by (intro crash_consistency [OF _ _ demo_start(1) _ demo_start(2-5) _ j d len])
  then
  obtain out st where "replay_bytes demo_crc (f_cache (jf_file (dw_journal (ac_writer ?ac)))) = Ok out"
    "ro_header out = small_header" "effective_state small_header (ro_records out) = Ok st"
    "\<forall>x. sa_state (ac_allocator ?ac) x = Some Complete \<longrightarrow>
       (\<exists>b \<in> set (es_blocks st). unat (cb_offset b) \<le> unat x \<and> unat x < block_end b)"
    by blast
  moreover from this(4) c have "\<exists>b \<in> set (es_blocks st). unat (cb_offset b) \<le> 3 \<and> 3 < block_end b"
    by fastforce
  ultimately show ?thesis
    by blast
qed

text \<open>A reply that tells the caller something was done.\<close>

fun acknowledges :: "reply \<Rightarrow> bool" where
  "acknowledges (RpAllocation (Ok _)) = True"
| "acknowledges (RpWrite (Ok _)) = True"
| "acknowledges (RpBlocks (Ok _)) = True"
| "acknowledges (RpAbandon (Ok _)) = True"
| "acknowledges _ = False"

lemma acknowledges_dropped [simp]: "\<not> acknowledges (dropped_reply c)"
  by (cases c) simp_all

lemma poisoned_silent:
  assumes "dw_poisoned (ac_writer ac)"
  shows "fst (actor_handle sv ac c) = ac" and "\<not> acknowledges (snd (actor_handle sv ac c))"
  using assms
  by (cases c;
      auto simp: actor_allocate_def actor_write_def actor_flush_def actor_flush_if_due_def actor_abandon_def
       actor_shutdown_def dw_flush_def dw_stage_def dw_flush_if_due_def ensure_usable_def put_back_def map_err_def
       split: option.splits sum.splits)+



text \<open>
  C4.  The commit order of a flush.  The interval map changes only if the data sync, the appends of one
  record per staged block and the journal sync all succeeded, in that order, and then it is the old map
  with exactly the staged ranges completed; every failure leaves the map and the staged blocks as they
  were.  This holds for every pair of stores.
\<close>

theorem flush_commit_order:
  assumes "dw_flush D J w m = (w', m', res)" and "dw_staged w \<noteq> []"
  shows "case res of
      Err e \<Rightarrow> m' = m \<and> dw_staged w' = dw_staged w
    | Ok blocks \<Rightarrow>
        (\<exists>recs j'. dd_sync_data D (dw_data w) = (dw_data w', Ok ()) \<and>
           append_all J (dw_journal w) recs = (j', Ok ()) \<and> dj_sync_data J j' = (dw_journal w', Ok ()) \<and>
           number_staged (dw_next_sequence w) 0 (dw_staged w) = Ok (recs, blocks)) \<and>
        complete_staged m (dw_staged w) = Ok m' \<and> dw_staged w' = [] \<and>
        unat (dw_next_sequence w') = unat (dw_next_sequence w) + length (dw_staged w)"
  using assms
  by (auto simp: dw_flush_def checked_add_def try_from_nat_def unat_word_ariths unat_of_nat
      split: sum.splits prod.splits option.splits if_splits)

lemma stage_data:
  assumes "dw_stage plat blake3 D J w m v off bs now = (w', m', res)"
  shows "dw_data w' = dw_data w \<or> dw_data w' = fst (dd_write_all_at D (dw_data w) off bs) \<or>
    (\<exists>w1. dw_data w1 = fst (dd_write_all_at D (dw_data w) off bs) \<and> dw_data w' = dw_data (fst (dw_flush D J w1 m)))"
proof -
  obtain d' r where wr: "dd_write_all_at D (dw_data w) off bs = (d', r)"
    by (cases "dd_write_all_at D (dw_data w) off bs")
  have w': "w' = fst (dw_stage plat blake3 D J w m v off bs now)"
    using assms by simp
  have push: "dw_data (fst (push_staged D J (w\<lparr>dw_data := d'\<rparr>) m b n now)) = d' \<or>
    (\<exists>w1. dw_data w1 = d' \<and> dw_data (fst (push_staged D J (w\<lparr>dw_data := d'\<rparr>) m b n now)) =
       dw_data (fst (dw_flush D J w1 m)))" for b n
    unfolding push_staged_def Let_def by (auto intro!: exI)
  show ?thesis
    unfolding w' dw_stage_def wr fst_conv using push
    by (auto simp: split_beta Let_def split: sum.splits option.splits if_splits intro: exI [of _ "w\<lparr>dw_data := d'\<rparr>"])
qed

context durable_store
begin

lemma flush_data_cache:
  assumes "d_ok (dw_data w)"
  shows "d_cache (dw_data (fst (dw_flush D J w m))) = d_cache (dw_data w)"
proof -
  obtain d' r where s: "dd_sync_data D (dw_data w) = (d', r)"
    by (cases "dd_sync_data D (dw_data w)")
  have "dw_data (fst (dw_flush D J w m)) \<in> {dw_data w, d'}"
    unfolding dw_flush_def s by (auto split: sum.splits prod.splits option.splits if_splits)
  then show ?thesis
    using sync_law [OF assms s] by auto
qed

lemma stage_confined:
  assumes ok: "d_ok (dw_data w)" and st: "dw_stage plat blake3 D J w m v off bs now = (w', m', res)"
    and i: "i < length (d_cache (dw_data w))" "i < unat off \<or> unat off + length bs \<le> i"
  shows "d_cache (dw_data w') ! i = d_cache (dw_data w) ! i"
proof -
  obtain d' r where wr: "dd_write_all_at D (dw_data w) off bs = (d', r)"
    by (cases "dd_write_all_at D (dw_data w) off bs")
  note law = write_law [OF ok wr]
  have "d_cache (dw_data w') = d_cache (dw_data w) \<or> d_cache (dw_data w') = d_cache d'"
    using stage_data [OF st] wr law flush_data_cache by auto
  then show ?thesis
    using law i by auto
qed

end

text \<open>
  C19.  A worker cannot write outside its grant.  From a cursor inside the grant, \<open>GrantWriter::write\<close> keeps
  the cursor inside, advances it by exactly the block on success and not at all on an error, reports the
  range it wrote, and leaves every byte of the part file outside the grant alone, whatever the
  I/O faults.
\<close>

theorem grant_writer_confined:
  assumes "pf_wf (dw_data (ac_writer ac))"
    and "fst (g_range (gw_grant gw)) \<le> gw_next_offset gw" and "gw_next_offset gw \<le> snd (g_range (gw_grant gw))"
    and "gw_write (file_services crc plat blake3) ac gw bs now = (ac', gw', res)"
  shows "gw_grant gw' = gw_grant gw \<and> gw_next_offset gw' \<le> snd (g_range (gw_grant gw)) \<and>
    (case res of
       Err _ \<Rightarrow> gw' = gw
     | Ok receipt \<Rightarrow> unat (gw_next_offset gw') = unat (gw_next_offset gw) + length bs \<and>
         wr_range receipt = (gw_next_offset gw, gw_next_offset gw')) \<and>
    (\<forall>i < length (f_cache (pf_file (dw_data (ac_writer ac)))).
       i < unat (fst (g_range (gw_grant gw))) \<or> unat (snd (g_range (gw_grant gw))) \<le> i \<longrightarrow>
       f_cache (pf_file (dw_data (ac_writer ac'))) ! i = f_cache (pf_file (dw_data (ac_writer ac))) ! i)"
proof -
  let ?sv = "file_services crc plat blake3" and ?o = "gw_next_offset gw"
  show ?thesis
  proof (cases "length bs \<le> MAX_WRITE_BLOCK_BYTES \<and> unat ?o + length bs < 2 ^ 64 \<and>
      unat ?o + length bs \<le> unat (snd (g_range (gw_grant gw)))")
    case False
    then have "ac' = ac \<and> gw' = gw \<and> (\<exists>e. res = Err e)"
      using assms(4)
      by (auto simp: gw_write_def checked_add_def try_from_nat_def word_less_nat_alt unat_word_ariths unat_of_nat
          split: option.splits if_splits)
    then show ?thesis
      using assms by auto
  next
    case True
    define e where "e = ?o + of_nat (length bs)"
    have len: "unat (of_nat (length bs) :: u64) = length bs"
      using True by (simp add: unat_of_nat)
    then have e: "checked_add ?o (of_nat (length bs)) = Some e" "unat e = unat ?o + length bs"
      "try_from_nat (length bs) = Some (of_nat (length bs) :: u64)"
      using True by (simp_all add: checked_add_def e_def unat_word_ariths try_from_nat_def)
    obtain ac1 r where aw: "actor_write ?sv ac (g_worker (gw_grant gw)) ?o bs now = (ac1, r)"
      by (cases "actor_write ?sv ac (g_worker (gw_grant gw)) ?o bs now")
    have res: "ac' = ac1" "res = r" "gw' = (case r of Err _ \<Rightarrow> gw | Ok _ \<Rightarrow> gw\<lparr>gw_next_offset := e\<rparr>)"
      using assms(4) True e aw
      by (auto simp: gw_write_def not_less word_le_nat_alt word_less_nat_alt split: sum.splits if_splits)
    obtain w1 m1 r1 where st: "dw_stage plat blake3 part_file_data (journal_file_journal crc) (ac_writer ac)
        (sa_intervals (ac_allocator ac)) (g_worker (gw_grant gw)) ?o bs now = (w1, m1, r1)"
      by (cases "dw_stage plat blake3 part_file_data (journal_file_journal crc) (ac_writer ac)
        (sa_intervals (ac_allocator ac)) (g_worker (gw_grant gw)) ?o bs now") auto
    have "ac1 = ac \<or> ac_writer ac1 = w1" and rng: "\<And>receipt. r = Ok receipt \<Longrightarrow> wr_range receipt = (?o, e)"
      using aw st e by (auto simp: actor_write_def put_back_def split: sum.splits)
    then have "f_cache (pf_file (dw_data (ac_writer ac'))) ! i = f_cache (pf_file (dw_data (ac_writer ac))) ! i"
      if "i < length (f_cache (pf_file (dw_data (ac_writer ac))))"
        "i < unat (fst (g_range (gw_grant gw))) \<or> unat (snd (g_range (gw_grant gw))) \<le> i" for i
      using files.stage_confined [OF assms(1) st, of i] that assms(2) True res(1)
      by (auto simp: word_le_nat_alt)
    then show ?thesis
      using res e True assms(2,3) rng by (auto simp: word_le_nat_alt split: sum.splits)
  qed
qed

section \<open>Progress on healthy files\<close>

lemma no_fault [simp]: "f_faults f = [] \<Longrightarrow> next_fault f = (NoFault, f)"
  by (simp add: next_fault_def)

lemma healthy_append:
  assumes "f_faults (jf_file j) = []" and "wf_frames k rs"
  shows "\<exists>j'. append_all (journal_file_journal crc) j rs = (j', Ok ()) \<and> f_faults (jf_file j') = []"
  using assms
proof (induction rs arbitrary: j k)
  case (Cons r rs)
  let ?j = "j\<lparr>jf_file := (jf_file j)\<lparr>f_cache := f_cache (jf_file j) @ frame_bytes crc r\<rparr>\<rparr>"
  have "encode_record crc r = Ok (frame_bytes crc r)"
    using Cons.prems by (simp add: encode_record_frame)
  then have "jf_append crc j r = (?j, Ok ())"
    using Cons.prems by (simp add: jf_append_def file_append_def)
  then show ?case
    using Cons.IH [of ?j] Cons.prems by (auto simp: journal_file_journal_def)
qed simp

lemma healthy_flush:
  assumes "\<not> dw_poisoned w" and "im_total_length m = pf_total_length (dw_data w)" and "invariants_hold m"
    and "f_faults (pf_file (dw_data w)) = []" and "f_faults (jf_file (dw_journal w)) = []"
    and own: "\<forall>b \<in> set (dw_staged w). staged_owned m b" and ap: "sorted_wrt apart (map staged_frame (dw_staged w))"
    and seq: "unat (dw_next_sequence w) + length (dw_staged w) < 2 ^ 64" and ne: "dw_staged w \<noteq> []"
    and fl: "dw_flush part_file_data (journal_file_journal crc) w m = (w', m', res)"
  shows "\<exists>ds. res = Ok ds \<and> map db_range ds = map sb_range (dw_staged w)"
    and "\<not> dw_poisoned w'" and "dw_staged w' = []" and "im_total_length m' = pf_total_length (dw_data w')"
    and "f_stable (pf_file (dw_data w')) = f_cache (pf_file (dw_data w))"
    and "\<forall>n. byte_state m' n = (if in_staged (dw_staged w) n then Some Complete else byte_state m n)"
proof -
  obtain m1 where m1: "complete_staged m (dw_staged w) = Ok m1" "im_total_length m1 = im_total_length m"
    "\<forall>n. byte_state m1 n = (if in_staged (dw_staged w) n then Some Complete else byte_state m n)"
    using complete_staged_Ok [OF assms(3) own ap] by blast
  obtain rs ds where nb: "number_staged (dw_next_sequence w) 0 (dw_staged w) = Ok (rs, ds)"
    "wf_frames (unat (dw_next_sequence w)) rs" "map db_range ds = map sb_range (dw_staged w)"
    using number_staged_Ok [of "dw_next_sequence w" 0, OF _ own] seq by auto
  obtain j' where j': "append_all (journal_file_journal crc) (dw_journal w) rs = (j', Ok ())" "f_faults (jf_file j') = []"
    using healthy_append [OF assms(5) nb(2)] by blast
  have sync: "dd_sync_data part_file_data (dw_data w) =
      (dw_data w\<lparr>pf_file := (pf_file (dw_data w))\<lparr>f_stable := f_cache (pf_file (dw_data w))\<rparr>\<rparr>, Ok ())"
    using assms(4) by (simp add: part_file_data_def pf_sync_data_def file_sync_def)
  have jsync: "dj_sync_data (journal_file_journal crc) j' =
      (j'\<lparr>jf_file := (jf_file j')\<lparr>f_stable := f_cache (jf_file j')\<rparr>\<rparr>, Ok ())"
    using j'(2) by (simp add: journal_file_journal_def jf_sync_data_def file_sync_def)
  have c: "(try_from_nat (length (dw_staged w)) :: u64 option) = Some (of_nat (length (dw_staged w)))"
    "checked_add (dw_next_sequence w) (of_nat (length (dw_staged w))) =
       Some (dw_next_sequence w + of_nat (length (dw_staged w)))"
    using seq by (simp_all add: try_from_nat_def checked_add_def unat_of_nat)
  note all = fl [symmetric, unfolded dw_flush_def ensure_usable_def ensure_interval_identity_def]
  show "\<exists>ds. res = Ok ds \<and> map db_range ds = map sb_range (dw_staged w)"
    "\<not> dw_poisoned w'" "dw_staged w' = []" "im_total_length m' = pf_total_length (dw_data w')"
    "f_stable (pf_file (dw_data w')) = f_cache (pf_file (dw_data w))"
    "\<forall>n. byte_state m' n = (if in_staged (dw_staged w) n then Some Complete else byte_state m n)"
    using all assms(1,2) ne m1 nb j' sync jsync c by auto
qed

lemma healthy_stage:
  assumes np: "\<not> dw_poisoned w" and st: "dw_staged w = []" "dw_staged_bytes w = 0"
    and tl: "im_total_length m = pf_total_length (dw_data w)" and inv: "invariants_hold m"
    and hf: "f_faults (pf_file (dw_data w)) = []"
    and bs: "bs \<noteq> []" "length bs < 2 ^ 32" and len: "unat off + length bs \<le> unat (im_total_length m)"
    and own: "\<And>b. off \<le> b \<Longrightarrow> unat b < unat off + length bs \<Longrightarrow> byte_state m b = Some (InProgress v)"
  shows "dw_stage plat blake3 part_file_data J w m v off bs now =
    push_staged part_file_data J
      (w\<lparr>dw_data := dw_data w\<lparr>pf_file := (pf_file (dw_data w))\<lparr>f_cache := overwrite (f_cache (pf_file (dw_data w))) (unat off) bs\<rparr>\<rparr>\<rparr>)
      m \<lparr>sb_range = (off, off + of_nat (length bs)), sb_record_length = of_nat (length bs), sb_worker = v,
         sb_blake3 = blake3 bs\<rparr> (of_nat (length bs)) now"
    and "unat (off + of_nat (length bs)) = unat off + length bs"
proof -
  let ?e = "off + of_nat (length bs)"
  have lt: "unat off + length bs < 2 ^ 64"
    using len unat_lt_2p [of "im_total_length m"] by simp
  then have l: "unat (of_nat (length bs) :: u64) = length bs" and e: "unat ?e = unat off + length bs"
    by (simp_all add: unat_of_nat unat_word_ariths)
  have c: "(try_from_nat (length bs) :: u64 option) = Some (of_nat (length bs))"
    "(try_from_nat (unat (of_nat (length bs) :: u64)) :: u32 option) = Some (of_nat (length bs))"
    "checked_add off (of_nat (length bs)) = Some ?e"
    "checked_add 0 (of_nat (length bs) :: u64) = Some (of_nat (length bs))"
    using lt l bs(2) unfolding l by (simp_all add: try_from_nat_def checked_add_def l)
  have "snd (im_complete m (off, ?e) v) = Ok ()"
    unfolding im_complete_Ok [OF inv] using own e len bs(1) by (simp add: word_less_nat_alt word_le_nat_alt)
  then have g: "ensure_current_grant m (off, ?e) v = Ok ()"
    by (simp add: ensure_current_grant_def)
  have wr: "dd_write_all_at part_file_data (dw_data w) off bs =
      (dw_data w\<lparr>pf_file := (pf_file (dw_data w))\<lparr>f_cache := overwrite (f_cache (pf_file (dw_data w))) (unat off) bs\<rparr>\<rparr>, Ok ())"
    using c(1,3) hf e len tl
    by (simp add: part_file_data_def pf_write_all_at_def file_write_at_def word_le_nat_alt)
  show "dw_stage plat blake3 part_file_data J w m v off bs now =
    push_staged part_file_data J
      (w\<lparr>dw_data := dw_data w\<lparr>pf_file := (pf_file (dw_data w))\<lparr>f_cache := overwrite (f_cache (pf_file (dw_data w))) (unat off) bs\<rparr>\<rparr>\<rparr>)
      m \<lparr>sb_range = (off, off + of_nat (length bs)), sb_record_length = of_nat (length bs), sb_worker = v,
         sb_blake3 = blake3 bs\<rparr> (of_nat (length bs)) now"
    using np st tl bs(1) c g wr
    by (simp add: dw_stage_def ensure_usable_def ensure_interval_identity_def ensure_not_staged_def)
  show "unat ?e = unat off + length bs"
    by (rule e)
qed

text \<open>
  C18.  Progress.  On a healthy disk a non-empty block inside the worker's grant is staged, the following
  flush succeeds, and afterwards every byte of the block is complete and the block is on stable storage
  at its offset.
\<close>

theorem write_then_flush_completes:
  assumes np: "\<not> dw_poisoned w" and st: "dw_staged w = []" "dw_staged_bytes w = 0"
    and tl: "im_total_length m = pf_total_length (dw_data w)" and inv: "invariants_hold m"
    and pf: "pf_wf (dw_data w)"
    and hf: "f_faults (pf_file (dw_data w)) = []" "f_faults (jf_file (dw_journal w)) = []"
    and dg: "digest32 blake3" and seq: "unat (dw_next_sequence w) + 1 < 2 ^ 64"
    and bs: "bs \<noteq> []" "length bs < 2 ^ 32" and len: "unat off + length bs \<le> unat (im_total_length m)"
    and own: "\<forall>b. off \<le> b \<and> unat b < unat off + length bs \<longrightarrow> byte_state m b = Some (InProgress v)"
    and stage: "dw_stage plat blake3 part_file_data (journal_file_journal crc) w m v off bs now = (w1, m1, r1)"
    and flush: "dw_flush part_file_data (journal_file_journal crc) w1 m1 = (w2, m2, r2)"
  shows "(\<exists>ds. r1 = Ok ds) \<and> (\<exists>ds. r2 = Ok ds) \<and> \<not> dw_poisoned w2 \<and> dw_staged w2 = [] \<and>
    (\<forall>b. off \<le> b \<and> unat b < unat off + length bs \<longrightarrow> byte_state m2 b = Some Complete) \<and>
    chunk (unat off) (unat off + length bs) (f_stable (pf_file (dw_data w2))) = bs"
proof -
  let ?old = "f_cache (pf_file (dw_data w))"
  let ?d = "dw_data w\<lparr>pf_file := (pf_file (dw_data w))\<lparr>f_cache := overwrite ?old (unat off) bs\<rparr>\<rparr>"
  define sb where "sb = \<lparr>sb_range = (off, off + of_nat (length bs)), sb_record_length = of_nat (length bs),
    sb_worker = v, sb_blake3 = blake3 bs\<rparr>"
  have "byte_state m b = Some (InProgress v)" if "off \<le> b" "unat b < unat off + length bs" for b
    using own that by blast
  note H = healthy_stage [OF np st tl inv hf(1) bs len this]
  define wp where "wp = w\<lparr>dw_data := ?d, dw_staged := [sb], dw_staged_bytes := of_nat (length bs),
    dw_first_staged_at := (case dw_first_staged_at w of None \<Rightarrow> Some now | Some t \<Rightarrow> Some t)\<rparr>"
  have e: "unat (snd (sb_range sb)) = unat off + length bs"
    using H(2) by (simp add: sb_def)
  have rl: "unat (sb_record_length sb) = length bs"
    using bs(2) by (simp add: sb_def unat_of_nat)
  have so: "staged_owned m sb"
    using own e rl bs(1) len dg by (auto simp: staged_owned_def sb_def word_less_nat_alt word_le_nat_alt digest32_def)
  have stg: "(w1, m1, r1) = (if of_nat (length bs) \<ge> JOURNAL_FLUSH_BYTES
      then dw_flush part_file_data (journal_file_journal crc) wp m else (wp, m, Ok []))"
    using stage H(1) st by (simp add: push_staged_def Let_def wp_def sb_def cong: if_cong)
  have app: "chunk (unat off) (unat off + length bs) (overwrite ?old (unat off) bs) = bs"
    using pf len tl by (simp add: overwrite_def pf_wf_def chunk_def)
  have goal: "\<exists>ds. r = Ok ds" "\<not> dw_poisoned w'" "dw_staged w' = []"
    "im_total_length m' = pf_total_length (dw_data w')"
    "\<forall>b. off \<le> b \<and> unat b < unat off + length bs \<longrightarrow> byte_state m' b = Some Complete"
    "chunk (unat off) (unat off + length bs) (f_stable (pf_file (dw_data w'))) = bs"
    if "dw_flush part_file_data (journal_file_journal crc) wp m = (w', m', r)" for w' m' r
  proof -
    have wp: "\<not> dw_poisoned wp" "im_total_length m = pf_total_length (dw_data wp)"
      "f_faults (pf_file (dw_data wp)) = []" "f_faults (jf_file (dw_journal wp)) = []"
      "\<forall>b \<in> set (dw_staged wp). staged_owned m b" "sorted_wrt apart (map staged_frame (dw_staged wp))"
      "unat (dw_next_sequence wp) + length (dw_staged wp) < 2 ^ 64" "dw_staged wp \<noteq> []"
      using np tl hf so seq by (simp_all add: wp_def)
    note F = healthy_flush [OF wp(1,2) inv wp(3-8) that]
    have "in_staged (dw_staged wp) b" if "off \<le> b" "unat b < unat off + length bs" for b
      using that e by (simp add: in_staged_def wp_def sb_def word_less_nat_alt)
    then show "\<exists>ds. r = Ok ds" "\<not> dw_poisoned w'" "dw_staged w' = []"
      "im_total_length m' = pf_total_length (dw_data w')"
      "\<forall>b. off \<le> b \<and> unat b < unat off + length bs \<longrightarrow> byte_state m' b = Some Complete"
      "chunk (unat off) (unat off + length bs) (f_stable (pf_file (dw_data w'))) = bs"
      using F app by (auto simp: wp_def)
  qed
  show ?thesis
  proof (cases "(of_nat (length bs) :: u64) \<ge> JOURNAL_FLUSH_BYTES")
    case True
    then have s: "dw_flush part_file_data (journal_file_journal crc) wp m = (w1, m1, r1)"
      using stg by simp
    have "w2 = w1" "m2 = m1" "r2 = Ok []"
      using flush goal(2,3,4) [OF s] by (auto simp: dw_flush_def ensure_usable_def ensure_interval_identity_def)
    then show ?thesis
      using goal [OF s] by blast
  next
    case False
    then have "w1 = wp" "m1 = m" "r1 = Ok []"
      using stg by simp_all
    then show ?thesis
      using goal [of w2 m2 r2] flush by blast
  qed
qed

definition demo_map :: interval_map where
  "demo_map = fst (grant (im_new 8) (0, 4) (WorkerId 1))"

lemma demo_map_facts:
  "invariants_hold demo_map" "im_total_length demo_map = 8"
  "b < 4 \<Longrightarrow> byte_state demo_map b = Some (InProgress (WorkerId 1))"
proof -
  have "snd (grant (im_new 8) (0, 4) (WorkerId 1)) = Ok ()" and inv: "invariants_hold (im_new 8)"
    by code_simp+
  from grant_state [OF inv this(1)] show "b < 4 \<Longrightarrow> byte_state demo_map b = Some (InProgress (WorkerId 1))"
    by (simp add: demo_map_def upd_range_def)
qed code_simp+

lemma demo_writer_eq:
  "demo_writer = \<lparr>dw_data = demo_pf, dw_journal = demo_jf, dw_next_sequence = 0, dw_staged = [],
     dw_staged_bytes = 0, dw_first_staged_at = None, dw_poisoned = False, dw_disk_full_at = None, dw_durable_bytes = 0\<rparr>"
  using demo_start(3) by (auto simp: dw_try_new_def split: if_splits)

lemma demo_jf_faults: "f_faults (jf_file demo_jf) = []"
  by code_simp

theorem write_then_flush_completes_witness:
  "byte_state (fst (snd (let (w1, m1, r1) = dw_stage Unix demo_hash part_file_data (journal_file_journal demo_crc)
       demo_writer demo_map (WorkerId 1) 0 [1, 2, 3, 4] 0
     in dw_flush part_file_data (journal_file_journal demo_crc) w1 m1))) 3 = Some Complete"
proof -
  obtain w1 m1 r1 where s: "dw_stage Unix demo_hash part_file_data (journal_file_journal demo_crc)
      demo_writer demo_map (WorkerId 1) 0 [1, 2, 3, 4] 0 = (w1, m1, r1)"
    by (rule prod_cases3)
  obtain w2 m2 r2 where f: "dw_flush part_file_data (journal_file_journal demo_crc) w1 m1 = (w2, m2, r2)"
    by (rule prod_cases3)
  have "digest32 demo_hash"
    by (simp add: digest32_def demo_hash_def min_def)
  then show ?thesis
    using write_then_flush_completes [OF _ _ _ _ _ _ _ _ _ _ _ _ _ _ s f] demo_map_facts demo_jf_faults s f
    by (simp add: demo_writer_eq demo_pf_def pf_wf_def word_less_nat_alt)
qed

theorem flush_commit_order_witness:
  "let (w', m', res) = dw_flush part_file_data (journal_file_journal demo_crc)
       (demo_writer\<lparr>dw_staged := [\<lparr>sb_range = (4, 8), sb_record_length = 4, sb_worker = WorkerId 1, sb_blake3 = []\<rparr>]\<rparr>) demo_map
   in m' = demo_map"
proof -
  let ?w = "demo_writer\<lparr>dw_staged := [\<lparr>sb_range = (4, 8), sb_record_length = 4, sb_worker = WorkerId 1, sb_blake3 = []\<rparr>]\<rparr>"
  obtain w' m' res where f: "dw_flush part_file_data (journal_file_journal demo_crc) ?w demo_map = (w', m', res)"
    by (rule prod_cases3)
  have "isl (snd (snd (dw_flush part_file_data (journal_file_journal demo_crc) ?w demo_map)))"
    by code_simp
  then show ?thesis
    using flush_commit_order [OF f] f by (auto simp: isl_def)
qed

theorem grant_writer_confined_witness:
  "f_cache (pf_file (dw_data (ac_writer (fst (gw_write (file_services demo_crc Unix demo_hash) demo_actor
     \<lparr>gw_grant = \<lparr>g_worker = WorkerId 1, g_range = (0, 4)\<rparr>, gw_next_offset = 2\<rparr> [9, 9] 0))))) ! 5 =
   f_cache (pf_file (dw_data (ac_writer demo_actor))) ! 5"
proof -
  let ?gw = "\<lparr>gw_grant = \<lparr>g_worker = WorkerId 1, g_range = (0, 4)\<rparr>, gw_next_offset = 2\<rparr>"
  obtain a g r where w: "gw_write (file_services demo_crc Unix demo_hash) demo_actor ?gw [9, 9] 0 = (a, g, r)"
    by (rule prod_cases3)
  have "pf_wf (dw_data (ac_writer demo_actor))" "5 < length (f_cache (pf_file (dw_data (ac_writer demo_actor))))"
    by (simp_all add: demo_actor_def demo_writer_eq demo_pf_def pf_wf_def)
  then show ?thesis
    using grant_writer_confined [OF _ _ _ w] w by (simp add: word_le_nat_alt)
qed

end
