(* ===== verification/FsModel.thy ===== *)
theory FsModel
  imports IoModel
begin

text \<open>
  A directory with crash semantics, for the code that opens, renames and synchronises whole files.

  Names point to file nodes; \<open>d_now\<close> is what running programs see and \<open>d_disk\<close> what is known to be on
  stable storage.  After a crash each name has its stable or its current entry, and each file its own
  crash image.  One entry of \<open>d_faults\<close> is consumed by each operation on the directory; the operations
  on an open file are those of \<open>IoModel\<close>, on its node.
\<close>

record directory =
  d_nodes :: "nat \<Rightarrow> os_file"
  d_now :: "path \<Rightarrow> nat option"
  d_disk :: "path \<Rightarrow> nat option"
  d_next :: nat
  d_faults :: "fault list"

definition dir_fault :: "directory \<Rightarrow> fault \<times> directory" where
  "dir_fault d = (case d_faults d of [] \<Rightarrow> (NoFault, d) | x # xs \<Rightarrow> (x, d\<lparr>d_faults := xs\<rparr>))"

definition fs_put :: "directory \<Rightarrow> nat \<Rightarrow> os_file \<Rightarrow> directory" where
  "fs_put d i f = d\<lparr>d_nodes := (d_nodes d)(i := f)\<rparr>"

text \<open>\<open>File::open\<close>, and \<open>OpenOptions\<close> with \<open>create\<close>, \<open>truncate\<close> and \<open>write\<close>.\<close>

definition fs_open :: "directory \<Rightarrow> path \<Rightarrow> directory \<times> (io_error + nat)" where
  "fs_open d p =
     (case dir_fault d of
        (Fault _ e, d1) \<Rightarrow> (d1, Err e)
      | (NoFault, d1) \<Rightarrow> (case d_now d1 p of None \<Rightarrow> (d1, Err (io_new IoNotFound)) | Some i \<Rightarrow> (d1, Ok i)))"

definition fs_open_truncate :: "directory \<Rightarrow> path \<Rightarrow> directory \<times> (io_error + nat)" where
  "fs_open_truncate d p =
     (case dir_fault d of
        (Fault _ e, d1) \<Rightarrow> (d1, Err e)
      | (NoFault, d1) \<Rightarrow>
          (case d_now d1 p of
             Some i \<Rightarrow> (fs_put d1 i ((d_nodes d1 i)\<lparr>f_cache := []\<rparr>), Ok i)
           | None \<Rightarrow>
               (let i = d_next d1 in
                ((fs_put d1 i ((d_nodes d1 i)\<lparr>f_cache := [], f_stable := []\<rparr>))
                   \<lparr>d_now := (d_now d1)(p \<mapsto> i), d_next := Suc i\<rparr>, Ok i))))"

definition fs_rename :: "directory \<Rightarrow> path \<Rightarrow> path \<Rightarrow> directory \<times> (io_error + unit)" where
  "fs_rename d a b =
     (case dir_fault d of
        (Fault _ e, d1) \<Rightarrow> (d1, Err e)
      | (NoFault, d1) \<Rightarrow>
          (case d_now d1 a of
             None \<Rightarrow> (d1, Err (io_new IoNotFound))
           | Some i \<Rightarrow> (d1\<lparr>d_now := (d_now d1)(a := None, b \<mapsto> i)\<rparr>, Ok ())))"

definition fs_sync_dir :: "directory \<Rightarrow> directory \<times> (io_error + unit)" where
  "fs_sync_dir d =
     (case dir_fault d of
        (Fault _ e, d1) \<Rightarrow> (d1, Err e)
      | (NoFault, d1) \<Rightarrow> (d1\<lparr>d_disk := d_now d1\<rparr>, Ok ()))"

text \<open>What a file may hold after a crash: \<open>None\<close> when the name is gone.\<close>

definition crash_content :: "directory \<Rightarrow> path \<Rightarrow> bytes option \<Rightarrow> bool" where
  "crash_content d p c =
     (\<exists>e \<in> {d_disk d p, d_now d p}. case e of
        None \<Rightarrow> c = None
      | Some i \<Rightarrow> (\<exists>bs. c = Some bs \<and> crash_image (f_stable (d_nodes d i)) (f_cache (d_nodes d i)) bs))"

text \<open>Nodes are shared by no two names, and unused node numbers are unused.\<close>

definition dir_wf :: "directory \<Rightarrow> bool" where
  "dir_wf d =
     ((\<forall>p q i. d_now d p = Some i \<and> d_now d q = Some i \<longrightarrow> p = q) \<and>
      (\<forall>p q i. d_disk d p = Some i \<and> d_now d q = Some i \<longrightarrow> p = q) \<and>
      (\<forall>p i. d_now d p = Some i \<or> d_disk d p = Some i \<longrightarrow> i < d_next d))"

text \<open>A file whose entry and content are both on stable storage.\<close>

definition on_disk :: "directory \<Rightarrow> path \<Rightarrow> bytes \<Rightarrow> bool" where
  "on_disk d p bs =
     (\<exists>i. d_now d p = Some i \<and> d_disk d p = Some i \<and>
          f_cache (d_nodes d i) = bs \<and> f_stable (d_nodes d i) = bs)"

lemma dir_fault_keeps [simp]:
  assumes "dir_fault d = (x, d1)"
  shows "d_nodes d1 = d_nodes d" "d_now d1 = d_now d" "d_disk d1 = d_disk d" "d_next d1 = d_next d"
  using assms by (auto simp: dir_fault_def split: list.splits)

lemma crash_image_same: "crash_image bs bs c \<Longrightarrow> c = bs \<or> length bs < length c"
  by (auto simp: crash_image_def intro!: nth_equalityI)

lemma crash_image_stable: "crash_image bs bs c \<longleftrightarrow> c = bs"
proof
  assume c: "crash_image bs bs c"
  then have "length c \<le> length bs"
    by (metis (no_types, lifting) crash_image_def linorder_not_le nat_less_le order_le_less)
  then show "c = bs"
    using crash_image_same [OF c] by auto
qed (simp add: crash_image_def)

lemma on_disk_crash: "on_disk d p bs \<Longrightarrow> crash_content d p c \<longleftrightarrow> c = Some bs"
  by (auto simp: on_disk_def crash_content_def crash_image_stable)

end
