(* ===== verification/Compaction.thy ===== *)
theory Compaction
  imports JournalState DurableWriter FsModel
begin

text \<open>
  Journal compaction, \<open>downpour-storage/src/journal/compaction.rs\<close>: verify every surviving block against
  the part file, merge touching blocks under fresh digests, write the shorter journal beside the old
  one and rename it over.  A \<open>blake3::Hasher\<close> is the bytes it was fed, finalised by the hash parameter.
  The lemmas show that the new journal describes the same bytes, and that a crash at any boundary of
  the replacement leaves the old journal or the new one.
\<close>

section \<open>Data\<close>

definition HASH_BUFFER_LEN :: nat where
  "HASH_BUFFER_LEN = 64 * 1024"

datatype compaction_error =
    CeReplay replay_error
  | CeIo io_error
  | CeInvalidState string
  | CeBlockDigestMismatch u64 u32
  | CeFormat format_error

record merge_builder =
  mb_start :: u64
  mb_len :: u32
  mb_fed :: bytes

text \<open>The part file as \<open>Read + Seek\<close>: the answers of \<open>seek\<close>, and of \<open>read_exact\<close> at a position.\<close>

record part_reader =
  pr_seek :: "u64 \<Rightarrow> io_error + unit"
  pr_read_exact :: "u64 \<Rightarrow> nat \<Rightarrow> io_error + bytes"

section \<open>Merging\<close>

definition finish_merge ::
    "(bytes \<Rightarrow> bytes) \<Rightarrow> merge_builder option \<Rightarrow> completed_block list \<Rightarrow> completed_block list" where
  "finish_merge blake3 cur merged =
     (case cur of
        Some b \<Rightarrow> if mb_len b \<noteq> 0
                  then merged @ [\<lparr>cb_offset = mb_start b, cb_len = mb_len b, cb_blake3 = blake3 (mb_fed b)\<rparr>]
                  else merged
      | None \<Rightarrow> merged)"

lemma unat_room: "unat (ucast (- 1 :: u32) - ucast (n :: u32) :: u64) = 2 ^ 32 - 1 - unat n"
proof -
  have "unat n \<le> 2 ^ 32 - 1"
    using unat_lt_2p [of n] by simp
  then have "(ucast n :: u64) \<le> ucast (- 1 :: u32)"
    by (simp add: word_le_unat unat_minus_one_word)
  then show ?thesis
    by (simp add: unat_minus_le unat_minus_one_word)
qed

lemma u32_full: "(n :: u32) = - 1 \<longleftrightarrow> unat n = 2 ^ 32 - 1"
  by (simp add: word_unat_eq_iff unat_minus_one_word)

lemma feed_progress:
  assumes "bs \<noteq> []" and "try_from_nat (length bs) = Some (n :: u64)" and "mb_len b \<noteq> - 1"
  shows "length bs - unat (min (ucast (- 1 :: u32) - ucast (mb_len b) :: u64) n) < length bs"
proof -
  have "unat (mb_len b) < 2 ^ 32 - 1"
    using assms(3) unat_lt_2p [of "mb_len b"] by (simp add: u32_full)
  then have "0 < unat (min (ucast (- 1 :: u32) - ucast (mb_len b) :: u64) n)"
    using assms(1,2) by (auto simp: min_def try_from_nat_Some unat_room)
  then show ?thesis
    using assms(1) by simp
qed

function feed_merge ::
    "(bytes \<Rightarrow> bytes) \<Rightarrow> merge_builder option \<Rightarrow> completed_block list \<Rightarrow> u64 \<Rightarrow> bytes \<Rightarrow>
     compaction_error + merge_builder option \<times> completed_block list" where
  "feed_merge blake3 cur merged pos bs =
     (if bs = [] then Ok (cur, merged)
      else
        (let b = (case cur of None \<Rightarrow> \<lparr>mb_start = pos, mb_len = 0, mb_fed = []\<rparr> | Some b \<Rightarrow> b);
             room = ucast (- 1 :: u32) - ucast (mb_len b) :: u64
         in case (try_from_nat (length bs) :: u64 option) of
              None \<Rightarrow> Err (CeIo (io_new IoInvalidData))
            | Some bytes_len \<Rightarrow>
                (let take_n = min room bytes_len
                 in case (try_from_nat (unat take_n) :: u32 option) of
                      None \<Rightarrow> Err (CeInvalidState ''merged record length exceeds u32'')
                    | Some take_u32 \<Rightarrow>
                        (case checked_add (mb_len b) take_u32 of
                           None \<Rightarrow> Err (CeInvalidState ''merged record length overflows u32'')
                         | Some len' \<Rightarrow>
                             (case checked_add pos take_n of
                                None \<Rightarrow> Err (CeInvalidState ''merged record offset overflows u64'')
                              | Some pos' \<Rightarrow>
                                  (let b' = b\<lparr>mb_len := len', mb_fed := mb_fed b @ take (unat take_n) bs\<rparr>;
                                       rest = drop (unat take_n) bs
                                   in if len' = - 1
                                      then feed_merge blake3 None (finish_merge blake3 (Some b') merged) pos' rest
                                      else feed_merge blake3 (Some b') merged pos' rest))))))"
  by pat_completeness auto

termination
proof (relation "measure (\<lambda>(_, cur, _, _, bs). 2 * length bs +
    (case cur of Some b \<Rightarrow> if mb_len b = - 1 then 1 else 0 | None \<Rightarrow> 0))", goal_cases)
  case (2 blake3 cur merged pos bs b room bytes_len take_n take_u32 len' pos' b' rest)
  show ?case
  proof (cases "mb_len b = - 1")
    case True
    then have "cur = Some b"
      using 2(2) by (auto split: option.splits)
    then show ?thesis
      using True 2(10) by simp
  next
    case False
    then have "length rest < length bs"
      using feed_progress [OF 2(1,4)] 2(3,5,10) by simp
    then show ?thesis
      by simp
  qed
next
  case (3 blake3 cur merged pos bs b room bytes_len take_n take_u32 len' pos' b' rest)
  have "mb_len b \<noteq> - 1"
  proof
    assume full: "mb_len b = - 1"
    then have "unat len' = 2 ^ 32 - 1 + unat take_n"
      using 3(6,7) by (simp add: checked_add_Some try_from_nat_Some unat_minus_one_word)
    then have "len' = - 1"
      using unat_lt_2p [of len'] by (simp add: u32_full)
    then show False
      using 3(11) by simp
  qed
  then have "length rest < length bs" and "mb_len b' \<noteq> - 1"
    using feed_progress [OF 3(1,4)] 3(3,5,9,10,11) by simp_all
  then show ?case
    by simp
qed simp

declare feed_merge.simps [simp del]

section \<open>Verification\<close>

text \<open>The inner read loop; \<open>fed\<close> is what the block's own hasher has seen.\<close>

function read_block ::
    "(bytes \<Rightarrow> bytes) \<Rightarrow> part_reader \<Rightarrow> merge_builder option \<Rightarrow> completed_block list \<Rightarrow> u64 \<Rightarrow> u64 \<Rightarrow> bytes \<Rightarrow>
     compaction_error + merge_builder option \<times> completed_block list \<times> bytes" where
  "read_block blake3 part cur merged pos remaining fed =
     (if remaining = 0 then Ok (cur, merged, fed)
      else
        (case (try_from_nat HASH_BUFFER_LEN :: u64 option) of
           None \<Rightarrow> Err (CeIo (io_new IoInvalidData))
         | Some buffer_len \<Rightarrow>
             (let take_n = min remaining buffer_len
              in case pr_read_exact part pos (unat take_n) of
                   Err e \<Rightarrow> Err (CeIo e)
                 | Ok data \<Rightarrow>
                     (case feed_merge blake3 cur merged pos data of
                        Err e \<Rightarrow> Err e
                      | Ok (cur', merged') \<Rightarrow>
                          (case checked_add pos take_n of
                             None \<Rightarrow> Err (CeInvalidState ''completed block read offset overflows u64'')
                           | Some pos' \<Rightarrow>
                               read_block blake3 part cur' merged' pos' (remaining - take_n) (fed @ data))))))"
  by pat_completeness auto
termination
proof (relation "measure (\<lambda>(_, _, _, _, _, remaining, _). unat remaining)", goal_cases)
  case (2 blake3 part cur merged pos remaining fed buffer_len take_n data p cur' merged' pos')
  have "0 < unat buffer_len"
    using 2(2) by (simp add: try_from_nat_Some HASH_BUFFER_LEN_def)
  then have "0 < unat take_n" "take_n \<le> remaining"
    using 2(1,3) by (auto simp: min_def unat_gt_0)
  then show ?case
    by (simp add: unat_minus_le word_le_unat)
qed simp

declare read_block.simps [simp del]

fun verify_loop ::
    "(bytes \<Rightarrow> bytes) \<Rightarrow> part_reader \<Rightarrow> merge_builder option \<Rightarrow> completed_block list \<Rightarrow> completed_block list \<Rightarrow>
     compaction_error + completed_block list" where
  "verify_loop blake3 part cur merged [] = Ok (finish_merge blake3 cur merged)"
| "verify_loop blake3 part cur merged (block # blocks) =
     (let (cur0, merged0) =
        (if (case cur of Some b \<Rightarrow> mb_start b + ucast (mb_len b) \<noteq> cb_offset block | None \<Rightarrow> False)
         then (None, finish_merge blake3 cur merged) else (cur, merged))
      in case pr_seek part (cb_offset block) of
           Err e \<Rightarrow> Err (CeIo e)
         | Ok _ \<Rightarrow>
             (case read_block blake3 part cur0 merged0 (cb_offset block) (ucast (cb_len block)) [] of
                Err e \<Rightarrow> Err e
              | Ok (cur1, merged1, fed) \<Rightarrow>
                  if blake3 fed \<noteq> cb_blake3 block
                  then Err (CeBlockDigestMismatch (cb_offset block) (cb_len block))
                  else verify_loop blake3 part cur1 merged1 blocks))"

definition verify_and_merge ::
    "(bytes \<Rightarrow> bytes) \<Rightarrow> part_reader \<Rightarrow> completed_block list \<Rightarrow> compaction_error + completed_block list" where
  "verify_and_merge blake3 part blocks = verify_loop blake3 part None [] blocks"

section \<open>The replacement journal\<close>

fun covered_bytes_of :: "u64 \<Rightarrow> completed_block list \<Rightarrow> compaction_error + u64" where
  "covered_bytes_of total_n [] = Ok total_n"
| "covered_bytes_of total_n (b # bs) =
     (case checked_add total_n (ucast (cb_len b)) of
        None \<Rightarrow> Err (CeInvalidState ''covered byte count overflows u64'')
      | Some n \<Rightarrow> covered_bytes_of n bs)"

definition semantic_records ::
    "effective_state \<Rightarrow> completed_block list \<Rightarrow> u64 \<Rightarrow> u64 \<Rightarrow> journal_record list" where
  "semantic_records st merged covered wall_clock =
     map IdentityUpdate (es_identities st) @
     (case es_truncate st of Some n \<Rightarrow> [Truncate n] | None \<Rightarrow> []) @
     [Checkpoint covered wall_clock] @
     map (\<lambda>b. BlockComplete (cb_offset b) (cb_len b) (cb_blake3 b)) merged @
     (case es_sealed st of Some d \<Rightarrow> [Sealed d] | None \<Rightarrow> [])"

fun encode_numbered ::
    "(bytes \<Rightarrow> u32) \<Rightarrow> nat \<Rightarrow> journal_record list \<Rightarrow> compaction_error + bytes" where
  "encode_numbered crc i [] = Ok []"
| "encode_numbered crc i (r # rs) =
     (case (try_from_nat i :: u64 option) of
        None \<Rightarrow> Err (CeInvalidState ''compacted journal has too many records'')
      | Some sequence \<Rightarrow>
          (case encode_record crc \<lparr>fr_sequence = sequence, fr_record = r\<rparr> of
             Err e \<Rightarrow> Err (CeFormat e)
           | Ok bs \<Rightarrow> and_then (encode_numbered crc (Suc i) rs) (\<lambda>more_bs. Ok (bs @ more_bs))))"

definition encode_replacement ::
    "(bytes \<Rightarrow> u32) \<Rightarrow> file_header \<Rightarrow> effective_state \<Rightarrow> completed_block list \<Rightarrow> u64 \<Rightarrow> compaction_error + bytes" where
  "encode_replacement crc header st merged wall_clock =
     and_then (covered_bytes_of 0 merged) (\<lambda>covered.
     and_then (encode_numbered crc 0 (semantic_records st merged covered wall_clock)) (\<lambda>records.
       Ok (encode_header crc header @ records)))"

section \<open>Atomic replacement\<close>

datatype replacement_boundary = NewFileCreated | NewFileSynced | Renamed | DirectorySynced

definition sibling_new_path :: "path \<Rightarrow> path" where
  "sibling_new_path p = p @ ''.new''"

text \<open>\<open>Path::parent\<close> is absent for the empty path and the root only.\<close>

definition sync_parent :: "platform \<Rightarrow> path \<Rightarrow> directory \<Rightarrow> directory \<times> (io_error + unit)" where
  "sync_parent plat p d =
     (case plat of
        Windows \<Rightarrow> (d, Ok ())
      | Unix \<Rightarrow> if path_components p = [] then (d, Err (io_new IoInvalidInput)) else fs_sync_dir d)"

definition replace_atomically_with_hook ::
    "platform \<Rightarrow> (replacement_boundary \<Rightarrow> io_error + unit) \<Rightarrow> directory \<Rightarrow> path \<Rightarrow> bytes \<Rightarrow>
     directory \<times> (io_error + unit)" where
  "replace_atomically_with_hook plat hook d p replacement =
     (case fs_open_truncate d (sibling_new_path p) of
        (d1, Err e) \<Rightarrow> (d1, Err e)
      | (d1, Ok i) \<Rightarrow>
     (case hook NewFileCreated of Err e \<Rightarrow> (d1, Err e) | Ok _ \<Rightarrow>
     (case file_append (d_nodes d1 i) replacement of
        (f2, Err e) \<Rightarrow> (fs_put d1 i f2, Err e)
      | (f2, Ok _) \<Rightarrow>
     (case file_sync f2 of
        (f3, Err e) \<Rightarrow> (fs_put d1 i f3, Err e)
      | (f3, Ok _) \<Rightarrow>
     (case hook NewFileSynced of Err e \<Rightarrow> (fs_put d1 i f3, Err e) | Ok _ \<Rightarrow>
     (case fs_rename (fs_put d1 i f3) (sibling_new_path p) p of
        (d4, Err e) \<Rightarrow> (d4, Err e)
      | (d4, Ok _) \<Rightarrow>
     (case hook Renamed of Err e \<Rightarrow> (d4, Err e) | Ok _ \<Rightarrow>
     (case sync_parent plat p d4 of
        (d5, Err e) \<Rightarrow> (d5, Err e)
      | (d5, Ok _) \<Rightarrow> (d5, hook DirectorySynced)))))))))"

definition replace_atomically :: "platform \<Rightarrow> directory \<Rightarrow> path \<Rightarrow> bytes \<Rightarrow> directory \<times> (io_error + unit)" where
  "replace_atomically plat d p replacement = replace_atomically_with_hook plat (\<lambda>_. Ok ()) d p replacement"

text \<open>\<open>part\<close> is the answer of opening the part file; \<open>cuts\<close> delivers the reads of the journal.\<close>

definition compact_journal ::
    "platform \<Rightarrow> (bytes \<Rightarrow> u32) \<Rightarrow> (bytes \<Rightarrow> bytes) \<Rightarrow> (bytes \<Rightarrow> reader) \<Rightarrow> directory \<Rightarrow> path \<Rightarrow>
     io_error + part_reader \<Rightarrow> u64 \<Rightarrow> directory \<times> (compaction_error + unit)" where
  "compact_journal plat crc blake3 cuts d journal_path part wall_clock =
     (let (d0, opened) = fs_open d journal_path;
          (f, replayed) = recover_journal crc cuts (case opened of Err e \<Rightarrow> Err e | Ok i \<Rightarrow> Ok (d_nodes d0 i));
          d1 = (case (opened, f) of (Ok i, Some g) \<Rightarrow> fs_put d0 i g | _ \<Rightarrow> d0)
      in case replayed of
           Err e \<Rightarrow> (d1, Err (CeReplay e))
         | Ok out \<Rightarrow>
             (case effective_state (ro_header out) (ro_records out) of
                Err (JournalStateError detail) \<Rightarrow> (d1, Err (CeInvalidState detail))
              | Ok st \<Rightarrow>
                  (case part of
                     Err e \<Rightarrow> (d1, Err (CeIo e))
                   | Ok rd \<Rightarrow>
                       (case verify_and_merge blake3 rd (es_blocks st) of
                          Err e \<Rightarrow> (d1, Err e)
                        | Ok merged \<Rightarrow>
                            (case encode_replacement crc (ro_header out) st merged wall_clock of
                               Err e \<Rightarrow> (d1, Err e)
                             | Ok replacement \<Rightarrow>
                                 (case replace_atomically plat d1 journal_path replacement of
                                    (d2, Err e) \<Rightarrow> (d2, Err (CeIo e))
                                  | (d2, Ok _) \<Rightarrow> (d2, Ok ())))))))"

section \<open>What merging keeps\<close>

definition block_bytes :: "completed_block \<Rightarrow> nat set" where
  "block_bytes b = {unat (cb_offset b)..<block_end b}"

text \<open>The documented meaning of \<open>read_exact\<close>: exactly the bytes of the file at that place.\<close>

definition reads_file :: "part_reader \<Rightarrow> bytes \<Rightarrow> bool" where
  "reads_file part img =
     (\<forall>pos n data. pr_read_exact part pos n = Ok data \<longrightarrow>
        length data = n \<and> data = chunk (unat pos) (unat pos + n) img)"

definition block_intact :: "(bytes \<Rightarrow> bytes) \<Rightarrow> bytes \<Rightarrow> completed_block \<Rightarrow> bool" where
  "block_intact blake3 img b = (blake3 (chunk (unat (cb_offset b)) (block_end b) img) = cb_blake3 b)"

text \<open>The merge in progress at byte \<open>pos\<close> of the part file has covered exactly the bytes of \<open>S\<close>.\<close>

definition merge_ok ::
    "(bytes \<Rightarrow> bytes) \<Rightarrow> bytes \<Rightarrow> merge_builder option \<Rightarrow> completed_block list \<Rightarrow> nat \<Rightarrow> nat set \<Rightarrow> bool" where
  "merge_ok blake3 img cur merged pos S =
     (sorted_wrt before merged \<and>
      (\<forall>b \<in> set merged. cb_len b \<noteq> 0 \<and> block_intact blake3 img b \<and>
         block_end b \<le> (case cur of Some c \<Rightarrow> unat (mb_start c) | None \<Rightarrow> pos)) \<and>
      (case cur of None \<Rightarrow> True
       | Some c \<Rightarrow> unat (mb_start c) + unat (mb_len c) = pos \<and> mb_fed c = chunk (unat (mb_start c)) pos img) \<and>
      (\<Union>b \<in> set merged. block_bytes b) \<union> (case cur of None \<Rightarrow> {} | Some c \<Rightarrow> {unat (mb_start c)..<pos}) = S)"

lemma merge_ok_open:
  "merge_ok blake3 img None merged (unat pos) S \<Longrightarrow>
   merge_ok blake3 img (Some \<lparr>mb_start = pos, mb_len = 0, mb_fed = []\<rparr>) merged (unat pos) S"
  by (simp add: merge_ok_def)

lemma merge_ok_skip: "merge_ok blake3 img None merged pos S \<Longrightarrow> pos \<le> pos' \<Longrightarrow> merge_ok blake3 img None merged pos' S"
  by (fastforce simp: merge_ok_def)

lemma merge_ok_finish:
  assumes "merge_ok blake3 img (Some b) merged pos S"
  shows "merge_ok blake3 img None (finish_merge blake3 (Some b) merged) pos S"
proof (cases "mb_len b = 0")
  case True
  then show ?thesis
    using assms by (auto simp: merge_ok_def finish_merge_def)
next
  case False
  then show ?thesis
    using assms
    by (fastforce simp: merge_ok_def finish_merge_def sorted_wrt_append before_def block_intact_def block_bytes_def
        block_end_def)
qed

lemma merge_ok_feed:
  assumes "merge_ok blake3 img (Some b) merged pos S" and "unat n = unat (mb_len b) + length data"
    and "data = chunk pos (pos + length data) img"
  shows "merge_ok blake3 img (Some (b\<lparr>mb_len := n, mb_fed := mb_fed b @ data\<rparr>)) merged (pos + length data)
    (S \<union> {pos..<pos + length data})"
proof -
  have "mb_fed b @ data = chunk (unat (mb_start b)) pos img @ chunk pos (pos + length data) img"
    using assms(1,3) by (simp add: merge_ok_def)
  also have "\<dots> = chunk (unat (mb_start b)) (pos + length data) img"
    using assms(1) by (intro chunk_append_chunk) (auto simp: merge_ok_def)
  finally have "mb_fed b @ data = chunk (unat (mb_start b)) (pos + length data) img" .
  moreover have "unat (mb_start b) \<le> pos"
    using assms(1) by (auto simp: merge_ok_def)
  ultimately show ?thesis
    using assms(1,2) by (auto simp: merge_ok_def)
qed

lemma chunk_split_at:
  assumes "bs = chunk p (p + length bs) img" and "t \<le> length bs"
  shows "take t bs = chunk p (p + t) img" and "drop t bs = chunk (p + t) (p + length bs) img"
proof -
  have "take t (chunk p (p + length bs) img) = chunk p (p + t) img"
    using assms(2) by (simp add: chunk_def take_drop min_def)
  then show "take t bs = chunk p (p + t) img"
    using assms(1) by simp
  have "drop t (chunk p (p + length bs) img) = chunk (p + t) (p + length bs) img"
    using assms(2) by (simp add: chunk_def drop_take add.commute)
  then show "drop t bs = chunk (p + t) (p + length bs) img"
    using assms(1) by simp
qed

lemma feed_merge_ok:
  "merge_ok blake3 img cur merged (unat pos) S \<Longrightarrow> bs = chunk (unat pos) (unat pos + length bs) img \<Longrightarrow>
   unat pos + length bs < 2 ^ 64 \<Longrightarrow>
   \<exists>cur' merged'. feed_merge blake3 cur merged pos bs = Ok (cur', merged') \<and>
     merge_ok blake3 img cur' merged' (unat pos + length bs) (S \<union> {unat pos..<unat pos + length bs})"
proof (induction blake3 cur merged pos bs arbitrary: S rule: feed_merge.induct)
  case (1 blake3 cur merged pos bs)
  define b where "b = (case cur of None \<Rightarrow> \<lparr>mb_start = pos, mb_len = 0, mb_fed = []\<rparr> | Some b \<Rightarrow> b)"
  define t where "t = min (ucast (- 1 :: u32) - ucast (mb_len b) :: u64) (of_nat (length bs))"
  define len' where "len' = mb_len b + of_nat (unat t)"
  define pos' where "pos' = pos + t"
  define b' where "b' = b\<lparr>mb_len := len', mb_fed := mb_fed b @ take (unat t) bs\<rparr>"
  have lbs: "unat (of_nat (length bs) :: u64) = length bs"
    using "1.prems"(3) by (simp add: unat_of_nat64)
  have ut: "unat t = min (2 ^ 32 - 1 - unat (mb_len b)) (length bs)"
    by (simp add: t_def min_def word_le_unat unat_room lbs)
  have c: "(try_from_nat (length bs) :: u64 option) = Some (of_nat (length bs))"
    "(try_from_nat (unat t) :: u32 option) = Some (of_nat (unat t))"
    using "1.prems"(3) ut by (simp_all add: try_from_nat_def)
  have ut32: "unat (of_nat (unat t) :: u32) = unat t"
    using c(2) by (simp add: try_from_nat_Some)
  have l: "checked_add (mb_len b) (of_nat (unat t)) = Some len'" "unat len' = unat (mb_len b) + unat t"
  proof -
    have "unat (mb_len b) + unat t < 2 ^ 32"
      using ut unat_lt_2p [of "mb_len b"] by simp
    then show "checked_add (mb_len b) (of_nat (unat t)) = Some len'"
      using ut32 by (simp add: checked_add_def len'_def)
    then show "unat len' = unat (mb_len b) + unat t"
      using ut32 by (simp add: checked_add_Some)
  qed
  have p: "checked_add pos t = Some pos'" "unat pos' = unat pos + unat t"
  proof -
    have "unat pos + unat t < 2 ^ 64"
      using ut "1.prems"(3) by simp
    then show "checked_add pos t = Some pos'"
      by (simp add: checked_add_def pos'_def)
    then show "unat pos' = unat pos + unat t"
      by (simp add: checked_add_Some)
  qed
  show ?case
  proof (cases "bs = []")
    case True
    then show ?thesis
      using "1.prems"(1) by (simp add: feed_merge.simps [of blake3 cur])
  next
    case False
    have mb: "merge_ok blake3 img (Some b) merged (unat pos) S"
      using "1.prems"(1) merge_ok_open [of blake3 img merged pos S] by (cases cur) (simp_all add: b_def)
    have le: "unat t \<le> length bs"
      using ut by simp
    note sp = chunk_split_at [OF "1.prems"(2) le]
    have mb': "merge_ok blake3 img (Some b') merged (unat pos') (S \<union> {unat pos..<unat pos'})"
    proof -
      have "length (take (unat t) bs) = unat t"
        using le by simp
      then show ?thesis
        unfolding b'_def p(2) using merge_ok_feed [OF mb, of len' "take (unat t) bs"] sp(1) l(2) by simp
    qed
    have rl: "unat pos' + length (drop (unat t) bs) = unat pos + length bs"
      using le p(2) by simp
    have rest: "drop (unat t) bs = chunk (unat pos') (unat pos' + length (drop (unat t) bs)) img"
      "unat pos' + length (drop (unat t) bs) < 2 ^ 64" "unat pos' + length (drop (unat t) bs) = unat pos + length bs"
      unfolding rl using sp(2) p(2) "1.prems"(3) by simp_all
    have un: "feed_merge blake3 cur merged pos bs =
        (if len' = - 1 then feed_merge blake3 None (finish_merge blake3 (Some b') merged) pos' (drop (unat t) bs)
         else feed_merge blake3 (Some b') merged pos' (drop (unat t) bs))"
      using False c l(1) p(1)
      by (simp add: feed_merge.simps [of blake3 cur] Let_def b_def [symmetric] t_def [symmetric] b'_def)
    have S: "S \<union> {unat pos..<unat pos'} \<union> {unat pos'..<unat pos + length bs} = S \<union> {unat pos..<unat pos + length bs}"
      using p(2) le by auto
    note IH = "1.IH" [OF False b_def refl c(1) t_def c(2) l(1) p(1) b'_def refl]
    show ?thesis
    proof (cases "len' = - 1")
      case True
      show ?thesis
        using IH(1) [OF True merge_ok_finish [OF mb'] rest(1,2)] un True rest(3) S by simp
    next
      case False
      show ?thesis
        using IH(2) [OF False mb' rest(1,2)] un False rest(3) S by simp
    qed
  qed
qed

lemma read_block_ok:
  "merge_ok blake3 img cur merged (unat pos) S \<Longrightarrow> reads_file part img \<Longrightarrow>
   read_block blake3 part cur merged pos remaining fed = Ok (cur', merged', fed') \<Longrightarrow>
   unat pos + unat remaining < 2 ^ 64 \<Longrightarrow>
   fed' = fed @ chunk (unat pos) (unat pos + unat remaining) img \<and>
   merge_ok blake3 img cur' merged' (unat pos + unat remaining) (S \<union> {unat pos..<unat pos + unat remaining})"
proof (induction blake3 part cur merged pos remaining fed arbitrary: S rule: read_block.induct)
  case (1 blake3 part cur merged pos remaining fed)
  show ?case
  proof (cases "remaining = 0")
    case True
    then show ?thesis
      using "1.prems" by (simp add: read_block.simps [of blake3 part])
  next
    case False
    obtain bl where bl: "(try_from_nat HASH_BUFFER_LEN :: u64 option) = Some bl"
      by (simp add: try_from_nat_def HASH_BUFFER_LEN_def)
    define t where "t = min remaining bl"
    obtain data where d: "pr_read_exact part pos (unat t) = Ok data"
      using "1.prems"(3) False bl
      by (auto simp: read_block.simps [of blake3 part] Let_def t_def [symmetric] split: sum.splits)
    obtain c1 m1 where f: "feed_merge blake3 cur merged pos data = Ok (c1, m1)"
      using "1.prems"(3) False bl d
      by (auto simp: read_block.simps [of blake3 part] Let_def t_def [symmetric] split: sum.splits)
    obtain pos' where p: "checked_add pos t = Some pos'"
      using "1.prems"(3) False bl d f
      by (auto simp: read_block.simps [of blake3 part] Let_def t_def [symmetric] split: option.splits)
    have r: "read_block blake3 part c1 m1 pos' (remaining - t) (fed @ data) = Ok (cur', merged', fed')"
      using "1.prems"(3) False bl d f p
      by (simp add: read_block.simps [of blake3 part cur] Let_def t_def [symmetric])
    have tr: "t \<le> remaining"
      by (simp add: t_def)
    have len: "length data = unat t" and data: "data = chunk (unat pos) (unat pos + unat t) img"
      using "1.prems"(2) d by (auto simp: reads_file_def)
    have up: "unat pos' = unat pos + unat t"
      using p by (simp add: checked_add_Some)
    have ur: "unat (remaining - t) = unat remaining - unat t" "unat t \<le> unat remaining"
      using tr by (simp_all add: unat_minus_le word_le_unat)
    have m1: "merge_ok blake3 img c1 m1 (unat pos') (S \<union> {unat pos..<unat pos'})"
      using feed_merge_ok [OF "1.prems"(1), of data] f data len "1.prems"(4) ur up by auto
    have "fed' = (fed @ data) @ chunk (unat pos') (unat pos' + unat (remaining - t)) img \<and>
      merge_ok blake3 img cur' merged' (unat pos' + unat (remaining - t))
        (S \<union> {unat pos..<unat pos'} \<union> {unat pos'..<unat pos' + unat (remaining - t)})"
      using "1.prems"(4) up ur by (intro "1.IH" [OF False bl t_def d f refl p m1 "1.prems"(2) r]) simp
    moreover have "data @ chunk (unat pos') (unat pos' + unat (remaining - t)) img =
        chunk (unat pos) (unat pos + unat remaining) img"
      unfolding data using up ur by (simp add: chunk_append_chunk)
    moreover have "{unat pos..<unat pos'} \<union> {unat pos'..<unat pos' + unat (remaining - t)} =
        {unat pos..<unat pos + unat remaining}"
      using up ur by auto
    ultimately show ?thesis
      using up ur by (simp add: Un_assoc)
  qed
qed

lemma verify_loop_ok:
  "merge_ok blake3 img cur merged pos S \<Longrightarrow> reads_file part img \<Longrightarrow> sorted_wrt before blocks \<Longrightarrow>
   \<forall>b \<in> set blocks. block_end b < 2 ^ 64 \<and> pos \<le> unat (cb_offset b) \<Longrightarrow>
   verify_loop blake3 part cur merged blocks = Ok res \<Longrightarrow>
   (\<forall>b \<in> set blocks. block_intact blake3 img b) \<and>
   (\<exists>p. merge_ok blake3 img None res p (S \<union> (\<Union>b \<in> set blocks. block_bytes b)))"
proof (induction blocks arbitrary: cur merged pos S)
  case Nil
  have "merge_ok blake3 img None (finish_merge blake3 cur merged) pos S"
    using Nil.prems(1) merge_ok_finish by (cases cur) (auto simp: finish_merge_def)
  then show ?case
    using Nil.prems(5) by auto
next
  case (Cons b bs)
  let ?skip = "case cur of Some c \<Rightarrow> mb_start c + ucast (mb_len c) \<noteq> cb_offset b | None \<Rightarrow> False"
  let ?cm = "if ?skip then (None, finish_merge blake3 cur merged) else (cur, merged)"
  have off: "pos \<le> unat (cb_offset b)" and en: "block_end b < 2 ^ 64"
    using Cons.prems(4) by simp_all
  have start: "merge_ok blake3 img (fst ?cm) (snd ?cm) (unat (cb_offset b)) S"
  proof (cases cur)
    case None
    then show ?thesis
      using Cons.prems(1) off merge_ok_skip by simp
  next
    case (Some c)
    have "unat (mb_start c) + unat (mb_len c) = pos"
      using Cons.prems(1) Some by (simp add: merge_ok_def)
    then have "unat (mb_start c + ucast (mb_len c)) = pos"
      using off unat_lt_2p [of "cb_offset b"] by (simp add: unat_word_ariths)
    then show ?thesis
      using Some Cons.prems(1) off merge_ok_skip [OF merge_ok_finish] by auto
  qed
  obtain c1 m1 fed where r: "read_block blake3 part (fst ?cm) (snd ?cm) (cb_offset b) (ucast (cb_len b)) [] = Ok (c1, m1, fed)"
    and h: "blake3 fed = cb_blake3 b" and v: "verify_loop blake3 part c1 m1 bs = Ok res"
    using Cons.prems(5) by (auto simp: Let_def split_beta split: sum.splits if_splits)
  note R = read_block_ok [OF start Cons.prems(2) r]
  have m1: "merge_ok blake3 img c1 m1 (block_end b) (S \<union> block_bytes b)" and "block_intact blake3 img b"
    using R en h by (simp_all add: block_end_def block_bytes_def block_intact_def)
  moreover have "\<forall>c \<in> set bs. block_end c < 2 ^ 64 \<and> block_end b \<le> unat (cb_offset c)"
    using Cons.prems(3,4) by (auto simp: before_def)
  moreover have "sorted_wrt before bs"
    using Cons.prems(3) by simp
  ultimately show ?case
    using Cons.IH [OF m1 Cons.prems(2) _ _ v] by (simp add: Un_assoc)
qed

section \<open>What the new journal says\<close>

definition numbered :: "nat \<Rightarrow> journal_record list \<Rightarrow> framed_record list" where
  "numbered i rs = map (\<lambda>(k, r). \<lparr>fr_sequence = of_nat k, fr_record = r\<rparr>) (enumerate i rs)"

lemma numbered_simps [simp]:
  "numbered i [] = []"
  "numbered i (r # rs) = \<lparr>fr_sequence = of_nat i, fr_record = r\<rparr> # numbered (Suc i) rs"
  by (simp_all add: numbered_def)

lemma numbered_append: "numbered i (rs @ ss) = numbered i rs @ numbered (i + length rs) ss"
  by (induction rs arbitrary: i) auto

lemma encode_numbered_Ok:
  "encode_numbered crc i rs = Ok bs \<Longrightarrow> \<forall>r \<in> set rs. wf_record r \<Longrightarrow>
   wf_frames i (numbered i rs) \<and> bs = journal_body crc (numbered i rs)"
proof (induction rs arbitrary: i bs)
  case (Cons r rs)
  obtain s e tl where s: "(try_from_nat i :: u64 option) = Some s"
    and e: "encode_record crc \<lparr>fr_sequence = s, fr_record = r\<rparr> = Ok e"
    and tl: "encode_numbered crc (Suc i) rs = Ok tl" and bs: "bs = e @ tl"
    using Cons.prems(1) by (auto simp: and_then_eq_Inr split: option.splits sum.splits)
  have "s = of_nat i" "unat s = i"
    using s by (auto simp: try_from_nat_def try_from_nat_Some split: if_splits) (metis s try_from_nat_Some)
  then show ?case
    using Cons.IH [OF tl] Cons.prems(2) e bs by (simp add: encode_record_frame)
qed simp

definition fresh_state :: "u64 \<Rightarrow> effective_state" where
  "fresh_state n = \<lparr>es_effective_length = n, es_truncate = None, es_identities = [], es_blocks = [], es_sealed = None\<rparr>"

lemma apply_records_append:
  assumes "\<forall>r \<in> set rs. \<forall>d. fr_record r \<noteq> Sealed d"
  shows "apply_records st (rs @ ss) = and_then (apply_records st rs) (\<lambda>st'. apply_records st' ss)"
  using assms
proof (induction rs arbitrary: st)
  case (Cons r rs)
  have "apply_record (rs @ ss = []) st (fr_record r) = apply_record (rs = []) st (fr_record r)"
    using Cons.prems by (cases "fr_record r") auto
  then show ?case
    using Cons.IH Cons.prems by (cases "apply_record (rs = []) st (fr_record r)") auto
qed simp

lemma apply_numbered_append:
  assumes "\<forall>r \<in> set rs. \<forall>d. r \<noteq> Sealed d"
  shows "apply_records st (numbered i (rs @ ss)) =
    and_then (apply_records st (numbered i rs)) (\<lambda>st'. apply_records st' (numbered (i + length rs) ss))"
proof -
  have "\<forall>r \<in> set (numbered i rs). \<forall>d. fr_record r \<noteq> Sealed d"
    using assms by (induction rs arbitrary: i) auto
  then show ?thesis
    unfolding numbered_append by (rule apply_records_append)
qed

lemma apply_identities:
  "apply_records st (numbered i (map IdentityUpdate ids)) = Ok (st\<lparr>es_identities := es_identities st @ ids\<rparr>)"
  by (induction ids arbitrary: st i) auto

lemma apply_blocks:
  assumes "\<forall>b \<in> set bs. cb_len b \<noteq> 0 \<and> block_end b \<le> unat (es_effective_length st)"
  shows "apply_records st (numbered i (map (\<lambda>b. BlockComplete (cb_offset b) (cb_len b) (cb_blake3 b)) bs)) =
    Ok (st\<lparr>es_blocks := es_blocks st @ bs\<rparr>)"
  using assms
proof (induction bs arbitrary: st i)
  case (Cons b bs)
  obtain e where e: "cb_end b = Ok e" "unat e = block_end b"
    using Cons.prems cb_end_Err [of b] unat_lt_2p [of "es_effective_length st"]
    by (cases "cb_end b") (auto simp: cb_end_Ok)
  then show ?case
    using Cons by (cases b) (simp add: Let_def word_lt_unat not_less)
qed simp

text \<open>What a fold leaves besides the blocks.\<close>

lemma apply_records_rest:
  "apply_records st rs = Ok st' \<Longrightarrow>
   es_truncate st' = (if records_truncates rs = [] then es_truncate st else Some (last (records_truncates rs))) \<and>
   (\<forall>d. es_sealed st' = Some d \<longrightarrow> es_sealed st = Some d \<or> (\<exists>r \<in> set rs. fr_record r = Sealed d))"
proof (induction rs arbitrary: st)
  case (Cons r rs)
  then obtain st1 where s1: "apply_record (rs = []) st (fr_record r) = Ok st1" "apply_records st1 rs = Ok st'"
    by (auto simp: and_then_eq_Inr)
  show ?case
    using Cons.IH [OF s1(2)] s1(1)
    by (cases "fr_record r") (auto simp: Let_def and_then_eq_Inr split: if_splits)
qed simp

lemma wf_frames_record: "wf_frames k rs \<Longrightarrow> r \<in> set rs \<Longrightarrow> wf_record (fr_record r)"
  by (induction rs arbitrary: k) auto

lemma sort_key_before:
  assumes "sorted_wrt before bs" and "\<forall>b \<in> set bs. cb_len b \<noteq> 0"
  shows "sort_key cb_offset bs = bs"
proof (rule sort_key_id_if_sorted)
  show "sorted (map cb_offset bs)"
    using assms(1) by (simp add: sorted_map) (auto elim!: sorted_wrt_mono_rel [rotated] simp: before_def block_end_def word_le_unat)
qed

lemma effective_state_compacted:
  assumes len: "case es_truncate st of None \<Rightarrow> es_effective_length st = fh_total_length h
      | Some n \<Rightarrow> es_effective_length st = n \<and> n \<le> fh_total_length h"
    and bs: "\<forall>b \<in> set merged. cb_len b \<noteq> 0 \<and> block_end b \<le> unat (es_effective_length st)"
    and so: "sorted_wrt before merged"
  shows "effective_state h (numbered 0 (semantic_records st merged covered wall_clock)) = Ok (st\<lparr>es_blocks := merged\<rparr>)"
proof -
  let ?ids = "map IdentityUpdate (es_identities st)"
  let ?t = "case es_truncate st of Some n \<Rightarrow> [Truncate n] | None \<Rightarrow> []"
  let ?b = "map (\<lambda>b. BlockComplete (cb_offset b) (cb_len b) (cb_blake3 b)) merged"
  let ?s = "case es_sealed st of Some d \<Rightarrow> [Sealed d] | None \<Rightarrow> []"
  let ?s1 = "(fresh_state (fh_total_length h))\<lparr>es_identities := es_identities st\<rparr>"
  let ?s2 = "?s1\<lparr>es_effective_length := es_effective_length st, es_truncate := es_truncate st\<rparr>"
  let ?s3 = "?s2\<lparr>es_blocks := merged\<rparr>"
  have 1: "apply_records (fresh_state (fh_total_length h)) (numbered 0 (?ids @ R)) = apply_records ?s1 (numbered (length ?ids) R)" for R
    by (subst apply_numbered_append) (auto simp: apply_identities fresh_state_def)
  have "apply_records ?s1 (numbered i ?t) = Ok ?s2" for i
    using len by (cases "es_truncate st") (simp_all add: fresh_state_def)
  then have 2: "apply_records ?s1 (numbered i (?t @ R)) = apply_records ?s2 (numbered (i + length ?t) R)" for i R
    by (subst apply_numbered_append) (auto split: option.splits)
  have 3: "apply_records ?s2 (numbered i ([Checkpoint covered wall_clock] @ R)) = apply_records ?s2 (numbered (Suc i) R)" for i R
    by simp
  have "apply_records ?s2 (numbered i ?b) = Ok ?s3" for i
    using bs by (subst apply_blocks) (simp_all add: fresh_state_def)
  then have 4: "apply_records ?s2 (numbered i (?b @ R)) = apply_records ?s3 (numbered (i + length ?b) R)" for i R
    by (subst apply_numbered_append) auto
  have "apply_records ?s3 (numbered i ?s) = Ok (?s3\<lparr>es_sealed := es_sealed st\<rparr>)" for i
    by (cases "es_sealed st") (simp_all add: fresh_state_def)
  then have "apply_records (fresh_state (fh_total_length h)) (numbered 0 (semantic_records st merged covered wall_clock)) =
      Ok (?s3\<lparr>es_sealed := es_sealed st\<rparr>)"
    unfolding semantic_records_def 1 2 3 4 .
  moreover have "sort_key cb_offset merged = merged"
    using so bs by (intro sort_key_before) auto
  moreover have "check_overlap merged = Ok ()"
    using bs so unat_lt_2p [of "es_effective_length st"] by (subst check_overlap_Ok) fastforce+
  ultimately show ?thesis
    by (simp add: effective_state_def fresh_state_def Let_def)
qed

lemma effective_length_truncate:
  assumes "effective_state h rs = Ok st"
  shows "case es_truncate st of None \<Rightarrow> es_effective_length st = fh_total_length h
      | Some n \<Rightarrow> es_effective_length st = n \<and> n \<le> fh_total_length h"
    and "es_sealed st = Some d \<Longrightarrow> \<exists>r \<in> set rs. fr_record r = Sealed d"
proof -
  obtain st0 where s0: "apply_records (fresh_state (fh_total_length h)) rs = Ok st0"
    and st: "st = st0\<lparr>es_blocks := sort_key cb_offset (surviving rs)\<rparr>"
    and len: "es_effective_length st = last (fh_total_length h # records_truncates rs)"
      "es_effective_length st \<le> fh_total_length h"
    using assms by (rule effective_state_Ok) (auto simp: fresh_state_def)
  note R = apply_records_rest [OF s0]
  show "case es_truncate st of None \<Rightarrow> es_effective_length st = fh_total_length h
      | Some n \<Rightarrow> es_effective_length st = n \<and> n \<le> fh_total_length h"
    using R len st by (auto simp: fresh_state_def split: if_splits)
  show "es_sealed st = Some d \<Longrightarrow> \<exists>r \<in> set rs. fr_record r = Sealed d"
    using R st by (auto simp: fresh_state_def)
qed

lemma verify_and_merge_ok:
  assumes "reads_file part img" and "effective_state h rs = Ok st"
    and "verify_and_merge blake3 part (es_blocks st) = Ok merged"
  shows "\<forall>b \<in> set (es_blocks st). block_intact blake3 img b"
    and "sorted_wrt before merged"
    and "\<forall>b \<in> set merged. cb_len b \<noteq> 0 \<and> block_intact blake3 img b \<and> block_end b \<le> unat (es_effective_length st)"
    and "(\<Union>b \<in> set merged. block_bytes b) = (\<Union>b \<in> set (es_blocks st). block_bytes b)"
proof -
  have so: "sorted_wrt before (es_blocks st)" and li: "\<forall>b \<in> set (es_blocks st). block_end b \<le> unat (es_effective_length st)"
    using assms(2) by (auto elim!: effective_state_Ok simp: list_all_iff block_in_def)
  have "merge_ok blake3 img None [] 0 {}"
    by (simp add: merge_ok_def)
  moreover have "\<forall>b \<in> set (es_blocks st). block_end b < 2 ^ 64 \<and> 0 \<le> unat (cb_offset b)"
    using li unat_lt_2p [of "es_effective_length st"] by fastforce
  ultimately obtain p where int: "\<forall>b \<in> set (es_blocks st). block_intact blake3 img b"
    and m: "merge_ok blake3 img None merged p (\<Union>b \<in> set (es_blocks st). block_bytes b)"
    using verify_loop_ok [OF _ assms(1) so, of blake3 None "[]" 0 "{}" merged] assms(3)
    by (auto simp: verify_and_merge_def)
  show "\<forall>b \<in> set (es_blocks st). block_intact blake3 img b" "sorted_wrt before merged"
    and cov: "(\<Union>b \<in> set merged. block_bytes b) = (\<Union>b \<in> set (es_blocks st). block_bytes b)"
    using int m by (auto simp: merge_ok_def)
  have "block_end b \<le> unat (es_effective_length st)" if b: "b \<in> set merged" for b
  proof -
    have "cb_len b \<noteq> 0"
      using m b by (auto simp: merge_ok_def)
    then have "0 < unat (cb_len b)"
      by (simp add: unat_gt_0)
    then have "block_end b - 1 \<in> block_bytes b" "0 < block_end b"
      by (auto simp: block_bytes_def block_end_def)
    then obtain c where "c \<in> set (es_blocks st)" "block_end b - 1 \<in> block_bytes c"
      using cov b by blast
    then show ?thesis
      using li \<open>0 < block_end b\<close> by (fastforce simp: block_bytes_def)
  qed
  then show "\<forall>b \<in> set merged. cb_len b \<noteq> 0 \<and> block_intact blake3 img b \<and> block_end b \<le> unat (es_effective_length st)"
    using m by (auto simp: merge_ok_def)
qed

lemma compaction_preserves:
  assumes dg: "digest32 blake3" and rd: "reads_file part img"
    and old: "replay_bytes crc old = Ok out" "length old < 2 ^ 64"
    and st: "effective_state (ro_header out) (ro_records out) = Ok st"
    and ver: "verify_and_merge blake3 part (es_blocks st) = Ok merged"
    and enc: "encode_replacement crc (ro_header out) st merged wall_clock = Ok new" and new: "length new < 2 ^ 64"
  shows "\<exists>out'. replay_bytes crc new = Ok out' \<and> ro_stop out' = CleanEof \<and> ro_header out' = ro_header out \<and>
    effective_state (ro_header out) (ro_records out') = Ok (st\<lparr>es_blocks := merged\<rparr>)"
proof -
  note V = verify_and_merge_ok [OF rd st ver]
  note L = effective_length_truncate [OF st]
  have wfh: "wf_header (ro_header out)" and wfr: "wf_frames 0 (ro_records out)"
    using replay_sound [OF old] by blast+
  obtain cov recs where e: "encode_numbered crc 0 (semantic_records st merged cov wall_clock) = Ok recs"
    and new_eq: "new = encode_header crc (ro_header out) @ recs"
    using enc by (auto simp: encode_replacement_def and_then_eq_Inr)
  let ?rs = "numbered 0 (semantic_records st merged cov wall_clock)"
  have "length d = 32" if "es_sealed st = Some d" for d
    using L(2) [OF that] wf_frames_record [OF wfr] by (metis wf_record.simps(2))
  moreover have "length (cb_blake3 b) = 32" if "b \<in> set merged" for b
    using V(3) that dg by (metis block_intact_def digest32_def)
  ultimately have "\<forall>r \<in> set (semantic_records st merged cov wall_clock). wf_record r"
    by (auto simp: semantic_records_def split: option.splits)
  then have wf: "wf_frames 0 ?rs" "recs = journal_body crc ?rs"
    using encode_numbered_Ok [OF e] by simp_all
  have "replay_bytes crc new = Ok \<lparr>ro_header = ro_header out, ro_records = ?rs,
      ro_valid_bytes = of_nat (HEADER_LEN + length (journal_body crc ?rs)), ro_stop = CleanEof\<rparr>"
    using replay_of_journal [OF wfh wf(1), of crc "[]"] new wf(2)
    by (simp add: new_eq peel.simps [of crc _ "[]"] decode_short stop_of_def)
  moreover have "effective_state (ro_header out) ?rs = Ok (st\<lparr>es_blocks := merged\<rparr>)"
    using V(2,3) L(1) by (intro effective_state_compacted) auto
  ultimately show ?thesis
    by simp
qed

section \<open>Atomicity\<close>

lemma fs_put_simps [simp]:
  "d_nodes (fs_put d i f) j = (if j = i then f else d_nodes d j)" "d_now (fs_put d i f) = d_now d"
  "d_disk (fs_put d i f) = d_disk d" "d_next (fs_put d i f) = d_next d"
  by (simp_all add: fs_put_def)

lemma on_disk_put:
  "on_disk d p bs \<Longrightarrow> d_now d p \<noteq> Some i \<Longrightarrow> on_disk (fs_put d i f) p bs"
  by (auto simp: on_disk_def)

lemma open_truncate_other:
  assumes "dir_wf d" and "on_disk d p bs" and "fs_open_truncate d q = (d1, r)" and "q \<noteq> p"
  shows "on_disk d1 p bs" and "r = Ok i \<Longrightarrow> d_now d1 q = Some i \<and> d_now d1 p \<noteq> Some i \<and> f_cache (d_nodes d1 i) = []"
proof -
  obtain x d0 where f: "dir_fault d = (x, d0)"
    by (cases "dir_fault d")
  obtain k where k: "d_now d p = Some k" "d_disk d p = Some k" "f_cache (d_nodes d k) = bs" "f_stable (d_nodes d k) = bs"
    using assms(2) by (auto simp: on_disk_def)
  have "k < d_next d" "d_now d q \<noteq> Some k"
    using assms(1,4) k by (auto simp: dir_wf_def)
  then show "on_disk d1 p bs" and "r = Ok i \<Longrightarrow> d_now d1 q = Some i \<and> d_now d1 p \<noteq> Some i \<and> f_cache (d_nodes d1 i) = []"
    using assms(3,4) f k
    by (auto simp: fs_open_truncate_def on_disk_def Let_def dir_fault_keeps [OF f] split: fault.splits option.splits)
qed

lemma rename_crash:
  assumes "on_disk d p old" and "d_now d q = Some i" and "q \<noteq> p"
    and "f_cache (d_nodes d i) = new" "f_stable (d_nodes d i) = new" and "fs_rename d q p = (d1, r)"
  shows "crash_content d1 p c \<Longrightarrow> c = Some old \<or> c = Some new"
    and "r = Ok () \<Longrightarrow> d_now d1 p = Some i \<and> d_nodes d1 = d_nodes d"
    and "r = Err e \<Longrightarrow> on_disk d1 p old"
proof -
  obtain x d0 where f: "dir_fault d = (x, d0)"
    by (cases "dir_fault d")
  note keep = dir_fault_keeps [OF f]
  show "crash_content d1 p c \<Longrightarrow> c = Some old \<or> c = Some new"
    "r = Ok () \<Longrightarrow> d_now d1 p = Some i \<and> d_nodes d1 = d_nodes d" "r = Err e \<Longrightarrow> on_disk d1 p old"
    using assms f
    by (auto simp: fs_rename_def on_disk_def crash_content_def keep crash_image_stable split: fault.splits)
qed

lemma sync_parent_crash:
  assumes "sync_parent plat p d = (d1, r)" and "d_now d p = Some i"
    and "f_cache (d_nodes d i) = new" "f_stable (d_nodes d i) = new"
    and "\<And>c. crash_content d p c \<Longrightarrow> c = Some old \<or> c = Some new"
  shows "crash_content d1 p c \<Longrightarrow> c = Some old \<or> c = Some new"
    and "r = Ok () \<Longrightarrow> plat = Unix \<Longrightarrow> on_disk d1 p new"
proof -
  obtain x d0 where f: "dir_fault d = (x, d0)"
    by (cases "dir_fault d")
  note keep = dir_fault_keeps [OF f]
  have same: "crash_content d0 p c = crash_content d p c" for c
    unfolding crash_content_def keep ..
  show "crash_content d1 p c \<Longrightarrow> c = Some old \<or> c = Some new"
    "r = Ok () \<Longrightarrow> plat = Unix \<Longrightarrow> on_disk d1 p new"
    using assms(1-4) f assms(5) [of c] same [of c]
    by (auto simp: sync_parent_def fs_sync_dir_def keep on_disk_def crash_content_def crash_image_stable
        split: fault.splits platform.splits if_splits)
qed

text \<open>
  Whatever fails, and wherever the hook stops the procedure, a crash leaves the old bytes or the new ones.
\<close>

lemma replace_crash:
  assumes "dir_wf d" and "on_disk d p old"
    and "replace_atomically_with_hook plat hook d p new = (d', res)"
  shows "(\<forall>c. crash_content d' p c \<longrightarrow> c = Some old \<or> c = Some new) \<and>
    (res = Ok () \<and> plat = Unix \<longrightarrow> on_disk d' p new)"
proof -
  let ?q = "sibling_new_path p"
  have q: "?q \<noteq> p"
    by (simp add: sibling_new_path_def)
  obtain d1 r1 where o: "fs_open_truncate d ?q = (d1, r1)"
    by (cases "fs_open_truncate d ?q")
  note O = open_truncate_other [OF assms(1,2) o q]
  show ?thesis
  proof (cases r1)
    case (Inl e)
    then show ?thesis
      using assms(3) o O(1) by (auto simp: replace_atomically_with_hook_def on_disk_crash)
  next
    case (Inr i)
    note I = O(2) [OF Inr]
    have keep: "on_disk (fs_put d1 i f) p old" for f
      using O(1) I on_disk_put by blast
    obtain f2 r2 where a: "file_append (d_nodes d1 i) new = (f2, r2)"
      by (cases "file_append (d_nodes d1 i) new")
    obtain f3 r3 where s: "file_sync f2 = (f3, r3)"
      by (cases "file_sync f2")
    obtain d4 r4 where n: "fs_rename (fs_put d1 i f3) ?q p = (d4, r4)"
      by (cases "fs_rename (fs_put d1 i f3) ?q p")
    obtain d5 r5 where y: "sync_parent plat p d4 = (d5, r5)"
      by (cases "sync_parent plat p d4")
    note un = assms(3) [unfolded replace_atomically_with_hook_def o Inr prod.case sum.case a s n y]
    show ?thesis
    proof (cases "(\<exists>u. hook NewFileCreated = Ok u) \<and> (\<exists>u. r2 = Ok u) \<and> (\<exists>u. r3 = Ok u) \<and> (\<exists>u. hook NewFileSynced = Ok u)")
      case False
      then have "(d' = d1 \<or> (\<exists>f. d' = fs_put d1 i f)) \<and> res \<noteq> Ok ()"
        using un by (auto split: sum.splits)
      then have "on_disk d' p old" "res \<noteq> Ok ()"
        using keep O(1) by auto
      then show ?thesis
        by (simp add: on_disk_crash)
    next
      case True
      have f3: "f_cache (d_nodes (fs_put d1 i f3) i) = new" "f_stable (d_nodes (fs_put d1 i f3) i) = new"
        using True I file_append_result(2) [OF a] file_sync_result(1,2) [OF s] by auto
      have nq: "d_now (fs_put d1 i f3) ?q = Some i"
        using I by simp
      note R = rename_crash [OF keep nq q f3 n]
      show ?thesis
      proof (cases "r4 = Ok ()")
        case False
        then have "d' = d4 \<and> res \<noteq> Ok ()"
          using un True by (auto split: sum.splits)
        then show ?thesis
          using R(1) by blast
      next
        case r4: True
        have f4: "f_cache (d_nodes d4 i) = new" "f_stable (d_nodes d4 i) = new" and now: "d_now d4 p = Some i"
          using R(2) [OF r4] f3 by simp_all
        note Y = sync_parent_crash [OF y now f4 R(1)]
        have "d' = d4 \<and> res \<noteq> Ok () \<or> d' = d5 \<and> (res = Ok () \<longrightarrow> r5 = Ok ())"
          using un True r4 by (auto split: sum.splits)
        then show ?thesis
          using Y R(1) by blast
      qed
    qed
  qed
qed

section \<open>Properties\<close>

text \<open>
  C2.  Compaction never weakens the recovery evidence.  Let a cleanly ending journal be on disk and compact
  it, with any faults.  A crash afterwards leaves under the journal's name a journal that replays to the
  same header and folds to the same length, identities, seal and covered bytes, with intact blocks if the
  old ones were intact; if a block of the old journal does not match the part file, the old journal is
  still there and the compaction did not report success.
\<close>

theorem compaction_keeps_state:
  assumes "digest32 blake3" and "reads_file rd img" and "dir_wf d" and "on_disk d p old"
    and "length old < 2 ^ 64" and "healthy (cuts old)" and "stream (cuts old) = old"
    and "replay_bytes crc old = Ok out" and "ro_stop out = CleanEof"
    and "effective_state (ro_header out) (ro_records out) = Ok st"
    and "compact_journal plat crc blake3 cuts d p (Ok rd) wall_clock = (d', res)" and "crash_content d' p c"
  shows "\<exists>bs. c = Some bs \<and>
    (length bs < 2 ^ 64 \<longrightarrow>
       (\<exists>out' st'. replay_bytes crc bs = Ok out' \<and> ro_header out' = ro_header out \<and>
          effective_state (ro_header out) (ro_records out') = Ok st' \<and>
          es_effective_length st' = es_effective_length st \<and> es_truncate st' = es_truncate st \<and>
          es_identities st' = es_identities st \<and> es_sealed st' = es_sealed st \<and>
          (\<Union>b \<in> set (es_blocks st'). block_bytes b) = (\<Union>b \<in> set (es_blocks st). block_bytes b) \<and>
          ((\<forall>b \<in> set (es_blocks st). block_intact blake3 img b) \<longrightarrow>
             (\<forall>b \<in> set (es_blocks st'). block_intact blake3 img b)))) \<and>
    ((\<exists>b \<in> set (es_blocks st). \<not> block_intact blake3 img b) \<longrightarrow> bs = old \<and> res \<noteq> Ok ())"
proof -
  obtain x d0 where f: "dir_fault d = (x, d0)"
    by (cases "dir_fault d")
  note keep = dir_fault_keeps [OF f]
  obtain k where k: "d_now d p = Some k" "f_cache (d_nodes d k) = old"
    using assms(4) by (auto simp: on_disk_def)
  have od: "on_disk d0 p old" and wf: "dir_wf d0"
    using assms(3,4) unfolding on_disk_def dir_wf_def keep by blast+
  have rep: "replay_reader crc (cuts old) = Ok out"
    using replay_reader_bytes [OF assms(6)] assms(5,7,8) by simp
  have rec: "recover_journal crc cuts (Ok (d_nodes d0 k)) = (Some (d_nodes d0 k), Ok out)"
    using k keep rep assms(9) by (simp add: recover_journal_def)
  have fop: "fs_open d p = (d0, case x of Fault _ e \<Rightarrow> Err e | NoFault \<Rightarrow> Ok k)"
    using f k keep by (simp add: fs_open_def split: fault.splits)
  have put: "fs_put d0 k (d_nodes d0 k) = d0"
    by (simp add: fs_put_def)
  note un = assms(11) [unfolded compact_journal_def fop Let_def prod.case]
  have old: ?thesis if "on_disk d' p old" "res \<noteq> Ok ()"
    using that assms(8,10,12) by (auto simp: on_disk_crash)
  show ?thesis
  proof (cases "\<exists>merged new. x = NoFault \<and> verify_and_merge blake3 rd (es_blocks st) = Ok merged \<and>
      encode_replacement crc (ro_header out) st merged wall_clock = Ok new")
    case False
    then have "d' = d0" "res \<noteq> Ok ()"
      using un rec put assms(10) by (auto simp: recover_journal_def split: fault.splits sum.splits)
    then show ?thesis
      using old od by simp
  next
    case True
    then obtain merged new where x: "x = NoFault" and v: "verify_and_merge blake3 rd (es_blocks st) = Ok merged"
      and e: "encode_replacement crc (ro_header out) st merged wall_clock = Ok new"
      by blast
    obtain d2 r2 where r: "replace_atomically_with_hook plat (\<lambda>_. Ok ()) d0 p new = (d2, r2)"
      by (cases "replace_atomically_with_hook plat (\<lambda>_. Ok ()) d0 p new")
    have "d' = d2"
      using un rec put assms(10) x v e r by (auto simp: replace_atomically_def split: sum.splits)
    then have c: "c = Some old \<or> c = Some new"
      using replace_crash [OF wf od r] assms(12) by blast
    note V = verify_and_merge_ok [OF assms(2,10) v]
    show ?thesis
    proof (cases "c = Some old")
      case True
      then show ?thesis
        using assms(8,10) V(1) by auto
    next
      case False
      then show ?thesis
        using c V compaction_preserves [OF assms(1,2,8,5,10) v e] by fastforce
    qed
  qed
qed

definition compact_header :: file_header where
  "compact_header = \<lparr>fh_transfer_id = replicate 16 0, fh_total_length = 4, fh_block_size = 2,
     fh_validator_hash = replicate 32 0\<rparr>"

definition compact_records :: "framed_record list" where
  "compact_records = numbered 0 [BlockComplete 2 2 (demo_hash [7, 8]), BlockComplete 0 2 (demo_hash [5, 6])]"

definition compact_part :: part_reader where
  "compact_part = \<lparr>pr_seek = (\<lambda>_. Ok ()), pr_read_exact = (\<lambda>pos n.
     if unat pos + n \<le> 4 then Ok (chunk (unat pos) (unat pos + n) [5, 6, 7, 8]) else Err (io_new IoUnexpectedEof))\<rparr>"

definition compact_old :: bytes where
  "compact_old = encode_header demo_crc compact_header @ journal_body demo_crc compact_records"

definition compact_dir :: directory where
  "compact_dir = \<lparr>d_nodes = (\<lambda>_. \<lparr>f_cache = compact_old, f_stable = compact_old, f_faults = []\<rparr>),
     d_now = [''j'' \<mapsto> 0], d_disk = [''j'' \<mapsto> 0], d_next = 1, d_faults = []\<rparr>"

lemma compact_replay:
  "\<exists>out. replay_bytes demo_crc compact_old = Ok out \<and> ro_header out = compact_header \<and>
     ro_records out = compact_records \<and> ro_stop out = CleanEof" "length compact_old < 2 ^ 64"
proof -
  have wf: "wf_header compact_header" "wf_frames 0 compact_records"
    by (simp_all add: wf_header_def compact_header_def compact_records_def MAX_PAYLOAD_LEN_def demo_hash_def min_def)
  show "length compact_old < 2 ^ 64"
    using wf(1)
    by (simp add: compact_old_def HEADER_LEN_def compact_records_def length_frame_bytes demo_hash_def min_def)
  then show "\<exists>out. replay_bytes demo_crc compact_old = Ok out \<and> ro_header out = compact_header \<and>
     ro_records out = compact_records \<and> ro_stop out = CleanEof"
    using replay_of_journal [OF wf, of demo_crc "[]"]
    by (simp add: compact_old_def peel.simps [of demo_crc _ "[]"] decode_short stop_of_def)
qed

lemma compact_effective:
  "effective_state compact_header compact_records =
     Ok ((fresh_state 4)\<lparr>es_blocks := [\<lparr>cb_offset = 0, cb_len = 2, cb_blake3 = demo_hash [5, 6]\<rparr>,
       \<lparr>cb_offset = 2, cb_len = 2, cb_blake3 = demo_hash [7, 8]\<rparr>]\<rparr>)"
  by (simp add: effective_state_def compact_header_def compact_records_def cb_end_def checked_add_def Let_def
      fresh_state_def word_lt_unat word_le_unat)

theorem compaction_keeps_state_witness:
  "let d' = fst (compact_journal Unix demo_crc demo_hash (\<lambda>bs. [RdData bs]) compact_dir ''j'' (Ok compact_part) 9) in
   \<exists>bs. (case d_now d' ''j'' of None \<Rightarrow> None | Some i \<Rightarrow> Some (f_cache (d_nodes d' i))) = Some bs \<and>
     (length bs < 2 ^ 64 \<longrightarrow> (\<exists>out' st'. replay_bytes demo_crc bs = Ok out' \<and>
        effective_state compact_header (ro_records out') = Ok st' \<and>
        (\<Union>b \<in> set (es_blocks st'). block_bytes b) = {0..<4}))"
proof -
  let ?r = "compact_journal Unix demo_crc demo_hash (\<lambda>bs. [RdData bs]) compact_dir ''j'' (Ok compact_part) 9"
  let ?c = "case d_now (fst ?r) ''j'' of None \<Rightarrow> None | Some i \<Rightarrow> Some (f_cache (d_nodes (fst ?r) i))"
  obtain out where out: "replay_bytes demo_crc compact_old = Ok out" "ro_header out = compact_header"
    "ro_records out = compact_records" "ro_stop out = CleanEof"
    using compact_replay(1) by blast
  have hyps: "reads_file compact_part [5, 6, 7, 8]" "dir_wf compact_dir" "on_disk compact_dir ''j'' compact_old"
    "healthy [RdData compact_old]" "stream [RdData compact_old] = compact_old"
    by (auto simp: reads_file_def compact_part_def dir_wf_def compact_dir_def on_disk_def compact_old_def
        encode_header_def header_body_def MAGIC_def split: if_splits)
  have c: "crash_content (fst ?r) ''j'' ?c"
    by (auto simp: crash_content_def crash_image_def split: option.splits)
  have r: "?r = (fst ?r, snd ?r)"
    by simp
  note P = compaction_keeps_state [OF digest32_demo hyps(1-3) compact_replay(2) hyps(4,5) out(1,4) _ r c]
  have "effective_state (ro_header out) (ro_records out) =
     Ok ((fresh_state 4)\<lparr>es_blocks := [\<lparr>cb_offset = 0, cb_len = 2, cb_blake3 = demo_hash [5, 6]\<rparr>,
       \<lparr>cb_offset = 2, cb_len = 2, cb_blake3 = demo_hash [7, 8]\<rparr>]\<rparr>)"
    using out compact_effective by simp
  from P [OF this] obtain bs where bs: "?c = Some bs"
    and st: "length bs < 2 ^ 64 \<longrightarrow> (\<exists>out' st'. replay_bytes demo_crc bs = Ok out' \<and>
        effective_state compact_header (ro_records out') = Ok st' \<and>
        (\<Union>b \<in> set (es_blocks st'). block_bytes b) =
        (\<Union>b \<in> {\<lparr>cb_offset = 0, cb_len = 2, cb_blake3 = demo_hash [5, 6]\<rparr>,
           \<lparr>cb_offset = 2, cb_len = 2, cb_blake3 = demo_hash [7, 8]\<rparr>}. block_bytes b))"
    unfolding out by auto
  have "(\<Union>b \<in> {\<lparr>cb_offset = 0, cb_len = 2, cb_blake3 = demo_hash [5, 6]\<rparr>,
      \<lparr>cb_offset = 2, cb_len = 2, cb_blake3 = demo_hash [7, 8]\<rparr>}. block_bytes b) = {0..<4}"
    by (auto simp: block_bytes_def block_end_def)
  with bs st show ?thesis
    by (simp only: Let_def) blast
qed

end
