(* ===== verification/Completion.thy ===== *)
theory Completion
  imports Compaction Remote
begin

unbundle bit_operations_syntax

text \<open>
  Verification before naming, \<open>downpour-storage/src/completion.rs\<close>: length, coverage and digest checks, the
  durable seal, and only then the rename.  The hash and base64 libraries are a record of functions; the
  directory is the one of \<open>FsModel\<close> and the journal any implementation of the journal trait.
\<close>

section \<open>Data\<close>

definition VERIFY_BUFFER :: nat where
  "VERIFY_BUFFER = 64 * 1024"

definition MAX_DIGEST_BASE64 :: nat where
  "MAX_DIGEST_BASE64 = 128"

datatype completion_error =
    CoLengthMismatch u64 u64
  | CoIncompleteCoverage u64 u64 u64
  | CoDigestMismatch digest_algorithm
  | CoIo string io_error
  | CoSeal writer_error

datatype digest_outcome =
    NotOffered
  | Verified digest_algorithm
  | Unusable string

record sealed_file =
  sf_final_path :: path
  sf_final_blake3 :: bytes
  sf_digest_checked :: digest_outcome

record digest_lib =
  dl_blake3 :: "bytes \<Rightarrow> bytes"
  dl_sha256 :: "bytes \<Rightarrow> bytes"
  dl_sha512 :: "bytes \<Rightarrow> bytes"
  dl_base64 :: "string \<Rightarrow> bytes option"

section \<open>Checks\<close>

fun coverage_loop :: "interval list \<Rightarrow> u64 \<Rightarrow> u64 option \<Rightarrow> u64 \<times> u64 option" where
  "coverage_loop [] covered gap = (covered, gap)"
| "coverage_loop (i # is) covered gap =
     (if iv_state i = Complete then coverage_loop is (saturating_add covered (iv_len i)) gap
      else coverage_loop is covered (if gap = None then Some (iv_start i) else gap))"

definition check_coverage :: "interval_map \<Rightarrow> u64 \<Rightarrow> completion_error + unit" where
  "check_coverage m total_len =
     (case coverage_loop (im_intervals m) 0 None of
        (covered, Some gap) \<Rightarrow> Err (CoIncompleteCoverage covered total_len gap)
      | (covered, None) \<Rightarrow>
          if covered \<noteq> total_len then Err (CoIncompleteCoverage covered total_len covered) else Ok ())"

text \<open>The read loop of \<open>hash_file\<close>: the bytes all hashers were fed.  An interrupted read is an error here.\<close>

function hash_loop :: "reader \<Rightarrow> bytes \<Rightarrow> io_error + bytes" where
  "hash_loop [] fed = Ok fed"
| "hash_loop (RdInterrupted # rd) fed = Err (io_new IoInterrupted)"
| "hash_loop (RdFail e # rd) fed = Err e"
| "hash_loop (RdData d # rd) fed =
     (if d = [] then Ok fed
      else if length d \<le> VERIFY_BUFFER then hash_loop rd (fed @ d)
      else hash_loop (RdData (drop VERIFY_BUFFER d) # rd) (fed @ take VERIFY_BUFFER d))"
  by pat_completeness auto
termination
  by (relation "measure (\<lambda>(rd, _). sum_list (map (\<lambda>ev. case ev of RdData d \<Rightarrow> Suc (length d) | _ \<Rightarrow> 1) rd))")
     (auto simp: VERIFY_BUFFER_def)

definition hash_file ::
    "digest_lib \<Rightarrow> (bytes \<Rightarrow> reader) \<Rightarrow> directory \<Rightarrow> path \<Rightarrow> content_digest option \<Rightarrow>
     directory \<times> (completion_error + bytes \<times> bytes option)" where
  "hash_file lib cuts d p digest =
     (case fs_open d p of
        (d1, Err e) \<Rightarrow> (d1, Err (CoIo ''open the part file for verification'' e))
      | (d1, Ok i) \<Rightarrow>
          (d1, case hash_loop (cuts (f_cache (d_nodes d1 i))) [] of
                 Err e \<Rightarrow> Err (CoIo ''read the part file for verification'' e)
               | Ok fed \<Rightarrow>
                   Ok (dl_blake3 lib fed,
                       case digest of
                         None \<Rightarrow> None
                       | Some dg \<Rightarrow> Some (case cd_algorithm dg of Sha256 \<Rightarrow> dl_sha256 lib fed
                                                               | Sha512 \<Rightarrow> dl_sha512 lib fed))))"

definition decode_digest :: "digest_lib \<Rightarrow> content_digest \<Rightarrow> bytes option" where
  "decode_digest lib digest =
     (if length (cd_encoded digest) > MAX_DIGEST_BASE64 then None
      else
        (let expected_len = (case cd_algorithm digest of Sha256 \<Rightarrow> 32 | Sha512 \<Rightarrow> 64) in
         case dl_base64 lib (cd_encoded digest) of
           None \<Rightarrow> None
         | Some decoded \<Rightarrow> if length decoded = expected_len then Some decoded else None))"

definition constant_time_eq :: "bytes \<Rightarrow> bytes \<Rightarrow> bool" where
  "constant_time_eq a b =
     (if length a \<noteq> length b then False
      else foldl (\<lambda>diff (x, y). diff OR (x XOR y)) 0 (zip a b) = 0)"

section \<open>Sealing and naming\<close>

definition fs_metadata_len :: "directory \<Rightarrow> path \<Rightarrow> directory \<times> (io_error + u64)" where
  "fs_metadata_len d p =
     (case fs_open d p of
        (d1, Err e) \<Rightarrow> (d1, Err e)
      | (d1, Ok i) \<Rightarrow> (d1, Ok (of_nat (length (f_cache (d_nodes d1 i))))))"

definition seal_and_rename ::
    "'j durable_journal \<Rightarrow> directory \<Rightarrow> 'j \<Rightarrow> path \<Rightarrow> path \<Rightarrow> bytes \<Rightarrow> digest_outcome \<Rightarrow> u64 \<Rightarrow>
     directory \<times> 'j \<times> (completion_error + sealed_file)" where
  "seal_and_rename J d j part_path final_path final_blake3 digest_checked next_sequence =
     (case dj_append J j \<lparr>fr_sequence = next_sequence, fr_record = Sealed final_blake3\<rparr> of
        (j1, Err e) \<Rightarrow> (d, j1, Err (CoSeal e))
      | (j1, Ok _) \<Rightarrow>
          (case dj_sync_data J j1 of
             (j2, Err e) \<Rightarrow> (d, j2, Err (CoSeal e))
           | (j2, Ok _) \<Rightarrow>
               (case fs_rename d part_path final_path of
                  (d1, Err e) \<Rightarrow> (d1, j2, Err (CoIo ''rename the verified part file to its final name'' e))
                | (d1, Ok _) \<Rightarrow>
                    (d1, j2, Ok \<lparr>sf_final_path = final_path, sf_final_blake3 = final_blake3,
                                 sf_digest_checked = digest_checked\<rparr>))))"

definition digest_verdict ::
    "digest_lib \<Rightarrow> content_digest option \<Rightarrow> bytes option \<Rightarrow> completion_error + digest_outcome" where
  "digest_verdict lib digest server_digest =
     (case (digest, server_digest) of
        (None, _) \<Rightarrow> Ok NotOffered
      | (Some offered, Some computed) \<Rightarrow>
          (case decode_digest lib offered of
             None \<Rightarrow> Ok (Unusable ''digest payload is not valid base64 of the algorithm's length'')
           | Some expected \<Rightarrow>
               if \<not> constant_time_eq expected computed then Err (CoDigestMismatch (cd_algorithm offered))
               else Ok (Verified (cd_algorithm offered)))
      | (Some _, None) \<Rightarrow> Ok (Unusable ''digest algorithm is not one this build can compute''))"

definition verify_and_rename ::
    "digest_lib \<Rightarrow> (bytes \<Rightarrow> reader) \<Rightarrow> 'j durable_journal \<Rightarrow> directory \<Rightarrow> 'j \<Rightarrow> path \<Rightarrow> path \<Rightarrow> u64 \<Rightarrow>
     interval_map \<Rightarrow> content_digest option \<Rightarrow> u64 \<Rightarrow> directory \<times> 'j \<times> (completion_error + sealed_file)" where
  "verify_and_rename lib cuts J d j part_path final_path total_len intervals digest next_sequence =
     (case fs_metadata_len d part_path of
        (d1, Err e) \<Rightarrow> (d1, j, Err (CoIo ''measure the part file before verification'' e))
      | (d1, Ok actual) \<Rightarrow>
          if actual \<noteq> total_len then (d1, j, Err (CoLengthMismatch total_len actual))
          else
            (case check_coverage intervals total_len of
               Err e \<Rightarrow> (d1, j, Err e)
             | Ok _ \<Rightarrow>
                 (case hash_file lib cuts d1 part_path digest of
                    (d2, Err e) \<Rightarrow> (d2, j, Err e)
                  | (d2, Ok (final_blake3, server_digest)) \<Rightarrow>
                      (case digest_verdict lib digest server_digest of
                         Err e \<Rightarrow> (d2, j, Err e)
                       | Ok outcome \<Rightarrow>
                           seal_and_rename J d2 j part_path final_path final_blake3 outcome next_sequence))))"

section \<open>Lemmas\<close>

lemma or_xor_fold: "foldl (\<lambda>diff (x, y). diff OR (x XOR y)) acc ps = 0 \<longleftrightarrow> acc = 0 \<and> (\<forall>(x, y) \<in> set ps. x = (y :: u8))"
proof (induction ps arbitrary: acc)
  case (Cons p ps)
  have "acc OR (x XOR y) = 0 \<longleftrightarrow> acc = 0 \<and> x = y" for x y
    by (auto simp: bit_eq_iff bit_simps)
  then show ?case
    using Cons by (cases p) auto
qed simp

lemma constant_time_eq_iff: "constant_time_eq a b \<longleftrightarrow> a = b"
  by (auto simp: constant_time_eq_def or_xor_fold list_eq_iff_zip_eq)

lemma coverage_loop_gap:
  "snd (coverage_loop xs covered gap) = None \<longleftrightarrow> gap = None \<and> (\<forall>i \<in> set xs. iv_state i = Complete)"
  by (induction xs arbitrary: covered gap) auto

text \<open>The coverage check is exactly full coverage of a map of that length.\<close>

lemma check_coverage_Ok:
  assumes "invariants_hold m"
  shows "check_coverage m total_len = Ok () \<longleftrightarrow>
    im_total_length m = total_len \<and> (\<forall>b < total_len. byte_state m b = Some Complete)"
proof -
  have ch: "chain 0 (im_intervals m) (im_total_length m)" "canonical (im_intervals m)"
    using assms by (simp_all add: invariants_hold_iff)
  have all: "(\<forall>i \<in> set (im_intervals m). iv_state i = Complete) \<longleftrightarrow> (\<forall>b < im_total_length m. byte_state m b = Some Complete)"
  proof safe
    fix b assume a: "\<forall>i \<in> set (im_intervals m). iv_state i = Complete" and b: "b < im_total_length m"
    have "lookup_byte (im_intervals m) b \<noteq> None"
      using lookup_inside [OF ch(1) _ b] by simp
    then show "byte_state m b = Some Complete"
      using a lookup_member [of "im_intervals m" b] by (auto simp: byte_state_def)
  next
    fix i assume a: "\<forall>b < im_total_length m. byte_state m b = Some Complete" and i: "i \<in> set (im_intervals m)"
    show "iv_state i = Complete"
      using a lookup_of_member [OF ch(1) i, of "iv_start i"] chain_bounds [OF ch(1) i] by (auto simp: byte_state_def)
  qed
  have cov: "fst (coverage_loop (im_intervals m) 0 None) = im_total_length m"
    if "\<forall>i \<in> set (im_intervals m). iv_state i = Complete"
  proof (cases "im_intervals m")
    case Nil
    then show ?thesis
      using ch(1) by simp
  next
    case (Cons i rest)
    then show ?thesis
      using that ch unat_lt_2p [of "im_total_length m"]
      by (cases rest) (auto simp: iv_len_def saturating_add_def)
  qed
  show ?thesis
    using coverage_loop_gap [of "im_intervals m" 0 None] all cov
    by (cases "coverage_loop (im_intervals m) 0 None") (auto simp: check_coverage_def split: option.splits)
qed

text \<open>What the readers promise: the file's bytes in order, in non-empty pieces, or a failure.\<close>

definition delivers :: "(bytes \<Rightarrow> reader) \<Rightarrow> bool" where
  "delivers cuts = (\<forall>bs. stream (cuts bs) = bs \<and> RdData [] \<notin> set (cuts bs))"

lemma hash_loop_stream: "hash_loop rd fed = Ok out \<Longrightarrow> RdData [] \<notin> set rd \<Longrightarrow> out = fed @ stream rd"
  by (induction rd fed rule: hash_loop.induct) (auto split: if_splits)

definition server_hash :: "digest_lib \<Rightarrow> digest_algorithm \<Rightarrow> bytes \<Rightarrow> bytes" where
  "server_hash lib a = (case a of Sha256 \<Rightarrow> dl_sha256 lib | Sha512 \<Rightarrow> dl_sha512 lib)"

lemma digest_verdict_Ok:
  assumes "digest_verdict lib digest (map_option (\<lambda>dg. server_hash lib (cd_algorithm dg) bs) digest) = Ok outcome"
  shows "case digest of
      None \<Rightarrow> outcome = NotOffered
    | Some dg \<Rightarrow> (case decode_digest lib dg of
        None \<Rightarrow> \<exists>why. outcome = Unusable why
      | Some e \<Rightarrow> e = server_hash lib (cd_algorithm dg) bs \<and> outcome = Verified (cd_algorithm dg))"
  using assms by (auto simp: digest_verdict_def constant_time_eq_iff split: option.splits if_splits)

lemma fs_open_result:
  assumes "fs_open d p = (d1, r)"
  shows "d_nodes d1 = d_nodes d" "d_now d1 = d_now d" "r = Ok i \<Longrightarrow> d_now d p = Some i"
proof -
  obtain x d0 where f: "dir_fault d = (x, d0)"
    by (cases "dir_fault d")
  note keep = dir_fault_keeps [OF f]
  show "d_nodes d1 = d_nodes d" "d_now d1 = d_now d" "r = Ok i \<Longrightarrow> d_now d p = Some i"
    using assms f by (auto simp: fs_open_def keep split: fault.splits option.splits)
qed

lemma hash_file_Ok:
  assumes "hash_file lib cuts d p digest = (d1, r)" and "delivers cuts"
  shows "d_nodes d1 = d_nodes d" "d_now d1 = d_now d"
    and "r = Ok (h, sd) \<Longrightarrow> d_now d p = Some i \<Longrightarrow> h = dl_blake3 lib (f_cache (d_nodes d i)) \<and>
      sd = map_option (\<lambda>dg. server_hash lib (cd_algorithm dg) (f_cache (d_nodes d i))) digest"
proof -
  obtain d2 q where o: "fs_open d p = (d2, q)"
    by (cases "fs_open d p")
  note O = fs_open_result [OF o]
  have hl: "out = bs" if "hash_loop (cuts bs) [] = Ok out" for bs out
    using hash_loop_stream [OF that] assms(2) by (auto simp: delivers_def)
  show "d_nodes d1 = d_nodes d" "d_now d1 = d_now d"
    using assms(1) o O by (auto simp: hash_file_def split: sum.splits)
  show "h = dl_blake3 lib (f_cache (d_nodes d i)) \<and>
      sd = map_option (\<lambda>dg. server_hash lib (cd_algorithm dg) (f_cache (d_nodes d i))) digest"
    if "r = Ok (h, sd)" "d_now d p = Some i"
    using assms(1) o O that
    by (auto simp: hash_file_def server_hash_def split: sum.splits option.splits digest_algorithm.splits dest!: hl)
qed

lemma fs_rename_result:
  assumes "fs_rename d a b = (d1, r)"
  shows "d_nodes d1 = d_nodes d" "r = Err e \<Longrightarrow> d_now d1 = d_now d"
    "r = Ok u \<Longrightarrow> d_now d1 = (d_now d)(a := None, b := d_now d a)"
proof -
  obtain x d0 where f: "dir_fault d = (x, d0)"
    by (cases "dir_fault d")
  note keep = dir_fault_keeps [OF f]
  show "d_nodes d1 = d_nodes d" "r = Err e \<Longrightarrow> d_now d1 = d_now d"
    "r = Ok u \<Longrightarrow> d_now d1 = (d_now d)(a := None, b := d_now d a)"
    using assms f by (auto simp: fs_rename_def keep split: fault.splits option.splits)
qed

lemma seal_and_rename_result:
  assumes "seal_and_rename J d j pp fp h oc seq = (d', j', res)"
  shows "d_nodes d' = d_nodes d"
    and "res = Err e \<Longrightarrow> d_now d' = d_now d \<and> (\<exists>op e'. e = CoIo op e' \<or> (\<exists>w. e = CoSeal w))"
    and "res = Ok s \<Longrightarrow> s = \<lparr>sf_final_path = fp, sf_final_blake3 = h, sf_digest_checked = oc\<rparr> \<and>
      d_now d' = (d_now d)(pp := None, fp := d_now d pp) \<and>
      (\<exists>j1. dj_append J j \<lparr>fr_sequence = seq, fr_record = Sealed h\<rparr> = (j1, Ok ()) \<and> dj_sync_data J j1 = (j', Ok ()))"
  using assms by (auto simp: seal_and_rename_def split: prod.splits sum.splits dest: fs_rename_result)

lemma verify_and_rename_facts:
  assumes "invariants_hold m" and "delivers cuts" and "\<And>i. d_now d part_path = Some i \<Longrightarrow> length (f_cache (d_nodes d i)) < 2 ^ 64"
    and "verify_and_rename lib cuts J d j part_path final_path total_len m digest seq = (d', j', res)"
  shows "d_nodes d' = d_nodes d \<and>
    (case res of
       Err e \<Rightarrow> d_now d' = d_now d \<and>
         (j' = j \<or> (\<exists>op e'. e = CoIo op e') \<or> (\<exists>w. e = CoSeal w))
     | Ok s \<Rightarrow> \<exists>i bs. d_now d part_path = Some i \<and> f_cache (d_nodes d i) = bs \<and> d_now d' final_path = Some i \<and>
         length bs = unat total_len \<and> (\<forall>b < total_len. byte_state m b = Some Complete) \<and>
         sf_final_blake3 s = dl_blake3 lib bs \<and>
         (\<exists>j1. dj_append J j \<lparr>fr_sequence = seq, fr_record = Sealed (dl_blake3 lib bs)\<rparr> = (j1, Ok ()) \<and>
               dj_sync_data J j1 = (j', Ok ())) \<and>
         (case digest of
            None \<Rightarrow> sf_digest_checked s = NotOffered
          | Some dg \<Rightarrow> (case decode_digest lib dg of
              None \<Rightarrow> \<exists>why. sf_digest_checked s = Unusable why
            | Some e \<Rightarrow> e = server_hash lib (cd_algorithm dg) bs \<and> sf_digest_checked s = Verified (cd_algorithm dg))))"
proof -
  obtain d1 r1 where o: "fs_open d part_path = (d1, r1)"
    by (cases "fs_open d part_path")
  note O = fs_open_result [OF o]
  obtain d2 r2 where h: "hash_file lib cuts d1 part_path digest = (d2, r2)"
    by (cases "hash_file lib cuts d1 part_path digest")
  note H = hash_file_Ok [OF h assms(2)]
  note un = assms(4) [unfolded verify_and_rename_def fs_metadata_len_def o prod.case]
  show ?thesis
  proof (cases "\<exists>i hd sd oc. r1 = Ok i \<and> of_nat (length (f_cache (d_nodes d1 i))) = total_len \<and>
      check_coverage m total_len = Ok () \<and> r2 = Ok (hd, sd) \<and> digest_verdict lib digest sd = Ok oc")
    case False
    then have "d' \<in> {d1, d2} \<and> j' = j \<and> (\<exists>e. res = Err e)"
      using un h by (auto split: sum.splits if_splits)
    then show ?thesis
      using O H by auto
  next
    case True
    then obtain i hd sd oc where i: "r1 = Ok i" and len: "of_nat (length (f_cache (d_nodes d1 i))) = total_len"
      and cov: "check_coverage m total_len = Ok ()" and r2: "r2 = Ok (hd, sd)" and v: "digest_verdict lib digest sd = Ok oc"
      by blast
    have s: "seal_and_rename J d2 j part_path final_path hd oc seq = (d', j', res)"
      using un h i len cov r2 v by simp
    note S = seal_and_rename_result [OF s]
    let ?bs = "f_cache (d_nodes d i)"
    have now: "d_now d part_path = Some i"
      using O(3) [OF i] .
    have hs: "hd = dl_blake3 lib ?bs" "sd = map_option (\<lambda>dg. server_hash lib (cd_algorithm dg) ?bs) digest"
      using H(3) [OF r2, of i] now O by simp_all
    have "length ?bs = unat total_len"
      using len assms(3) [OF now] O(1) by (metis unat_of_nat64)
    moreover have "\<forall>b < total_len. byte_state m b = Some Complete"
      using cov check_coverage_Ok [OF assms(1)] by blast
    ultimately show ?thesis
      using S hs O H now digest_verdict_Ok [of lib digest ?bs oc] v
      by (cases res) (auto split: option.splits)
  qed
qed

section \<open>Properties\<close>

text \<open>
  C3.  Nothing is named before it is verified.  If \<open>verify_and_rename\<close> succeeds, the file now under the
  final name has exactly the representation length, every byte of it is complete in the interval map, its
  BLAKE3 is in a seal that was appended and synchronised before the rename, and a decodable server digest
  equals the hash of its bytes.  If it fails, no name and no content changed, and a failed check left the
  journal alone too.
\<close>

theorem completion_names_verified:
  assumes "invariants_hold m" and "delivers cuts" and "\<forall>i. length (f_cache (d_nodes d i)) < 2 ^ 64"
    and "verify_and_rename lib cuts J d j part_path final_path total_len m digest seq = (d', j', res)"
  shows "d_nodes d' = d_nodes d \<and>
    (case res of
       Err e \<Rightarrow> d_now d' = d_now d \<and>
         (j' = j \<or> (\<exists>op e'. e = CoIo op e') \<or> (\<exists>w. e = CoSeal w))
     | Ok s \<Rightarrow> \<exists>i bs. d_now d part_path = Some i \<and> f_cache (d_nodes d i) = bs \<and> d_now d' final_path = Some i \<and>
         length bs = unat total_len \<and> (\<forall>b < total_len. byte_state m b = Some Complete) \<and>
         sf_final_blake3 s = dl_blake3 lib bs \<and>
         (\<exists>j1. dj_append J j \<lparr>fr_sequence = seq, fr_record = Sealed (dl_blake3 lib bs)\<rparr> = (j1, Ok ()) \<and>
               dj_sync_data J j1 = (j', Ok ())) \<and>
         (case digest of
            None \<Rightarrow> sf_digest_checked s = NotOffered
          | Some dg \<Rightarrow> (case decode_digest lib dg of
              None \<Rightarrow> \<exists>why. sf_digest_checked s = Unusable why
            | Some e \<Rightarrow> e = server_hash lib (cd_algorithm dg) bs \<and> sf_digest_checked s = Verified (cd_algorithm dg))))"
  by (rule verify_and_rename_facts [OF assms(1,2) _ assms(4)]) (rule assms(3) [rule_format])

definition demo_lib :: digest_lib where
  "demo_lib = \<lparr>dl_blake3 = demo_hash, dl_sha256 = demo_hash, dl_sha512 = (\<lambda>bs. []), dl_base64 = (\<lambda>_. None)\<rparr>"

text \<open>A two-byte download: the journal is a list of records and its syncs succeed.\<close>

definition demo_log :: "framed_record list durable_journal" where
  "demo_log = \<lparr>dj_total_length = (\<lambda>_. 2), dj_append = (\<lambda>j r. (j @ [r], Ok ())), dj_sync_data = (\<lambda>j. (j, Ok ()))\<rparr>"

definition demo_part_dir :: "fault list \<Rightarrow> directory" where
  "demo_part_dir faults = \<lparr>d_nodes = (\<lambda>_. \<lparr>f_cache = [5, 6], f_stable = [5, 6], f_faults = []\<rparr>),
     d_now = [''t.dppart'' \<mapsto> 0], d_disk = [''t.dppart'' \<mapsto> 0], d_next = 1, d_faults = faults\<rparr>"

definition full_map :: interval_map where
  "full_map = \<lparr>im_total_length = 2, im_intervals = [mk_interval 0 2 Complete]\<rparr>"

lemmas demo_defs = verify_and_rename_def fs_metadata_len_def fs_open_def dir_fault_def demo_part_dir_def
  check_coverage_def full_map_def iv_len_def saturating_add_def hash_file_def VERIFY_BUFFER_def
  digest_verdict_def seal_and_rename_def demo_log_def fs_rename_def demo_lib_def

theorem completion_names_verified_witness:
  "\<exists>d' j' s. verify_and_rename demo_lib (\<lambda>bs. if bs = [] then [] else [RdData bs]) demo_log (demo_part_dir []) []
       ''t.dppart'' ''t'' 2 full_map None 0 = (d', j', Ok s) \<and>
     d_now d' ''t'' = Some 0 \<and> length (f_cache (d_nodes d' 0)) = 2 \<and> sf_final_blake3 s = demo_hash [5, 6] \<and>
     byte_state full_map 1 = Some Complete"
proof -
  obtain d' j' s where v: "verify_and_rename demo_lib (\<lambda>bs. if bs = [] then [] else [RdData bs]) demo_log
      (demo_part_dir []) [] ''t.dppart'' ''t'' 2 full_map None 0 = (d', j', Ok s)"
    by (simp add: demo_defs)
  have h: "invariants_hold full_map" "delivers (\<lambda>bs. if bs = [] then [] else [RdData bs])"
    "\<forall>i. length (f_cache (d_nodes (demo_part_dir []) i)) < 2 ^ 64"
    by (simp_all add: invariants_hold_iff full_map_def delivers_def demo_part_dir_def)
  have "d_now (demo_part_dir []) ''t.dppart'' = Some 0" "f_cache (d_nodes (demo_part_dir []) 0) = [5, 6]"
    "dl_blake3 demo_lib = demo_hash"
    by (simp_all add: demo_part_dir_def demo_lib_def)
  with completion_names_verified [OF h v] v show ?thesis
    by auto
qed

text \<open>
  The documentation of \<open>verify_and_rename\<close> says that any failed check leaves the journal as it was found.  A
  failed rename comes after the seal: the journal then holds one more record, under the same sequence
  number a second attempt would use.
\<close>

lemma failed_rename_leaves_seal:
  "verify_and_rename demo_lib (\<lambda>bs. if bs = [] then [] else [RdData bs]) demo_log
     (demo_part_dir [NoFault, NoFault, Fault 0 (io_new IoOther)]) [] ''t.dppart'' ''t'' 2 full_map None 0 =
   (demo_part_dir [], [\<lparr>fr_sequence = 0, fr_record = Sealed (demo_hash [5, 6])\<rparr>],
    Err (CoIo ''rename the verified part file to its final name'' (io_new IoOther)))"
  by (simp add: demo_defs)

end
