(* ===== verification/StorageSink.thy ===== *)
theory StorageSink
  imports RangeSink WriterService Completion
begin

text \<open>
  The bridge from fetched bytes to durable storage, \<open>downpour-engine/src/storage_sink.rs\<close>: the only
  \<open>SinkTarget\<close> of the engine.  A download whose length is known is a \<open>DurableWriter\<close> over a part file and a
  recovery journal with an interval map; one without a length is a growable part file.

  The state carries the directory the files live in.  An open part file is ahead of its node, so
  \<open>attach\<close> puts the handle's content in the node before an operation works on names.  Each call to
  \<open>Instant::elapsed\<close> takes the next entry of \<open>ss_clock\<close>.  \<open>spawn_blocking\<close> runs its closure: a panic
  inside it is not modelled, the \<open>None\<close> it would leave behind is.
\<close>

text \<open>\<open>Result::map\<close>.\<close>

abbreviation map_ok :: "('a \<Rightarrow> 'b) \<Rightarrow> 'e + 'a \<Rightarrow> 'e + 'b" where
  "map_ok f \<equiv> map_sum (\<lambda>e. e) f"

section \<open>Names\<close>

text \<open>\<open>OpenOptions::create_new\<close>, \<open>fs::remove_file\<close> and \<open>Path::join\<close> with a relative name.\<close>

definition fs_create_new :: "directory \<Rightarrow> path \<Rightarrow> directory \<times> (io_error + nat)" where
  "fs_create_new d p =
     (case dir_fault d of
        (Fault _ e, d1) \<Rightarrow> (d1, Err e)
      | (NoFault, d1) \<Rightarrow>
          (case d_now d1 p of
             Some _ \<Rightarrow> (d1, Err (io_new IoAlreadyExists))
           | None \<Rightarrow>
               (let i = d_next d1 in
                ((fs_put d1 i ((d_nodes d1 i)\<lparr>f_cache := [], f_stable := []\<rparr>))
                   \<lparr>d_now := (d_now d1)(p \<mapsto> i), d_next := Suc i\<rparr>, Ok i))))"

definition fs_remove_file :: "directory \<Rightarrow> path \<Rightarrow> directory \<times> (io_error + unit)" where
  "fs_remove_file d p =
     (case dir_fault d of
        (Fault _ e, d1) \<Rightarrow> (d1, Err e)
      | (NoFault, d1) \<Rightarrow>
          if d_now d1 p = None then (d1, Err (io_new IoNotFound)) else (d1\<lparr>d_now := (d_now d1)(p := None)\<rparr>, Ok ()))"

definition path_join :: "path \<Rightarrow> string \<Rightarrow> path" where
  "path_join dir name = (if dir = [] \<or> last dir = CHR ''/'' then dir @ name else dir @ ''/'' @ name)"

section \<open>Data\<close>

definition SINGLE_STREAM_WORKER :: worker_id where
  "SINGLE_STREAM_WORKER = WorkerId 1"

record artifacts =
  af_part_path :: path
  af_journal_path :: "path option"

datatype backing =
    Journalled "(part_file, journal_file) durable_writer" interval_map
  | Lengthless part_file

fun backing_part :: "backing \<Rightarrow> part_file" where
  "backing_part (Journalled w m) = dw_data w"
| "backing_part (Lengthless part) = part"

record storage_sink =
  ss_backing :: "backing option"
  ss_clock :: "nat list"
  ss_artifacts :: artifacts
  ss_digest :: "content_digest option"
  ss_dir :: directory
  ss_node :: nat

text \<open>The platform, the checksums and hashes, the read boundaries and the allocation calls.\<close>

record sink_env =
  se_platform :: platform
  se_crc :: "bytes \<Rightarrow> u32"
  se_lib :: digest_lib
  se_cuts :: "bytes \<Rightarrow> reader"
  se_alloc :: linux_alloc

section \<open>Errors\<close>

text \<open>\<open>io::Error::other\<close> of a text keeps no operating-system code.\<close>

definition other_io :: "u64 \<Rightarrow> sink_error" where
  "other_io offset = SinkIo offset (io_new IoOther)"

definition classify_io :: "platform \<Rightarrow> u64 \<Rightarrow> io_error \<Rightarrow> sink_error" where
  "classify_io plat offset e =
     (case raw_os_error e of
        Some raw \<Rightarrow>
          if (raw = 28 \<and> plat = Unix) \<or> ((raw = 39 \<or> raw = 112) \<and> plat = Windows) then NoSpace offset
          else SinkIo offset e
      | None \<Rightarrow> SinkIo offset e)"

fun part_error :: "platform \<Rightarrow> u64 \<Rightarrow> part_file_error \<Rightarrow> sink_error" where
  "part_error plat offset (PartIo op p e) = classify_io plat offset e"
| "part_error plat offset (OutOfBounds start len extent) = BeyondGrant extent start len"
| "part_error plat offset _ = other_io offset"

fun sink_writer_error :: "platform \<Rightarrow> u64 \<Rightarrow> writer_error \<Rightarrow> sink_error" where
  "sink_writer_error plat offset (WePartFile e) = part_error plat offset e"
| "sink_writer_error plat offset (WeIo op e) = classify_io plat offset e"
| "sink_writer_error plat offset _ = other_io offset"

definition sink_completion_error :: "completion_error \<Rightarrow> sink_error" where
  "sink_completion_error e = other_io 0"

section \<open>The backing\<close>

abbreviation env_journal :: "sink_env \<Rightarrow> journal_file durable_journal" where
  "env_journal env \<equiv> journal_file_journal (se_crc env)"

definition backing_write :: "sink_env \<Rightarrow> backing \<Rightarrow> u64 \<Rightarrow> bytes \<Rightarrow> nat \<Rightarrow> backing \<times> (sink_error + unit)" where
  "backing_write env b offset bs now =
     (case b of
        Journalled w m \<Rightarrow>
          (let (w1, m1, r) = dw_stage (se_platform env) (dl_blake3 (se_lib env)) part_file_data (env_journal env)
                               w m SINGLE_STREAM_WORKER offset bs now
           in (Journalled w1 m1, case r of Err e \<Rightarrow> Err (sink_writer_error (se_platform env) offset e) | Ok _ \<Rightarrow> Ok ()))
      | Lengthless part \<Rightarrow>
          (case try_from_nat (length bs) :: u64 option of
             None \<Rightarrow> (b, Err LengthOverflow)
           | Some len \<Rightarrow>
               (case checked_add offset len of
                  None \<Rightarrow> (b, Err LengthOverflow)
                | Some end' \<Rightarrow>
                    (case pf_extend_to part end' of
                       (part1, Err e) \<Rightarrow> (Lengthless part1, Err (part_error (se_platform env) offset e))
                     | (part1, Ok _) \<Rightarrow>
                         (case pf_write_all_at part1 offset bs of
                            (part2, Err e) \<Rightarrow> (Lengthless part2, Err (part_error (se_platform env) offset e))
                          | (part2, Ok _) \<Rightarrow> (Lengthless part2, Ok ()))))))"

definition backing_sync :: "sink_env \<Rightarrow> backing \<Rightarrow> backing \<times> (sink_error + unit)" where
  "backing_sync env b =
     (case b of
        Journalled w m \<Rightarrow>
          (let (w1, m1, r) = dw_flush part_file_data (env_journal env) w m
           in (Journalled w1 m1, case r of Err e \<Rightarrow> Err (sink_writer_error (se_platform env) 0 e) | Ok _ \<Rightarrow> Ok ()))
      | Lengthless part \<Rightarrow>
          (case pf_sync_data part of
             (part1, Err e) \<Rightarrow> (Lengthless part1, Err (part_error (se_platform env) 0 e))
           | (part1, Ok _) \<Rightarrow> (Lengthless part1, Ok ())))"

definition backing_complete ::
    "sink_env \<Rightarrow> directory \<Rightarrow> backing \<Rightarrow> path \<Rightarrow> path \<Rightarrow> content_digest option \<Rightarrow>
     directory \<times> backing \<times> (sink_error + sealed_file option)" where
  "backing_complete env d b part_path final_path digest =
     (case b of
        Journalled w m \<Rightarrow>
          if has_staged_work w then (d, b, Err (other_io 0))
          else
            (case verify_and_rename (se_lib env) (se_cuts env) (env_journal env) d (dw_journal w) part_path final_path
                    (im_total_length m) m digest (dw_next_sequence w) of
               (d1, j1, Err e) \<Rightarrow> (d1, Journalled (w\<lparr>dw_journal := j1\<rparr>) m, Err (sink_completion_error e))
             | (d1, j1, Ok sealed) \<Rightarrow> (d1, Journalled (w\<lparr>dw_journal := j1\<rparr>) m, Ok (Some sealed)))
      | Lengthless part \<Rightarrow>
          (case fs_rename d part_path final_path of
             (d1, Err e) \<Rightarrow> (d1, b, Err (SinkIo 0 e))
           | (d1, Ok _) \<Rightarrow> (d1, b, Ok None)))"

section \<open>Creation\<close>

definition hex_digit :: "nat \<Rightarrow> char" where
  "hex_digit n = ''0123456789abcdef'' ! n"

definition hex_byte :: "u8 \<Rightarrow> string" where
  "hex_byte b = [hex_digit (unat b div 16), hex_digit (unat b mod 16)]"

definition journal_path_for :: "path \<Rightarrow> bytes \<Rightarrow> path" where
  "journal_path_for journal_dir transfer_id = path_join journal_dir (concat (map hex_byte transfer_id) @ ''.dpj'')"

text \<open>
  \<open>PartFile::create\<close> and \<open>create_growable\<close> in the directory: the node is created when the length and the
  name are acceptable, and holds what preparation left in it.
\<close>

definition create_part ::
    "sink_env \<Rightarrow> directory \<Rightarrow> path \<Rightarrow> u64 \<Rightarrow> directory \<times> (part_file_error + (part_file \<times> nat))" where
  "create_part env d target n =
     (case part_path_for target of
        Err e \<Rightarrow> (d, map_ok (\<lambda>part. (part, 0)) (pf_create (se_alloc env) (\<lambda>_. Err (io_new IoOther)) target n))
      | Ok p \<Rightarrow>
          if unat n > i64_max
          then (d, map_ok (\<lambda>part. (part, 0)) (pf_create (se_alloc env) (\<lambda>_. Err (io_new IoOther)) target n))
          else
            (case fs_create_new d p of
               (d1, Err e) \<Rightarrow> (d1, map_ok (\<lambda>part. (part, 0)) (pf_create (se_alloc env) (\<lambda>_. Err e) target n))
             | (d1, Ok i) \<Rightarrow>
                 (fs_put d1 i (fst (prepare (se_alloc env) (d_nodes d1 i) n)),
                  map_ok (\<lambda>part. (part, i)) (pf_create (se_alloc env) (\<lambda>_. Ok (d_nodes d1 i)) target n))))"

definition create_growable_part :: "directory \<Rightarrow> path \<Rightarrow> directory \<times> (part_file_error + (part_file \<times> nat))" where
  "create_growable_part d target =
     (case part_path_for target of
        Err e \<Rightarrow> (d, Err e)
      | Ok p \<Rightarrow>
          (case fs_create_new d p of
             (d1, Err e) \<Rightarrow> (d1, map_ok (\<lambda>part. (part, 0)) (pf_create_growable (\<lambda>_. Err e) target))
           | (d1, Ok i) \<Rightarrow> (d1, map_ok (\<lambda>part. (part, i)) (pf_create_growable (\<lambda>_. Ok (d_nodes d1 i)) target))))"

text \<open>\<open>JournalFile::create\<close> in the directory, whose node holds what was written before a failure.\<close>

definition create_journal ::
    "sink_env \<Rightarrow> directory \<Rightarrow> path \<Rightarrow> file_header \<Rightarrow> directory \<times> (writer_error + journal_file)" where
  "create_journal env d p header =
     (case fs_create_new d p of
        (d1, Err e) \<Rightarrow> (d1, jf_create (se_crc env) (\<lambda>_. Err e) (\<lambda>_. Ok ()) p header)
      | (d1, Ok i) \<Rightarrow>
          (case file_append (d_nodes d1 i) (encode_header (se_crc env) header) of
             (f1, Err _) \<Rightarrow> (fs_put d1 i f1, jf_create (se_crc env) (\<lambda>_. Ok (d_nodes d1 i)) (\<lambda>_. Ok ()) p header)
           | (f1, Ok _) \<Rightarrow>
               (case file_sync f1 of
                  (f2, Err _) \<Rightarrow> (fs_put d1 i f2, jf_create (se_crc env) (\<lambda>_. Ok (d_nodes d1 i)) (\<lambda>_. Ok ()) p header)
                | (f2, Ok _) \<Rightarrow>
                    (let (d3, synced) = sync_parent (se_platform env) p (fs_put d1 i f2)
                     in (d3, jf_create (se_crc env) (\<lambda>_. Ok (d_nodes d1 i)) (\<lambda>_. synced) p header)))))"

text \<open>A journal already at the path has no part file any more, which has just been created exclusively.\<close>

definition create_or_replace_journal ::
    "sink_env \<Rightarrow> directory \<Rightarrow> path \<Rightarrow> file_header \<Rightarrow> directory \<times> (sink_error + journal_file)" where
  "create_or_replace_journal env d p header =
     (case create_journal env d p header of
        (d1, Ok journal) \<Rightarrow> (d1, Ok journal)
      | (d1, Err (WeJournalAlreadyExists _)) \<Rightarrow>
          (case fs_remove_file d1 p of
             (d2, Err e) \<Rightarrow> (d2, Err (SinkIo 0 e))
           | (d2, Ok _) \<Rightarrow>
               (case create_journal env d2 p header of
                  (d3, Err e) \<Rightarrow> (d3, Err (sink_writer_error (se_platform env) 0 e))
                | (d3, Ok journal) \<Rightarrow> (d3, Ok journal)))
      | (d1, Err e) \<Rightarrow> (d1, Err (sink_writer_error (se_platform env) 0 e)))"

definition grant_whole :: "u64 \<Rightarrow> sink_error + interval_map" where
  "grant_whole total_length =
     (if total_length > 0
      then (case grant (im_new total_length) (0, total_length) SINGLE_STREAM_WORKER of
              (m, Err e) \<Rightarrow> Err (other_io 0)
            | (m, Ok _) \<Rightarrow> Ok m)
      else Ok (im_new total_length))"

definition open_writer ::
    "sink_env \<Rightarrow> part_file \<Rightarrow> journal_file \<Rightarrow> u64 \<Rightarrow> sink_error + backing" where
  "open_writer env part journal total_length =
     (case dw_try_new part_file_data (env_journal env) part journal 0 of
        Err e \<Rightarrow> Err (sink_writer_error (se_platform env) 0 e)
      | Ok w \<Rightarrow> map_ok (Journalled w) (grant_whole total_length))"

definition ss_create ::
    "sink_env \<Rightarrow> directory \<Rightarrow> nat list \<Rightarrow> path \<Rightarrow> path \<Rightarrow> u64 option \<Rightarrow> bytes \<Rightarrow> bytes \<Rightarrow> content_digest option \<Rightarrow>
     directory \<times> (sink_error + storage_sink)" where
  "ss_create env d clock target journal_dir total_length transfer_id validator_hash digest =
     (case total_length of
        Some n \<Rightarrow>
          (case create_part env d target n of
             (d1, Err e) \<Rightarrow> (d1, Err (part_error (se_platform env) 0 e))
           | (d1, Ok (part, node)) \<Rightarrow>
               (let p = journal_path_for journal_dir transfer_id;
                    header = \<lparr>fh_transfer_id = transfer_id, fh_total_length = n, fh_block_size = 0,
                              fh_validator_hash = validator_hash\<rparr>
                in case create_or_replace_journal env d1 p header of
                     (d2, Err e) \<Rightarrow> (d2, Err e)
                   | (d2, Ok journal) \<Rightarrow>
                       (d2, map_ok (\<lambda>b. \<lparr>ss_backing = Some b, ss_clock = clock,
                              ss_artifacts = \<lparr>af_part_path = pf_path part, af_journal_path = Some p\<rparr>,
                              ss_digest = digest, ss_dir = d2, ss_node = node\<rparr>)
                            (open_writer env part journal n))))
      | None \<Rightarrow>
          (case create_growable_part d target of
             (d1, Err e) \<Rightarrow> (d1, Err (part_error (se_platform env) 0 e))
           | (d1, Ok (part, node)) \<Rightarrow>
               (d1, Ok \<lparr>ss_backing = Some (Lengthless part), ss_clock = clock,
                        ss_artifacts = \<lparr>af_part_path = pf_path part, af_journal_path = None\<rparr>,
                        ss_digest = digest, ss_dir = d1, ss_node = node\<rparr>)))"

section \<open>The target\<close>

definition on_writer ::
    "storage_sink \<Rightarrow> (backing \<Rightarrow> backing \<times> (sink_error + unit)) \<Rightarrow> storage_sink \<times> (sink_error + unit)" where
  "on_writer ss operation =
     (case ss_backing ss of
        None \<Rightarrow> (ss, Err (other_io 0))
      | Some b \<Rightarrow> (let (b1, r) = operation b in (ss\<lparr>ss_backing := Some b1\<rparr>, r)))"

definition elapsed :: "storage_sink \<Rightarrow> nat \<times> storage_sink" where
  "elapsed ss = (case ss_clock ss of [] \<Rightarrow> (0, ss) | t # ts \<Rightarrow> (t, ss\<lparr>ss_clock := ts\<rparr>))"

definition ss_write_at :: "sink_env \<Rightarrow> storage_sink \<Rightarrow> u64 \<Rightarrow> bytes \<Rightarrow> storage_sink \<times> (sink_error + unit)" where
  "ss_write_at env ss offset bs =
     (let (now, ss1) = elapsed ss in on_writer ss1 (\<lambda>b. backing_write env b offset bs now))"

definition ss_sync :: "sink_env \<Rightarrow> storage_sink \<Rightarrow> storage_sink \<times> (sink_error + unit)" where
  "ss_sync env ss = on_writer ss (backing_sync env)"

definition ss_durable_prefix_end :: "storage_sink \<Rightarrow> u64" where
  "ss_durable_prefix_end ss =
     (case ss_backing ss of
        Some (Journalled w m) \<Rightarrow>
          (case find (\<lambda>i. iv_state i \<noteq> Complete) (im_intervals m) of
             None \<Rightarrow> im_total_length m
           | Some i \<Rightarrow> iv_start i)
      | _ \<Rightarrow> 0)"

definition attach :: "storage_sink \<Rightarrow> backing \<Rightarrow> directory" where
  "attach ss b = fs_put (ss_dir ss) (ss_node ss) (pf_file (backing_part b))"

definition ss_complete :: "sink_env \<Rightarrow> storage_sink \<Rightarrow> path \<Rightarrow> storage_sink \<times> (sink_error + sealed_file option)" where
  "ss_complete env ss final_path =
     (case ss_backing ss of
        None \<Rightarrow> (ss, Err (other_io 0))
      | Some b \<Rightarrow>
          (case backing_complete env (attach ss b) b (af_part_path (ss_artifacts ss)) final_path (ss_digest ss) of
             (d1, b1, Err e) \<Rightarrow> (ss\<lparr>ss_backing := Some b1, ss_dir := d1\<rparr>, Err e)
           | (d1, b1, Ok sealed) \<Rightarrow>
               (case af_journal_path (ss_artifacts ss) of
                  None \<Rightarrow> (ss\<lparr>ss_backing := Some b1, ss_dir := d1\<rparr>, Ok sealed)
                | Some journal \<Rightarrow>
                    (ss\<lparr>ss_backing := Some b1, ss_dir := fst (fs_remove_file d1 journal),
                        ss_artifacts := (ss_artifacts ss)\<lparr>af_journal_path := None\<rparr>\<rparr>, Ok sealed))))"

definition ss_verify_and_rename :: "sink_env \<Rightarrow> storage_sink \<Rightarrow> path \<Rightarrow> storage_sink \<times> (sink_error + unit)" where
  "ss_verify_and_rename env ss final_path = map_prod id (map_ok (\<lambda>_. ())) (ss_complete env ss final_path)"

definition storage_target :: "sink_env \<Rightarrow> storage_sink sink_target" where
  "storage_target env =
     \<lparr>tg_write_at = ss_write_at env, tg_verify_and_rename = ss_verify_and_rename env,
      tg_durable_prefix_end = ss_durable_prefix_end, tg_sync = ss_sync env\<rparr>"

section \<open>The part file as seen through the sink\<close>

definition byte_at :: "bytes \<Rightarrow> nat \<Rightarrow> u8" where
  "byte_at bs i = (if i < length bs then bs ! i else 0)"

lemma byte_at_overwrite:
  "off + length bs \<le> length old \<Longrightarrow> byte_at (overwrite old off bs) = patched (byte_at old) off bs"
  by (auto simp: fun_eq_iff byte_at_def patched_def length_overwrite nth_overwrite)

lemma byte_at_zeros [simp]: "byte_at (bs @ replicate n 0) = byte_at bs"
  by (auto simp: fun_eq_iff byte_at_def nth_append)

abbreviation shown :: "part_file \<Rightarrow> nat \<Rightarrow> u8" where
  "shown part \<equiv> byte_at (f_cache (pf_file part))"

lemma pf_write_patch:
  assumes wf: "pf_wf pf" and w: "pf_write_all_at pf off bs = (pf', res)"
  shows "\<exists>n. shown pf' = patched (shown pf) (unat off) (take n bs) \<and> unat off + length (take n bs) < 2 ^ 64"
    and "res = Ok () \<Longrightarrow> shown pf' = patched (shown pf) (unat off) bs \<and> unat off + length bs < 2 ^ 64"
    and "length (f_cache (pf_file pf')) = length (f_cache (pf_file pf))" and "pf_total_length pf' = pf_total_length pf"
proof -
  have "pf' = pf \<and> (\<exists>e. res = Err e) \<or>
    (\<exists>f1 r1. unat off + length bs \<le> unat (pf_total_length pf) \<and> file_write_at (pf_file pf) (unat off) bs = (f1, r1) \<and>
      pf' = pf\<lparr>pf_file := f1\<rparr> \<and> (res = Ok () \<longleftrightarrow> r1 = Ok ()))"
    using w by (auto simp: pf_write_all_at_def checked_add_Some try_from_nat_Some word_le_nat_alt
        split: option.splits if_splits prod.splits sum.splits)
  then consider "pf' = pf" "\<exists>e. res = Err e"
    | f1 r1 where "unat off + length bs \<le> unat (pf_total_length pf)" "file_write_at (pf_file pf) (unat off) bs = (f1, r1)"
      "pf' = pf\<lparr>pf_file := f1\<rparr>" "res = Ok () \<longleftrightarrow> r1 = Ok ()"
    by blast
  then have "(\<exists>n. shown pf' = patched (shown pf) (unat off) (take n bs) \<and> unat off + length (take n bs) < 2 ^ 64) \<and>
    (res = Ok () \<longrightarrow> shown pf' = patched (shown pf) (unat off) bs \<and> unat off + length bs < 2 ^ 64) \<and>
    length (f_cache (pf_file pf')) = length (f_cache (pf_file pf)) \<and> pf_total_length pf' = pf_total_length pf"
  proof cases
    case 1
    then show ?thesis
      using unat_lt_2p [of off] by (auto intro!: exI [of _ 0])
  next
    case (2 f1 r1)
    obtain n where n: "f_cache f1 = overwrite (f_cache (pf_file pf)) (unat off) (take n bs)"
      using file_write_at_result(3) [OF 2(2)] by blast
    have room: "unat off + length bs \<le> length (f_cache (pf_file pf))" "unat off + length bs < 2 ^ 64"
      using 2(1) wf unat_lt_2p [of "pf_total_length pf"] by (auto simp: pf_wf_def)
    then show ?thesis
      using 2 n file_write_at_result(2) [OF 2(2), of "()"]
      by (auto simp: byte_at_overwrite length_overwrite intro!: exI [of _ n])
  qed
  then show "\<exists>n. shown pf' = patched (shown pf) (unat off) (take n bs) \<and> unat off + length (take n bs) < 2 ^ 64"
    and "res = Ok () \<Longrightarrow> shown pf' = patched (shown pf) (unat off) bs \<and> unat off + length bs < 2 ^ 64"
    and "length (f_cache (pf_file pf')) = length (f_cache (pf_file pf))" and "pf_total_length pf' = pf_total_length pf"
    by blast+
qed

lemma pf_sync_keeps:
  "pf_sync_data pf = (pf', res) \<Longrightarrow> f_cache (pf_file pf') = f_cache (pf_file pf) \<and> pf_total_length pf' = pf_total_length pf"
  by (auto simp: pf_sync_data_def dest: file_sync_result split: prod.splits sum.splits)

text \<open>Growing shows zeros only, which is what lies past the end of a file anyway.\<close>

lemma pf_extend_keeps:
  assumes "pf_extend_to pf n = (pf', res)" and "length (f_cache (pf_file pf)) = unat (pf_total_length pf)"
  shows "shown pf' = shown pf" "length (f_cache (pf_file pf')) = unat (pf_total_length pf')"
    "res = Ok () \<Longrightarrow> pf_total_length pf' = n"
  using assms
  by (auto simp: pf_extend_to_def file_set_len_def word_less_nat_alt not_less dest!: next_fault_content
      split: if_splits prod.splits sum.splits fault.splits)

fun backing_ok :: "backing \<Rightarrow> bool" where
  "backing_ok (Journalled w m) = pf_wf (dw_data w)"
| "backing_ok (Lengthless part) = (length (f_cache (pf_file part)) = unat (pf_total_length part))"

lemma stage_written:
  assumes "dw_stage plat blake3 D J w m v off bs now = (w', m', Ok ds)"
  shows "snd (dd_write_all_at D (dw_data w) off bs) = Ok () \<and>
    (dw_data w' = fst (dd_write_all_at D (dw_data w) off bs) \<or>
     (\<exists>w1. dw_data w1 = fst (dd_write_all_at D (dw_data w) off bs) \<and> dw_data w' = dw_data (fst (dw_flush D J w1 m))))"
proof -
  obtain d' r where wr: "dd_write_all_at D (dw_data w) off bs = (d', r)"
    by (cases "dd_write_all_at D (dw_data w) off bs")
  have push: "dw_data (fst (push_staged D J (w\<lparr>dw_data := d'\<rparr>) m b n now)) = d' \<or>
    (\<exists>w1. dw_data w1 = d' \<and> dw_data (fst (push_staged D J (w\<lparr>dw_data := d'\<rparr>) m b n now)) =
       dw_data (fst (dw_flush D J w1 m)))" for b n
    unfolding push_staged_def Let_def by (auto intro!: exI)
  have "r = Ok () \<and> (\<exists>b n. push_staged D J (w\<lparr>dw_data := d'\<rparr>) m b n now = (w', m', Ok ds))"
    using assms unfolding dw_stage_def wr
    by (auto simp: split_beta Let_def split: sum.splits option.splits if_splits)
  then show ?thesis
    using push wr by (metis fst_conv snd_conv)
qed

lemma flush_data:
  assumes "dd_sync_data D (dw_data w) = (d', r)"
  shows "dw_data (fst (dw_flush D J w m)) \<in> {dw_data w, d'}"
  unfolding dw_flush_def assms by (auto split: sum.splits prod.splits option.splits if_splits)

lemma part_flush_cache:
  assumes "pf_wf (dw_data w)"
  shows "f_cache (pf_file (dw_data (fst (dw_flush part_file_data (journal_file_journal crc) w m)))) = f_cache (pf_file (dw_data w))"
    and "pf_total_length (dw_data (fst (dw_flush part_file_data (journal_file_journal crc) w m))) = pf_total_length (dw_data w)"
proof -
  obtain d' r where s: "dd_sync_data part_file_data (dw_data w) = (d', r)"
    by (cases "dd_sync_data part_file_data (dw_data w)")
  note flush_data [OF s, of "journal_file_journal crc" m]
  then show "f_cache (pf_file (dw_data (fst (dw_flush part_file_data (journal_file_journal crc) w m)))) = f_cache (pf_file (dw_data w))"
    and "pf_total_length (dw_data (fst (dw_flush part_file_data (journal_file_journal crc) w m))) = pf_total_length (dw_data w)"
    using pf_sync_law [OF assms s] by auto
qed

lemma part_file_data_write:
  "dd_write_all_at part_file_data pf off bs = (pf', r) \<Longrightarrow> \<exists>res. pf_write_all_at pf off bs = (pf', res) \<and> (r = Ok () \<longleftrightarrow> res = Ok ())"
  by (auto simp: part_file_data_def split: prod.splits sum.splits)

lemma stage_patch:
  assumes wf: "pf_wf (dw_data w)"
    and st: "dw_stage plat blake3 part_file_data (journal_file_journal crc) w m v off bs now = (w', m', res)"
  shows "\<exists>n. shown (dw_data w') = patched (shown (dw_data w)) (unat off) (take n bs) \<and> unat off + length (take n bs) < 2 ^ 64"
    and "res = Ok ds \<Longrightarrow> shown (dw_data w') = patched (shown (dw_data w)) (unat off) bs \<and> unat off + length bs < 2 ^ 64"
    and "pf_wf (dw_data w')" and "length (f_cache (pf_file (dw_data w'))) = length (f_cache (pf_file (dw_data w)))"
proof -
  obtain d1 r1 where d1: "dd_write_all_at part_file_data (dw_data w) off bs = (d1, r1)"
    by (cases "dd_write_all_at part_file_data (dw_data w) off bs")
  obtain res1 where w1: "pf_write_all_at (dw_data w) off bs = (d1, res1)" "r1 = Ok () \<longleftrightarrow> res1 = Ok ()"
    using part_file_data_write [OF d1] by blast
  note P = pf_write_patch [OF wf w1(1)]
  have wf1: "pf_wf d1"
    using P(3,4) wf by (simp add: pf_wf_def)
  have after: "f_cache (pf_file (dw_data w')) = f_cache (pf_file d1) \<and> pf_total_length (dw_data w') = pf_total_length d1"
    if "dw_data w' = d1 \<or> (\<exists>w1. dw_data w1 = d1 \<and> dw_data w' = dw_data (fst (dw_flush part_file_data (journal_file_journal crc) w1 m)))"
    using that part_flush_cache [of _ crc m] wf1 by metis
  have cases: "dw_data w' = dw_data w \<or> f_cache (pf_file (dw_data w')) = f_cache (pf_file d1) \<and>
      pf_total_length (dw_data w') = pf_total_length d1"
    using stage_data [OF st] after unfolding d1 fst_conv by metis
  then show "\<exists>n. shown (dw_data w') = patched (shown (dw_data w)) (unat off) (take n bs) \<and> unat off + length (take n bs) < 2 ^ 64"
  proof
    assume "dw_data w' = dw_data w"
    then show ?thesis
      using unat_lt_2p [of off] by (intro exI [of _ 0]) simp
  qed (use P(1) in simp)
  show "pf_wf (dw_data w')"
    using cases wf wf1 unfolding pf_wf_def by metis
  show "length (f_cache (pf_file (dw_data w'))) = length (f_cache (pf_file (dw_data w)))"
    using cases P(3) by metis
  show "shown (dw_data w') = patched (shown (dw_data w)) (unat off) bs \<and> unat off + length bs < 2 ^ 64" if "res = Ok ds"
  proof -
    note W = stage_written [OF st [unfolded that]]
    have "f_cache (pf_file (dw_data w')) = f_cache (pf_file d1)"
      using after [OF W [THEN conjunct2, unfolded d1 fst_conv]] by blast
    moreover have "res1 = Ok ()"
      using W w1(2) unfolding d1 by simp
    ultimately show ?thesis
      using P(2) by simp
  qed
qed

definition ss_visible :: "storage_sink \<Rightarrow> nat \<Rightarrow> u8" where
  "ss_visible ss = (case ss_backing ss of None \<Rightarrow> (\<lambda>_. 0) | Some b \<Rightarrow> shown (backing_part b))"

definition ss_ok :: "storage_sink \<Rightarrow> bool" where
  "ss_ok ss = (case ss_backing ss of None \<Rightarrow> True | Some b \<Rightarrow> backing_ok b)"

lemma elapsed_keeps [simp]:
  "ss_backing (snd (elapsed ss)) = ss_backing ss" "ss_artifacts (snd (elapsed ss)) = ss_artifacts ss"
  "ss_dir (snd (elapsed ss)) = ss_dir ss" "ss_node (snd (elapsed ss)) = ss_node ss" "ss_digest (snd (elapsed ss)) = ss_digest ss"
  by (simp_all add: elapsed_def split: list.split)

lemma backing_write_patch:
  assumes ok: "backing_ok b" and w: "backing_write env b off bs now = (b', res)"
  shows "backing_ok b'"
    and "\<exists>n. shown (backing_part b') = patched (shown (backing_part b)) (unat off) (take n bs) \<and> unat off + length (take n bs) < 2 ^ 64"
    and "res = Ok () \<Longrightarrow> shown (backing_part b') = patched (shown (backing_part b)) (unat off) bs \<and> unat off + length bs < 2 ^ 64"
proof -
  have "backing_ok b' \<and> (\<exists>n. shown (backing_part b') = patched (shown (backing_part b)) (unat off) (take n bs) \<and> unat off + length (take n bs) < 2 ^ 64) \<and>
    (res = Ok () \<longrightarrow> shown (backing_part b') = patched (shown (backing_part b)) (unat off) bs \<and> unat off + length bs < 2 ^ 64)"
  proof (cases b)
    case (Journalled w m)
    obtain w1 m1 r where st: "dw_stage (se_platform env) (dl_blake3 (se_lib env)) part_file_data (env_journal env)
        w m SINGLE_STREAM_WORKER off bs now = (w1, m1, r)"
      by (metis prod.exhaust)
    have wf: "pf_wf (dw_data w)"
      using ok Journalled by simp
    have b': "b' = Journalled w1 m1" and r: "res = Ok () \<Longrightarrow> \<exists>ds. r = Ok ds"
      using assms(2) Journalled st by (auto simp: backing_write_def split: sum.splits)
    show ?thesis
      using stage_patch [OF wf st] r by (auto simp: b' Journalled)
  next
    case (Lengthless part)
    have zero: ?thesis if "shown (backing_part b') = shown part" "backing_ok b'" "\<exists>e. res = Err e"
      using that Lengthless unat_lt_2p [of off] by (auto intro!: exI [of _ 0])
    show ?thesis
    proof (cases "\<exists>end'. unat end' = unat off + length bs \<and> snd (pf_extend_to part end') = Ok ()")
      case False
      then have "(b' = b \<or> (\<exists>end' part1 e. pf_extend_to part end' = (part1, Err e) \<and> b' = Lengthless part1)) \<and> (\<exists>e. res = Err e)"
        using w Lengthless by (fastforce simp: backing_write_def checked_add_Some try_from_nat_Some
            split: option.splits prod.splits sum.splits)
      then have "shown (backing_part b') = shown part \<and> backing_ok b' \<and> (\<exists>e. res = Err e)"
        using ok Lengthless by (auto dest: pf_extend_keeps(1,2))
      then show ?thesis
        using zero by blast
    next
      case True
      then obtain end' part1 where e: "unat end' = unat off + length bs" "pf_extend_to part end' = (part1, Ok ())"
        by (metis prod.collapse)
      note E = pf_extend_keeps [OF e(2)]
      have l: "length (f_cache (pf_file part)) = unat (pf_total_length part)"
        using ok Lengthless by simp
      obtain part2 r2 where p2: "pf_write_all_at part1 off bs = (part2, r2)"
        by (cases "pf_write_all_at part1 off bs")
      have g: "try_from_nat (length bs) = Some (of_nat (length bs) :: u64)" "checked_add off (of_nat (length bs)) = Some end'"
        using e(1) unat_lt_2p [of end'] by (auto simp: try_from_nat_def checked_add_Some unat_of_nat)
      have b': "b' = Lengthless part2" "res = Ok () \<longleftrightarrow> r2 = Ok ()"
        using w Lengthless e(2) p2 g by (auto simp: backing_write_def split: sum.splits)
      have "pf_wf part1"
        using E(2) [OF l] by (simp add: pf_wf_def)
      from pf_write_patch [OF this p2] show ?thesis
        using E(1,2) [OF l] b' Lengthless by auto
    qed
  qed
  then show "backing_ok b'"
    and "\<exists>n. shown (backing_part b') = patched (shown (backing_part b)) (unat off) (take n bs) \<and> unat off + length (take n bs) < 2 ^ 64"
    and "res = Ok () \<Longrightarrow> shown (backing_part b') = patched (shown (backing_part b)) (unat off) bs \<and> unat off + length bs < 2 ^ 64"
    by blast+
qed

lemma backing_sync_keeps:
  assumes "backing_ok b" and "backing_sync env b = (b', res)"
  shows "backing_ok b' \<and> shown (backing_part b') = shown (backing_part b)"
proof (cases b)
  case (Journalled w m)
  then show ?thesis
    using assms part_flush_cache [of w "se_crc env" m] by (auto simp: backing_sync_def split_beta pf_wf_def)
next
  case (Lengthless part)
  then show ?thesis
    using assms by (auto simp: backing_sync_def dest!: pf_sync_keeps split: prod.splits sum.splits)
qed

lemma ss_write_backing:
  "ss_write_at env ss off bs =
     (case ss_backing ss of
        None \<Rightarrow> (snd (elapsed ss), Err (other_io 0))
      | Some b \<Rightarrow>
          ((snd (elapsed ss))\<lparr>ss_backing := Some (fst (backing_write env b off bs (fst (elapsed ss))))\<rparr>,
           snd (backing_write env b off bs (fst (elapsed ss)))))"
  by (simp add: ss_write_at_def on_writer_def split_beta split: option.split)

lemma ss_sync_backing:
  "ss_sync env ss =
     (case ss_backing ss of
        None \<Rightarrow> (ss, Err (other_io 0))
      | Some b \<Rightarrow> (ss\<lparr>ss_backing := Some (fst (backing_sync env b))\<rparr>, snd (backing_sync env b)))"
  by (simp add: ss_sync_def on_writer_def split_beta split: option.split)

interpretation storage: byte_target "storage_target env" ss_visible ss_ok
  for env
proof (unfold_locales, goal_cases)
  case (1 t off bs t')
  then obtain b where b: "ss_backing t = Some b"
    by (auto simp: storage_target_def ss_write_backing split: option.splits)
  show ?case
    using backing_write_patch(1,3) [OF _ prod.collapse [symmetric], of b env off bs "fst (elapsed t)"] 1 b
    by (auto simp: storage_target_def ss_write_backing ss_ok_def ss_visible_def)
next
  case (2 t off bs t' e)
  show ?case
  proof (cases "ss_backing t")
    case None
    then show ?thesis
      using 2 unat_lt_2p [of off]
      by (auto simp: storage_target_def ss_write_backing ss_ok_def ss_visible_def intro!: exI [of _ 0])
  next
    case (Some b)
    then show ?thesis
      using backing_write_patch(1,2) [OF _ prod.collapse [symmetric], of b env off bs "fst (elapsed t)"] 2
      by (auto simp: storage_target_def ss_write_backing ss_ok_def ss_visible_def)
  qed
next
  case (3 t t' r)
  show ?case
  proof (cases "ss_backing t")
    case None
    then show ?thesis
      using 3 by (simp add: storage_target_def ss_sync_backing ss_ok_def ss_visible_def)
  next
    case (Some b)
    then show ?thesis
      using backing_sync_keeps [OF _ prod.collapse [symmetric], of b env] 3
      by (auto simp: storage_target_def ss_sync_backing ss_ok_def ss_visible_def)
  qed
qed

section \<open>The sink keeps the writer's invariant\<close>

lemma map_ok_eq_Ok: "map_ok f r = Ok y \<longleftrightarrow> (\<exists>x. r = Ok x \<and> y = f x)"
  by (cases r) auto

text \<open>The calls a window makes on its target between creation and completion.\<close>

datatype sink_call = CallWrite u64 bytes | CallSync

fun run_call :: "sink_env \<Rightarrow> storage_sink \<Rightarrow> sink_call \<Rightarrow> storage_sink" where
  "run_call env ss (CallWrite off bs) = fst (ss_write_at env ss off bs)"
| "run_call env ss CallSync = fst (ss_sync env ss)"

definition run_calls :: "sink_env \<Rightarrow> storage_sink \<Rightarrow> sink_call list \<Rightarrow> storage_sink" where
  "run_calls env = foldl (run_call env)"

abbreviation writer_safe :: "sink_env \<Rightarrow> file_header \<Rightarrow> (part_file, journal_file) durable_writer \<Rightarrow> interval_map \<Rightarrow> bool" where
  "writer_safe env h w m \<equiv>
     (\<exists>rs. files.usable (se_crc env) (dl_blake3 (se_lib env)) h w m rs \<or> files.broken (se_crc env) (dl_blake3 (se_lib env)) h w m rs)"

definition sink_inv :: "sink_env \<Rightarrow> file_header \<Rightarrow> storage_sink \<Rightarrow> bool" where
  "sink_inv env h ss =
     (\<exists>w m. ss_backing ss = Some (Journalled w m) \<and> writer_safe env h w m \<and> pf_wf (dw_data w) \<and>
        length (f_cache (pf_file (dw_data w))) = unat (fh_total_length h) \<and> im_total_length m = fh_total_length h \<and>
        d_now (ss_dir ss) (af_part_path (ss_artifacts ss)) = Some (ss_node ss))"

lemma safe_facts:
  assumes "writer_safe env h w m"
  shows "invariants_hold m" "im_total_length m = fh_total_length h" "pf_wf (dw_data w)"
    "byte_state m b = Some Complete \<Longrightarrow> unat b < length (f_stable (pf_file (dw_data w))) \<and>
       f_stable (pf_file (dw_data w)) ! unat b = f_cache (pf_file (dw_data w)) ! unat b"
proof -
  obtain rs ext where rec: "files.recorded (se_crc env) (dl_blake3 (se_lib env)) h w rs ext"
    and cov: "\<And>n. byte_state m n = Some Complete \<longleftrightarrow> log_covers rs n"
    and inv: "invariants_hold m" "im_total_length m = pf_total_length (dw_data w)"
    using assms by (auto simp: files.usable_def files.broken_def)
  show "invariants_hold m" "im_total_length m = fh_total_length h" "pf_wf (dw_data w)"
    using inv rec by (auto simp: files.recorded_def)
  assume "byte_state m b = Some Complete"
  then obtain r where r: "r \<in> set rs" "unat (cb_offset (frame_block r)) \<le> unat b" "unat b < block_end (frame_block r)"
    using cov by (auto simp: log_covers_def)
  let ?s = "unat (cb_offset (frame_block r))" and ?e = "block_end (frame_block r)"
  let ?st = "f_stable (pf_file (dw_data w))" and ?ca = "f_cache (pf_file (dw_data w))"
  have v: "files.vouched (dl_blake3 (se_lib env)) (dw_data w) (frame_block r)"
    using rec r(1) by (auto simp: files.recorded_def)
  have len: "?e \<le> length ?st" "?e \<le> length ?ca" and eq: "chunk ?s ?e ?st = chunk ?s ?e ?ca"
    using v by (auto simp: files.vouched_def)
  have nth: "chunk ?s ?e xs ! (unat b - ?s) = xs ! unat b" if "?e \<le> length xs" for xs :: bytes
    using that r(2,3) by (simp add: chunk_def)
  have "?st ! unat b = ?ca ! unat b"
    using nth [OF len(1)] nth [OF len(2)] eq by simp
  then show "unat b < length ?st \<and> ?st ! unat b = ?ca ! unat b"
    using r(3) len(1) by simp
qed

lemma writer_safe_stage:
  assumes "writer_safe env h w m" and "digest32 (dl_blake3 (se_lib env))"
    and "dw_stage plat (dl_blake3 (se_lib env)) part_file_data (env_journal env) w m v off bs now = (w', m', res)"
  shows "writer_safe env h w' m'"
proof (cases "dw_poisoned w")
  case True
  then show ?thesis
    using assms(1,3) files.poisoned_refuses(1) [OF True] by fastforce
next
  case False
  then obtain rs where "files.usable (se_crc env) (dl_blake3 (se_lib env)) h w m rs"
    using assms(1) by (auto simp: files.broken_def)
  from files.stage_safe [OF this assms(2,3)] show ?thesis
    by blast
qed

lemma writer_safe_flush:
  assumes "writer_safe env h w m" and "dw_flush part_file_data (env_journal env) w m = (w', m', res)"
  shows "writer_safe env h w' m'"
proof (cases "dw_poisoned w")
  case True
  then show ?thesis
    using assms(1,2) files.poisoned_refuses(2) [OF True] by fastforce
next
  case False
  then obtain rs where "files.usable (se_crc env) (dl_blake3 (se_lib env)) h w m rs"
    using assms(1) by (auto simp: files.broken_def)
  from files.flush_safe [OF this assms(2)] show ?thesis
    by blast
qed

lemma run_call_inv:
  assumes dg: "digest32 (dl_blake3 (se_lib env))" and inv: "sink_inv env h ss"
  shows "sink_inv env h (run_call env ss c)"
proof -
  obtain w m where b: "ss_backing ss = Some (Journalled w m)" and safe: "writer_safe env h w m"
    and len: "length (f_cache (pf_file (dw_data w))) = unat (fh_total_length h)"
    and node: "d_now (ss_dir ss) (af_part_path (ss_artifacts ss)) = Some (ss_node ss)"
    using inv by (auto simp: sink_inv_def)
  note wf = safe_facts(3) [OF safe]
  show ?thesis
  proof (cases c)
    case (CallWrite off bs)
    obtain w1 m1 r where st: "dw_stage (se_platform env) (dl_blake3 (se_lib env)) part_file_data (env_journal env)
        w m SINGLE_STREAM_WORKER off bs (fst (elapsed ss)) = (w1, m1, r)"
      by (metis prod.exhaust)
    note safe1 = writer_safe_stage [OF safe dg st]
    show ?thesis
      using b node len safe1 stage_patch(4) [OF wf st] safe_facts(2,3) [OF safe1] unfolding CallWrite sink_inv_def
      by (intro exI [of _ w1] exI [of _ m1]) (simp add: ss_write_backing backing_write_def st)
  next
    case CallSync
    obtain w1 m1 r where fl: "dw_flush part_file_data (env_journal env) w m = (w1, m1, r)"
      by (metis prod.exhaust)
    note safe1 = writer_safe_flush [OF safe fl]
    show ?thesis
      using b node len safe1 part_flush_cache(1) [OF wf, of "se_crc env" m] safe_facts(2,3) [OF safe1]
      unfolding CallSync sink_inv_def
      by (intro exI [of _ w1] exI [of _ m1]) (simp add: ss_sync_backing backing_sync_def fl)
  qed
qed

lemma run_calls_inv:
  "digest32 (dl_blake3 (se_lib env)) \<Longrightarrow> sink_inv env h ss \<Longrightarrow> sink_inv env h (run_calls env ss cs)"
  unfolding run_calls_def by (induction cs arbitrary: ss) (simp_all add: run_call_inv)

lemma run_call_keeps [simp]:
  "ss_artifacts (run_call env ss c) = ss_artifacts ss" "ss_dir (run_call env ss c) = ss_dir ss"
  "ss_node (run_call env ss c) = ss_node ss" "ss_digest (run_call env ss c) = ss_digest ss"
  by (cases c; simp add: ss_write_backing ss_sync_backing split: option.split)+

lemma run_calls_keeps [simp]:
  "ss_artifacts (run_calls env ss cs) = ss_artifacts ss" "ss_dir (run_calls env ss cs) = ss_dir ss"
  "ss_node (run_calls env ss cs) = ss_node ss" "ss_digest (run_calls env ss cs) = ss_digest ss"
  unfolding run_calls_def by (induction cs arbitrary: ss) simp_all

section \<open>A new sink\<close>

lemma fs_create_new_Ok:
  assumes "fs_create_new d p = (d1, Ok i)"
  shows "d_now d1 = (d_now d)(p \<mapsto> i)" "f_cache (d_nodes d1 i) = []" "f_stable (d_nodes d1 i) = []" "d_now d p = None"
proof -
  obtain x d0 where f: "dir_fault d = (x, d0)"
    by (cases "dir_fault d")
  show "d_now d1 = (d_now d)(p \<mapsto> i)" "f_cache (d_nodes d1 i) = []" "f_stable (d_nodes d1 i) = []" "d_now d p = None"
    using assms f dir_fault_keeps [OF f]
    by (auto simp: fs_create_new_def fs_put_def Let_def split: fault.splits option.splits)
qed

lemma fs_create_new_Err:
  assumes "fs_create_new d p = (d1, Err e)"
  shows "d_now d1 = d_now d"
proof -
  obtain x d0 where f: "dir_fault d = (x, d0)"
    by (cases "dir_fault d")
  show ?thesis
    using assms f dir_fault_keeps [OF f] by (auto simp: fs_create_new_def Let_def split: fault.splits option.splits)
qed

lemma fs_remove_file_now: "fs_remove_file d p = (d1, r) \<Longrightarrow> q \<noteq> p \<Longrightarrow> d_now d1 q = d_now d q"
  by (cases "dir_fault d") (auto simp: fs_remove_file_def dest: dir_fault_keeps split: fault.splits if_splits)

lemma fs_put_now [simp]: "d_now (fs_put d i f) = d_now d"
  by (simp add: fs_put_def)

lemma sync_parent_now: "d_now (fst (sync_parent plat p d)) = d_now d"
  by (cases "dir_fault d")
    (auto simp: sync_parent_def fs_sync_dir_def dest: dir_fault_keeps split: platform.split fault.splits)

text \<open>The directory part of creating a journal touches its own name only; the file part is \<open>jf_create\<close>.\<close>

lemma create_journal_result:
  assumes "create_journal env d p header = (d1, r)"
  shows "q \<noteq> p \<Longrightarrow> d_now d1 q = d_now d q"
    and "r = Ok jf \<Longrightarrow> \<exists>open_new sync. jf_create (se_crc env) open_new sync p header = Ok jf \<and>
      (\<forall>x f. open_new x = Ok f \<longrightarrow> f_cache f = [] \<and> f_stable f = [])"
proof -
  obtain d0 c where c: "fs_create_new d p = (d0, c)"
    by (cases "fs_create_new d p")
  have now: "q \<noteq> p \<Longrightarrow> d_now d0 q = d_now d q" for q
    using c fs_create_new_Ok(1) [of d p d0] fs_create_new_Err [of d p d0] by (cases c) auto
  have r: "(\<exists>sync. r = jf_create (se_crc env) (\<lambda>_. case c of Err e \<Rightarrow> Err e | Ok i \<Rightarrow> Ok (d_nodes d0 i)) sync p header) \<and>
      (\<forall>q. d_now d1 q = d_now d0 q)"
    using assms c
    by (cases c) (auto simp: create_journal_def Let_def split_beta sync_parent_now split: prod.splits sum.splits)
  then show "q \<noteq> p \<Longrightarrow> d_now d1 q = d_now d q"
    using now by simp
  show "\<exists>open_new sync. jf_create (se_crc env) open_new sync p header = Ok jf \<and>
      (\<forall>x f. open_new x = Ok f \<longrightarrow> f_cache f = [] \<and> f_stable f = [])" if rj: "r = Ok jf"
  proof -
    let ?open = "\<lambda>_ :: path. case c of Err e \<Rightarrow> Err e | Ok i \<Rightarrow> Ok (d_nodes d0 i)"
    obtain sync where "jf_create (se_crc env) ?open sync p header = Ok jf"
      using r rj by auto
    moreover have "\<forall>x f. ?open x = Ok f \<longrightarrow> f_cache f = [] \<and> f_stable f = []"
      using c fs_create_new_Ok(2,3) [of d p d0] by (auto split: sum.splits)
    ultimately show ?thesis
      by blast
  qed
qed

lemma create_or_replace_result:
  assumes "create_or_replace_journal env d p header = (d1, r)"
  shows "q \<noteq> p \<Longrightarrow> d_now d1 q = d_now d q"
    and "r = Ok jf \<Longrightarrow> \<exists>open_new sync. jf_create (se_crc env) open_new sync p header = Ok jf \<and>
      (\<forall>x f. open_new x = Ok f \<longrightarrow> f_cache f = [] \<and> f_stable f = [])"
proof -
  obtain da ra where a: "create_journal env d p header = (da, ra)"
    by (cases "create_journal env d p header")
  obtain db rb where b: "fs_remove_file da p = (db, rb)"
    by (cases "fs_remove_file da p")
  obtain dc rc where c: "create_journal env db p header = (dc, rc)"
    by (cases "create_journal env db p header")
  note facts = create_journal_result(1) [OF a] create_journal_result(1) [OF c] fs_remove_file_now [OF b]
  have d1: "d1 = da \<or> d1 = db \<or> d1 = dc"
    using assms a b c by (auto simp: create_or_replace_journal_def split: sum.splits writer_error.splits)
  have ok: "ra = Ok jf \<or> rc = Ok jf" if "r = Ok jf"
    using assms a b c that by (auto simp: create_or_replace_journal_def split: sum.splits writer_error.splits)
  show "q \<noteq> p \<Longrightarrow> d_now d1 q = d_now d q"
    using d1 facts by auto
  show "\<exists>open_new sync. jf_create (se_crc env) open_new sync p header = Ok jf \<and>
      (\<forall>x f. open_new x = Ok f \<longrightarrow> f_cache f = [] \<and> f_stable f = [])" if "r = Ok jf"
    using ok [OF that] create_journal_result(2) [OF a, of jf] create_journal_result(2) [OF c, of jf] by blast
qed

lemma create_part_result:
  assumes "create_part env d target n = (d1, Ok (part, i))"
  shows "d_now d1 (target @ ''.dppart'') = Some i" "pf_path part = target @ ''.dppart''"
    "length (f_cache (pf_file part)) = unat n" "pf_wf part" "pf_total_length part = n"
proof -
  obtain p where p: "part_path_for target = Ok p" "unat n \<le> i64_max"
    using assms by (auto simp: create_part_def pf_create_def split: sum.splits if_splits)
  then have pp: "p = target @ ''.dppart''"
    by (auto simp: part_path_for_def split: if_splits)
  obtain d0 c where c: "fs_create_new d p = (d0, c)"
    by (cases "fs_create_new d p")
  have "map_ok f (pf_create (se_alloc env) (\<lambda>_. Err x) target n) \<noteq> Ok y" for x y and f :: "part_file \<Rightarrow> part_file \<times> nat"
    using p by (auto simp: pf_create_def)
  then obtain j where j: "c = Ok j"
    using assms p c by (cases c) (auto simp: create_part_def)
  have i: "i = j" and d1: "d_now d1 = d_now d0"
    and part: "pf_create (se_alloc env) (\<lambda>_. Ok (d_nodes d0 j)) target n = Ok part"
    using assms p c j by (auto simp: create_part_def map_ok_eq_Ok split: sum.splits)
  show "d_now d1 (target @ ''.dppart'') = Some i"
    using fs_create_new_Ok(1) [of d p d0 j] c i d1 j pp by simp
  show "pf_path part = target @ ''.dppart''" "length (f_cache (pf_file part)) = unat n"
    using part p pp by (auto simp: pf_create_def dest!: prepare_length split: prod.splits sum.splits)
  show "pf_wf part" "pf_total_length part = n"
    using pf_create_wf [OF part] .
qed

lemma journal_path_apart: "journal_path_for jd tid \<noteq> target @ ''.dppart''"
proof
  assume "journal_path_for jd tid = target @ ''.dppart''"
  then have "last (journal_path_for jd tid) = CHR ''t''"
    by simp
  then show False
    by (simp add: journal_path_for_def path_join_def split: if_splits)
qed

lemma grant_whole_Ok:
  assumes "grant_whole n = Ok m"
  shows "invariants_hold m" "im_total_length m = n" "byte_state m b \<noteq> Some Complete"
proof -
  have "invariants_hold m \<and> im_total_length m = n \<and> (\<forall>b. byte_state m b \<noteq> Some Complete)"
  proof (cases "n > 0")
    case True
    then have "grant (im_new n) (0, n) SINGLE_STREAM_WORKER = (m, Ok ())"
      using assms by (auto simp: grant_whole_def split: prod.splits sum.splits)
    then show ?thesis
      using grant_state [of "im_new n" "(0, n)" SINGLE_STREAM_WORKER] grant_inv [of "im_new n" "(0, n)" SINGLE_STREAM_WORKER]
      by (auto simp: upd_range_def grant_unfold replace_range_def split: if_splits)
  next
    case False
    then show ?thesis
      using assms by (auto simp: grant_whole_def split: if_splits)
  qed
  then show "invariants_hold m" "im_total_length m = n" "byte_state m b \<noteq> Some Complete"
    by blast+
qed

abbreviation sink_header :: "u64 \<Rightarrow> bytes \<Rightarrow> bytes \<Rightarrow> file_header" where
  "sink_header n tid vh \<equiv> \<lparr>fh_transfer_id = tid, fh_total_length = n, fh_block_size = 0, fh_validator_hash = vh\<rparr>"

lemma ss_create_inv:
  assumes "length tid = 16" "length vh = 32" and "ss_create env d clock target jd (Some n) tid vh dg = (d', Ok ss)"
  shows "sink_inv env (sink_header n tid vh) ss"
    "ss_artifacts ss = \<lparr>af_part_path = target @ ''.dppart'', af_journal_path = Some (journal_path_for jd tid)\<rparr>"
    "ss_digest ss = dg" "ss_dir ss = d'"
proof -
  let ?h = "sink_header n tid vh" and ?p = "journal_path_for jd tid"
  obtain d1 part node where cp: "create_part env d target n = (d1, Ok (part, node))"
    using assms(3) by (auto simp: ss_create_def split: prod.splits sum.splits)
  note P = create_part_result [OF cp]
  obtain d2 journal where cj: "create_or_replace_journal env d1 ?p ?h = (d2, Ok journal)"
    using assms(3) cp by (auto simp: ss_create_def Let_def split: prod.splits sum.splits)
  have "map_ok (\<lambda>b. \<lparr>ss_backing = Some b, ss_clock = clock,
        ss_artifacts = \<lparr>af_part_path = pf_path part, af_journal_path = Some ?p\<rparr>,
        ss_digest = dg, ss_dir = d2, ss_node = node\<rparr>) (open_writer env part journal n) = Ok ss" and d': "d' = d2"
    using assms(3) unfolding ss_create_def by (auto simp: cp cj Let_def)
  then obtain b where ob: "open_writer env part journal n = Ok b"
    and ss: "ss = \<lparr>ss_backing = Some b, ss_clock = clock,
        ss_artifacts = \<lparr>af_part_path = pf_path part, af_journal_path = Some ?p\<rparr>,
        ss_digest = dg, ss_dir = d2, ss_node = node\<rparr>"
    unfolding map_ok_eq_Ok by blast
  obtain w m where w: "dw_try_new part_file_data (env_journal env) part journal 0 = Ok w" and m: "grant_whole n = Ok m"
    and b: "b = Journalled w m"
    using ob by (auto simp: open_writer_def map_ok_eq_Ok split: sum.splits)
  obtain open_new sync where jf: "jf_create (se_crc env) open_new sync ?p ?h = Ok journal"
    "\<forall>x f. open_new x = Ok f \<longrightarrow> f_cache f = [] \<and> f_stable f = []"
    using create_or_replace_result(2) [OF cj refl] by blast
  have "files.usable (se_crc env) (dl_blake3 (se_lib env)) ?h w m []"
    using fresh_writer_usable [OF _ jf P(4,5) w grant_whole_Ok [OF m]] assms(1,2) by (simp add: wf_header_def)
  then have safe: "writer_safe env ?h w m"
    by blast
  have "d_now d2 (target @ ''.dppart'') = Some node"
    using create_or_replace_result(1) [OF cj, of "target @ ''.dppart''"] P(1) journal_path_apart [of jd tid target] by simp
  moreover have "dw_data w = part"
    using w by (auto simp: dw_try_new_def split: if_splits)
  ultimately show "sink_inv env ?h ss"
    using safe P safe_facts(2) [OF safe] by (auto simp: sink_inv_def ss b)
  show "ss_artifacts ss = \<lparr>af_part_path = target @ ''.dppart'', af_journal_path = Some ?p\<rparr>" "ss_digest ss = dg" "ss_dir ss = d'"
    using ss P(2) d' by simp_all
qed

section \<open>Properties\<close>

lemma prefix_complete:
  "chain a xs c \<Longrightarrow> a \<le> b \<Longrightarrow> b < (case find (\<lambda>i. iv_state i \<noteq> Complete) xs of None \<Rightarrow> c | Some i \<Rightarrow> iv_start i) \<Longrightarrow>
   lookup_byte xs b = Some Complete"
proof (induction xs arbitrary: a)
  case (Cons x xs)
  show ?case
  proof (cases "iv_state x = Complete \<and> \<not> b < iv_end x")
    case True
    then show ?thesis
      using Cons.IH [of "iv_end x"] Cons.prems by auto
  next
    case False
    then show ?thesis
      using Cons.prems by (auto split: if_splits)
  qed
qed auto

text \<open>
  C9.  What a download may resume from is on the disk.  Create a sink for a representation of known
  length and let any writes and syncs happen, with any faults: every byte below
  \<open>durable_prefix_end\<close> is complete in the interval map and has reached stable storage with the
  value the file shows.
\<close>

theorem resume_point_is_durable:
  assumes "digest32 (dl_blake3 (se_lib env))" and "length transfer_id = 16" and "length validator_hash = 32"
    and "ss_create env d clock target journal_dir (Some n) transfer_id validator_hash digest = (d', Ok ss)"
    and "b < ss_durable_prefix_end (run_calls env ss calls)"
  shows "\<exists>w m. ss_backing (run_calls env ss calls) = Some (Journalled w m) \<and> byte_state m b = Some Complete \<and>
    unat b < length (f_stable (pf_file (dw_data w))) \<and>
    f_stable (pf_file (dw_data w)) ! unat b = f_cache (pf_file (dw_data w)) ! unat b"
proof -
  have "sink_inv env (sink_header n transfer_id validator_hash) (run_calls env ss calls)"
    using run_calls_inv [OF assms(1) ss_create_inv(1) [OF assms(2-4)]] .
  then obtain w m where b: "ss_backing (run_calls env ss calls) = Some (Journalled w m)"
    and safe: "writer_safe env (sink_header n transfer_id validator_hash) w m"
    by (auto simp: sink_inv_def)
  have "byte_state m b = Some Complete"
    using prefix_complete [of 0 "im_intervals m" "im_total_length m" b] safe_facts(1) [OF safe] assms(5) b
    by (auto simp: ss_durable_prefix_end_def byte_state_def invariants_hold_iff)
  then show ?thesis
    using b safe_facts(4) [OF safe] by blast
qed

lemma complete_durable:
  assumes safe: "writer_safe env h w m" and len: "length (f_cache (pf_file (dw_data w))) = unat (fh_total_length h)"
    and all: "\<forall>b < fh_total_length h. byte_state m b = Some Complete"
  shows "take (unat (fh_total_length h)) (f_stable (pf_file (dw_data w))) = f_cache (pf_file (dw_data w))"
proof -
  let ?n = "fh_total_length h"
  have *: "i < length (f_stable (pf_file (dw_data w))) \<and>
      f_stable (pf_file (dw_data w)) ! i = f_cache (pf_file (dw_data w)) ! i" if "i < unat ?n" for i
    using safe_facts(4) [OF safe, of "of_nat i"] all that unat_lt_2p [of ?n]
    by (simp add: word_less_nat_alt unat_of_nat)
  then have "unat ?n \<le> length (f_stable (pf_file (dw_data w)))"
    by (meson not_le order_less_irrefl)
  then show ?thesis
    using * len by (intro nth_equalityI) auto
qed

text \<open>Naming: only the part file moves, and only on success.\<close>

lemma verify_and_rename_now:
  assumes "verify_and_rename lib cuts J d j part_path final_path total_len m digest seq = (d', j', Ok s)"
  shows "d_now d' = (d_now d)(part_path := None, final_path := d_now d part_path)"
proof -
  obtain d1 r1 where o: "fs_open d part_path = (d1, r1)"
    by (cases "fs_open d part_path")
  obtain d2 r2 where h: "hash_file lib cuts d1 part_path digest = (d2, r2)"
    by (cases "hash_file lib cuts d1 part_path digest")
  have d2: "d_now d2 = d_now d1"
    using h fs_open_result(2) by (auto simp: hash_file_def split: prod.splits sum.splits option.splits)
  obtain hd oc where "seal_and_rename J d2 j part_path final_path hd oc seq = (d', j', Ok s)"
    using assms o h by (auto simp: verify_and_rename_def fs_metadata_len_def split: sum.splits if_splits)
  from seal_and_rename_result(3) [OF this refl] show ?thesis
    using d2 fs_open_result(2) [OF o] by simp
qed

lemma ss_complete_facts:
  assumes inv: "sink_inv env h ss" and "delivers (se_cuts env)" and jp: "af_journal_path (ss_artifacts ss) = Some jp"
    and "final_path \<noteq> jp" and "ss_complete env ss final_path = (ss', res)"
  shows "case res of
      Err e \<Rightarrow> d_now (ss_dir ss') = d_now (ss_dir ss) \<and> ss_artifacts ss' = ss_artifacts ss
    | Ok sealed \<Rightarrow> \<exists>i s. d_now (ss_dir ss') final_path = Some i \<and> sealed = Some s \<and> af_journal_path (ss_artifacts ss') = None \<and>
        (let f = d_nodes (ss_dir ss') i; n = fh_total_length h in
         length (f_cache f) = unat n \<and> take (unat n) (f_stable f) = f_cache f \<and>
         sf_final_blake3 s = dl_blake3 (se_lib env) (f_cache f)) \<and>
        (\<forall>q. q \<notin> {final_path, af_part_path (ss_artifacts ss), jp} \<longrightarrow> d_now (ss_dir ss') q = d_now (ss_dir ss) q)"
proof -
  let ?pp = "af_part_path (ss_artifacts ss)" and ?n = "fh_total_length h"
  obtain w m where b: "ss_backing ss = Some (Journalled w m)" and safe: "writer_safe env h w m"
    and len: "length (f_cache (pf_file (dw_data w))) = unat ?n" and node: "d_now (ss_dir ss) ?pp = Some (ss_node ss)"
    and tot: "im_total_length m = ?n"
    using inv by (auto simp: sink_inv_def)
  let ?d = "fs_put (ss_dir ss) (ss_node ss) (pf_file (dw_data w))"
  obtain d1 j1 r where v: "verify_and_rename (se_lib env) (se_cuts env) (env_journal env) ?d (dw_journal w) ?pp final_path
      ?n m (ss_digest ss) (dw_next_sequence w) = (d1, j1, r)"
    by (metis prod.exhaust)
  have short: "length (f_cache (d_nodes ?d i)) < 2 ^ 64" if "d_now ?d ?pp = Some i" for i
    using that node len unat_lt_2p [of ?n] by (simp add: fs_put_def)
  note V = verify_and_rename_facts [OF safe_facts(1) [OF safe] assms(2) short v]
  show ?thesis
  proof (cases "has_staged_work w")
    case True
    then show ?thesis
      using assms(5) b by (auto simp: ss_complete_def backing_complete_def attach_def)
  next
    case False
    note un = assms(5) [unfolded ss_complete_def b option.case backing_complete_def backing.case attach_def backing_part.simps
        tot v if_not_P [OF False] prod.case jp]
    show ?thesis
    proof (cases r)
      case (Inl e)
      then show ?thesis
        using un V by auto
    next
      case (Inr s)
      obtain d2 x where rm: "fs_remove_file d1 jp = (d2, x)"
        by (cases "fs_remove_file d1 jp")
      have nodes: "d_nodes d2 = d_nodes d1"
        using rm by (cases "dir_fault d1") (auto simp: fs_remove_file_def dest: dir_fault_keeps split: fault.splits if_splits)
      have now: "d_now d1 = (d_now ?d)(?pp := None, final_path := d_now ?d ?pp)"
        by (rule verify_and_rename_now [OF v [unfolded Inr]])
      show ?thesis
        using un V Inr rm nodes complete_durable [OF safe] node len fs_remove_file_now [OF rm assms(4)] fs_remove_file_now [OF rm] now
        by (auto simp: fs_put_def Let_def)
    qed
  qed
qed

text \<open>
  C8.  A finished download is durable, verified and named, and its journal goes last.  After any writes and
  syncs, if \<open>complete\<close> succeeds then the final name holds the part file: exactly the announced length,
  every byte of it on stable storage, and its BLAKE3 in the result; the journal is no longer the sink's.
  If it fails, every name is as it was and the sink still owns its journal.
\<close>

theorem completion_is_durable:
  assumes "digest32 (dl_blake3 (se_lib env))" and "delivers (se_cuts env)"
    and "length transfer_id = 16" and "length validator_hash = 32"
    and "ss_create env d clock target journal_dir (Some n) transfer_id validator_hash digest = (d', Ok ss)"
    and "final_path \<noteq> journal_path_for journal_dir transfer_id"
    and "ss_complete env (run_calls env ss calls) final_path = (ss', res)"
  shows "case res of
      Err e \<Rightarrow> d_now (ss_dir ss') = d_now d' \<and>
        af_journal_path (ss_artifacts ss') = Some (journal_path_for journal_dir transfer_id)
    | Ok sealed \<Rightarrow> \<exists>i s. d_now (ss_dir ss') final_path = Some i \<and> sealed = Some s \<and> af_journal_path (ss_artifacts ss') = None \<and>
        (let f = d_nodes (ss_dir ss') i in
         length (f_cache f) = unat n \<and> take (unat n) (f_stable f) = f_cache f \<and>
         sf_final_blake3 s = dl_blake3 (se_lib env) (f_cache f))"
proof -
  note C = ss_create_inv [OF assms(3-5)]
  have "sink_inv env (sink_header n transfer_id validator_hash) (run_calls env ss calls)"
    using run_calls_inv [OF assms(1) C(1)] .
  from ss_complete_facts [OF this assms(2) _ assms(6,7)] show ?thesis
    using C(2,4) by (auto simp: Let_def split: sum.splits)
qed

text \<open>A two-byte download into an empty directory.\<close>

definition quiet_env :: sink_env where
  "quiet_env = \<lparr>se_platform = Unix, se_crc = demo_crc, se_lib = demo_lib,
     se_cuts = (\<lambda>bs. if bs = [] then [] else [RdData bs]), se_alloc = demo_alloc\<rparr>"

definition empty_dir :: directory where
  "empty_dir = \<lparr>d_nodes = (\<lambda>_. \<lparr>f_cache = [], f_stable = [], f_faults = []\<rparr>), d_now = (\<lambda>_. None), d_disk = (\<lambda>_. None),
     d_next = 0, d_faults = []\<rparr>"

definition small_create :: "directory \<times> (sink_error + storage_sink)" where
  "small_create = ss_create quiet_env empty_dir [] ''t'' ''j'' (Some 2) (replicate 16 0) (replicate 32 0) None"

definition small_sink :: storage_sink where
  "small_sink = projr (snd small_create)"

definition small_end :: storage_sink where
  "small_end = run_calls quiet_env small_sink [CallWrite 0 [5, 6], CallSync]"

lemma small_runs:
  "isl (snd small_create) = False \<and> ss_durable_prefix_end small_end = 2 \<and> isl (snd (ss_complete quiet_env small_end ''t'')) = False"
  by code_simp

lemma projr_result: "\<not> isl (snd x) \<Longrightarrow> x = (fst x, Ok (projr (snd x)))"
  by (metis prod.collapse sum.collapse(2))

lemma small_created:
  "ss_create quiet_env empty_dir [] ''t'' ''j'' (Some 2) (replicate 16 0) (replicate 32 0) None = (fst small_create, Ok small_sink)"
  using projr_result [of small_create] small_runs unfolding small_create_def [symmetric] small_sink_def by blast

lemma quiet_digest: "digest32 (dl_blake3 (se_lib quiet_env))"
  by (simp add: quiet_env_def demo_lib_def digest32_demo)

theorem resume_point_is_durable_witness:
  "\<exists>w m. ss_backing small_end = Some (Journalled w m) \<and> byte_state m 1 = Some Complete"
proof -
  have "1 < ss_durable_prefix_end small_end"
    using small_runs by simp
  from resume_point_is_durable [OF quiet_digest _ _ small_created this [unfolded small_end_def]] show ?thesis
    by (auto simp: small_end_def)
qed

theorem completion_is_durable_witness:
  "\<exists>i. d_now (ss_dir (fst (ss_complete quiet_env small_end ''t''))) ''t'' = Some i \<and>
     length (f_cache (d_nodes (ss_dir (fst (ss_complete quiet_env small_end ''t''))) i)) = 2"
proof -
  let ?r = "ss_complete quiet_env small_end ''t''"
  have s: "ss_complete quiet_env (run_calls quiet_env small_sink [CallWrite 0 [5, 6], CallSync]) ''t'' = (fst ?r, Ok (projr (snd ?r)))"
    using projr_result [of ?r] small_runs unfolding small_end_def by blast
  have "delivers (se_cuts quiet_env)" "''t'' \<noteq> journal_path_for ''j'' (replicate 16 0)"
    by (simp_all add: delivers_def quiet_env_def journal_path_for_def path_join_def)
  from completion_is_durable [OF quiet_digest this(1) _ _ small_created this(2) s] show ?thesis
    by (auto simp: Let_def)
qed

end
