(* ===== verification/Download.thy ===== *)
theory Download
  imports Reprobe StorageSink
begin

text \<open>
  The single-stream download, \<open>downpour-engine/src/download.rs\<close>: probe, fetch into the storage sink, verify
  and rename, with retries that resume under \<open>If-Range\<close> or start over.

  The world is the network state and the directory.  While a session holds the sink the directory is the
  sink's; when the session is dropped the part file's node gets the content of the handle.
  \<open>transient_kind_of\<close> and \<open>decide\<close> bound the loop, which is a partial function shown to return.
\<close>

section \<open>Names and identities\<close>

text \<open>The bytes of a Rust string, as a path component.\<close>

definition utf8_codes :: "rust_char \<Rightarrow> nat list" where
  "utf8_codes c =
     (if c < 0x80 then [c]
      else if c < 0x800 then [0xC0 + c div 64, 0x80 + c mod 64]
      else if c < 0x10000 then [0xE0 + c div 4096, 0x80 + c div 64 mod 64, 0x80 + c mod 64]
      else [0xF0 + c div 262144, 0x80 + c div 4096 mod 64, 0x80 + c div 64 mod 64, 0x80 + c mod 64])"

definition os_str :: "rust_str \<Rightarrow> string" where
  "os_str s = map char_of (concat (map utf8_codes s))"

definition text_bytes :: "string \<Rightarrow> bytes" where
  "text_bytes = map (\<lambda>c. of_nat (of_char c))"

definition transfer_id_for :: "(bytes \<Rightarrow> bytes) \<Rightarrow> string \<Rightarrow> bytes" where
  "transfer_id_for blake3 final_url = take 16 (blake3 (text_bytes final_url))"

fun validator_hash_of :: "(bytes \<Rightarrow> bytes) \<Rightarrow> validator \<Rightarrow> bytes" where
  "validator_hash_of blake3 (StrongETag v) = blake3 (text_bytes (''etag:'' @ v))"
| "validator_hash_of blake3 (LastModified v) = blake3 (text_bytes (''last-modified:'' @ v))"
| "validator_hash_of blake3 NoValidator = replicate 32 0"

section \<open>Data\<close>

record storage_layout =
  sl_target_dir :: path
  sl_journal_dir :: path

datatype 'u download_error =
    DeProbe "'u probe_error"
  | DeTransfer "'u transfer_error"
  | DeIncomplete path "u64 option" u64
  | DeTargetExists path
  | DeSink path sink_error
  | DeUnverified path sink_error
  | DeIo path io_error

fun download_error_kind :: "'u download_error \<Rightarrow> string" where
  "download_error_kind (DeProbe e) = probe_error_kind e"
| "download_error_kind (DeTransfer e) = transfer_error_kind e"
| "download_error_kind (DeIncomplete _ _ _) = ''incomplete''"
| "download_error_kind (DeTargetExists _) = ''target_exists''"
| "download_error_kind (DeSink _ _) = ''sink''"
| "download_error_kind (DeUnverified _ _) = ''unverified''"
| "download_error_kind (DeIo _ _) = ''io''"

record 'u session =
  hs_sink :: "storage_sink range_sink"
  hs_validator :: validator
  hs_recorded :: "'u remote_object"
  hs_final_url :: 'u
  hs_total_length :: "u64 option"
  hs_final_path :: path
  hs_artifacts :: artifacts
  hs_last_observed_status :: "u16 option"

record 'n world =
  wo_net :: 'n
  wo_dir :: directory

text \<open>
  What the driver is built from.  \<open>dn_ticks\<close> is what a new sink's clock will read, \<open>dn_clock\<close> what the retry
  policy reads, \<open>dn_sleep\<close> the passing of a delay; \<open>dn_as_str\<close> and \<open>dn_origin\<close> are the text of a URL and of
  its scheme and authority.
\<close>

record ('n, 'u) download_env =
  dn_http :: "('n, 'u) http_env"
  dn_sink :: sink_env
  dn_policy :: retry_policy
  dn_freshness :: duration
  dn_clock :: "'n \<Rightarrow> clock"
  dn_ticks :: "'n \<Rightarrow> nat list"
  dn_sleep :: "'n \<Rightarrow> duration \<Rightarrow> 'n"
  dn_as_str :: "'u \<Rightarrow> string"
  dn_origin :: "'u \<Rightarrow> string"

section \<open>Classification\<close>

fun transient_kind_of :: "'u download_error \<Rightarrow> transient_kind option" where
  "transient_kind_of (DeProbe (PeTransport _)) = Some ConnectionReset"
| "transient_kind_of (DeTransfer (TeTransport _)) = Some ConnectionReset"
| "transient_kind_of (DeProbe (PeTimeout _)) = Some TkTimeout"
| "transient_kind_of (DeTransfer (TeTimeout _ _)) = Some TkTimeout"
| "transient_kind_of (DeTransfer (TeTruncatedBody _ _ _)) = Some TkTruncatedBody"
| "transient_kind_of (DeIncomplete _ _ _) = Some TkTruncatedBody"
| "transient_kind_of (DeProbe (PeUnexpectedStatus _ status _)) = from_status status"
| "transient_kind_of (DeTransfer (TeUnexpectedStatus _ status _)) = from_status status"
| "transient_kind_of _ = None"

fun retry_after_of :: "'u download_error \<Rightarrow> string option" where
  "retry_after_of (DeProbe (PeUnexpectedStatus _ _ retry_after)) = retry_after"
| "retry_after_of (DeTransfer (TeUnexpectedStatus _ _ retry_after)) = retry_after"
| "retry_after_of _ = None"

fun observed_status_of :: "'u transfer_error \<Rightarrow> u16 option" where
  "observed_status_of (TeUnexpectedStatus _ status _) = Some status"
| "observed_status_of (TeValidatorMismatch _ _ status _) = Some status"
| "observed_status_of _ = None"

section \<open>One attempt\<close>

text \<open>
  \<open>symlink_metadata\<close>, which does not follow links: whatever has the name.  That there is no such name is the
  answer about the name and not a fault, so a scheduled fault of that kind does not hide an existing one.
\<close>

definition fs_symlink_metadata :: "directory \<Rightarrow> path \<Rightarrow> directory \<times> (io_error + unit)" where
  "fs_symlink_metadata d p =
     (let (x, d1) = dir_fault d;
          answer = (if d_now d1 p = None then Err (io_new IoNotFound) else Ok ())
      in case x of
           Fault _ e \<Rightarrow> (d1, if io_kind_of e = IoNotFound then answer else Err e)
         | NoFault \<Rightarrow> (d1, answer))"

definition session_prefix_end :: "'u session \<Rightarrow> u64" where
  "session_prefix_end held = ss_durable_prefix_end (sk_target (hs_sink held))"

abbreviation held_dir :: "'u session \<Rightarrow> directory" where
  "held_dir held \<equiv> ss_dir (sk_target (hs_sink held))"

text \<open>The directory once a session is dropped.\<close>

definition dropped_dir :: "'u session \<Rightarrow> directory" where
  "dropped_dir held =
     (case ss_backing (sk_target (hs_sink held)) of
        None \<Rightarrow> held_dir held
      | Some b \<Rightarrow> attach (sk_target (hs_sink held)) b)"

definition run_session ::
    "('n, 'u) download_env \<Rightarrow> 'n world \<Rightarrow> 'u session \<Rightarrow> 'u range_request \<Rightarrow>
     'n world \<times> 'u session option \<times> ('u download_error + path)" where
  "run_session env w held request =
     (let T = storage_target (dn_sink env);
          part_path = af_part_path (hs_artifacts held);
          (n1, sk1, fetched) = fetch_range (dn_http env) T (wo_net w) request (hs_sink held);
          (sk2, synced) = sink_sync T sk1;
          held2 = held\<lparr>hs_sink := sk2\<rparr>;
          w2 = \<lparr>wo_net = n1, wo_dir = held_dir held2\<rparr>
      in
      case synced of
        Err e \<Rightarrow> (w2, Some held2, Err (DeSink part_path e))
      | Ok _ \<Rightarrow>
          (case fetched of
             Err e \<Rightarrow> (w2, Some (held2\<lparr>hs_last_observed_status := observed_status_of e\<rparr>), Err (DeTransfer e))
           | Ok outcome \<Rightarrow>
               (let delivered = next_offset sk2 in
                if (case hs_total_length held of Some expected \<Rightarrow> delivered \<noteq> expected | None \<Rightarrow> False) \<or> oc_truncated outcome
                then (w2, Some held2, Err (DeIncomplete part_path (hs_total_length held) delivered))
                else
                  (let (sk3, named) = sink_verify_and_rename T sk2 (hs_final_path held);
                       held3 = held2\<lparr>hs_sink := sk3\<rparr>;
                       w3 = \<lparr>wo_net = n1, wo_dir = held_dir held3\<rparr>
                   in case named of
                        Err e \<Rightarrow> (w3, Some held3, Err (DeUnverified part_path e))
                      | Ok _ \<Rightarrow> (w3, None, Ok (hs_final_path held))))))"

text \<open>An error here drops the session, and with it what is known of its files.\<close>

definition refresh_capabilities ::
    "('n, 'u) download_env \<Rightarrow> 'n world \<Rightarrow> 'u session \<Rightarrow> ('n world \<times> ('u download_error + 'u session)) option" where
  "refresh_capabilities env w held =
     Option.bind (probe (dn_http env) (wo_net w) (probe_request_new (hs_final_url held))) (\<lambda>(n1, probed).
       Some (w\<lparr>wo_net := n1\<rparr>,
         case probed of
           Err e \<Rightarrow> Err (DeProbe e)
         | Ok fresh \<Rightarrow>
             if rem_validator fresh \<noteq> hs_validator held
                \<or> (rem_total_length fresh \<noteq> None \<and> rem_total_length fresh \<noteq> hs_total_length held)
             then Err (DeTransfer (TeValidatorMismatch (rem_final_url fresh) (session_prefix_end held) 200
                    (case if_range_value (hs_validator held) of Some v \<Rightarrow> v | None \<Rightarrow> ''<none recorded>'')))
             else Ok (held\<lparr>hs_final_url := rem_final_url fresh, hs_recorded := fresh, hs_last_observed_status := None\<rparr>)))"

definition resume_plan_of :: "('n, 'u) download_env \<Rightarrow> 'n world \<Rightarrow> 'u session \<Rightarrow> 'u resume_plan" where
  "resume_plan_of env w held =
     \<lparr>rpn_recorded = hs_recorded held, rpn_now = he_now (dn_http env) (wo_net w), rpn_planned_url = hs_final_url held,
      rpn_refreshed_url = None, rpn_last_observed_status = hs_last_observed_status held\<rparr>"

definition continue_session ::
    "('n, 'u) download_env \<Rightarrow> 'n world \<Rightarrow> 'u session \<Rightarrow> 'n world \<times> 'u session option \<times> ('u download_error + path)" where
  "continue_session env w held =
     (let from_byte = session_prefix_end held in
      case if_range_value (hs_validator held) of
        None \<Rightarrow> (w, Some held, Err (DeIncomplete (af_part_path (hs_artifacts held)) None from_byte))
      | Some v \<Rightarrow>
          run_session env w
            (held\<lparr>hs_sink := rebase (hs_sink held) from_byte
                    (map_option (\<lambda>total. saturating_sub total from_byte) (hs_total_length held))\<rparr>)
            (request_resume (hs_final_url held) (From from_byte) v))"

definition resume_session ::
    "('n, 'u) download_env \<Rightarrow> 'n world \<Rightarrow> 'u session \<Rightarrow>
     ('n world \<times> 'u session option \<times> ('u download_error + path)) option" where
  "resume_session env w held =
     (if is_required (dn_freshness env) (resume_plan_of env w held)
      then Option.bind (refresh_capabilities env w held) (\<lambda>(w1, refreshed).
             Some (case refreshed of
                     Err e \<Rightarrow> (w1\<lparr>wo_dir := dropped_dir held\<rparr>, None, Err e)
                   | Ok held1 \<Rightarrow> continue_session env w1 held1))
      else Some (continue_session env w held))"

definition target_path :: "storage_layout \<Rightarrow> 'u remote_object \<Rightarrow> path" where
  "target_path layout remote =
     path_join (sl_target_dir layout)
       (case rem_suggested_filename remote of Some s \<Rightarrow> os_str s | None \<Rightarrow> ''download'')"

definition start_session ::
    "('n, 'u) download_env \<Rightarrow> 'n world \<Rightarrow> storage_layout \<Rightarrow> 'u remote_object \<Rightarrow>
     'n world \<times> 'u session option \<times> ('u download_error + path)" where
  "start_session env w layout remote =
     (let blake3 = dl_blake3 (se_lib (dn_sink env));
          final_path = target_path layout remote;
          (d1, occupied) = fs_symlink_metadata (wo_dir w) final_path;
          w1 = w\<lparr>wo_dir := d1\<rparr>
      in
      case occupied of
        Ok _ \<Rightarrow> (w1, None, Err (DeTargetExists final_path))
      | Err e \<Rightarrow>
          if io_kind_of e \<noteq> IoNotFound then (w1, None, Err (DeIo final_path e))
          else
            (case ss_create (dn_sink env) d1 (dn_ticks env (wo_net w)) final_path (sl_journal_dir layout)
                    (rem_total_length remote) (transfer_id_for blake3 (dn_as_str env (rem_final_url remote)))
                    (validator_hash_of blake3 (rem_validator remote)) (rem_digest remote) of
               (d2, Err e2) \<Rightarrow> (w\<lparr>wo_dir := d2\<rparr>, None, Err (DeSink final_path e2))
             | (d2, Ok target) \<Rightarrow>
                 run_session env (w\<lparr>wo_dir := d2\<rparr>)
                   \<lparr>hs_sink = sink_new target 0 (rem_total_length remote), hs_validator = rem_validator remote,
                    hs_recorded = remote, hs_final_url = rem_final_url remote,
                    hs_total_length = rem_total_length remote, hs_final_path = final_path,
                    hs_artifacts = ss_artifacts target, hs_last_observed_status = None\<rparr>
                   (request_whole (rem_final_url remote))))"

definition attempt ::
    "('n, 'u) download_env \<Rightarrow> 'n world \<Rightarrow> 'u \<Rightarrow> storage_layout \<Rightarrow> 'u session option \<Rightarrow>
     ('n world \<times> 'u session option \<times> ('u download_error + path)) option" where
  "attempt env w u layout session =
     (case session of
        Some existing \<Rightarrow> resume_session env w existing
      | None \<Rightarrow>
          Option.bind (probe (dn_http env) (wo_net w) (probe_request_new u)) (\<lambda>(n1, probed).
            Some (case probed of
                    Err e \<Rightarrow> (w\<lparr>wo_net := n1\<rparr>, None, Err (DeProbe e))
                  | Ok remote \<Rightarrow> start_session env (w\<lparr>wo_net := n1\<rparr>) layout remote)))"

section \<open>The retry loop\<close>

definition remove_artifacts :: "directory \<Rightarrow> artifacts \<Rightarrow> directory" where
  "remove_artifacts d art =
     (let d1 = fst (fs_remove_file d (af_part_path art)) in
      case af_journal_path art of None \<Rightarrow> d1 | Some journal \<Rightarrow> fst (fs_remove_file d1 journal))"

definition resumable :: "'u session option \<Rightarrow> bool" where
  "resumable session =
     (case session of
        None \<Rightarrow> False
      | Some held \<Rightarrow> if_range_value (hs_validator held) \<noteq> None \<and> session_prefix_end held > 0)"

text \<open>Dropping the session closes its files.\<close>

definition settle :: "'n world \<Rightarrow> 'u session option \<Rightarrow> 'n world" where
  "settle w session = (case session of None \<Rightarrow> w | Some held \<Rightarrow> w\<lparr>wo_dir := dropped_dir held\<rparr>)"

text \<open>What is left for the next attempt: the session, or a directory without its files.\<close>

definition prepare_retry :: "'n world \<Rightarrow> 'u session option \<Rightarrow> 'n world \<times> 'u session option" where
  "prepare_retry w session =
     (if resumable session then (w, session)
      else (case session of
              None \<Rightarrow> (w, None)
            | Some previous \<Rightarrow>
                (w\<lparr>wo_dir := remove_artifacts (wo_dir (settle w session)) (hs_artifacts previous)\<rparr>, None)))"

definition sleep_for :: "('n, 'u) download_env \<Rightarrow> 'n world \<Rightarrow> duration \<Rightarrow> 'n world" where
  "sleep_for env w delay = w\<lparr>wo_net := dn_sleep env (wo_net w) delay\<rparr>"

partial_function (option) download_loop ::
    "('n, 'u) download_env \<Rightarrow> 'u \<Rightarrow> storage_layout \<Rightarrow> 'n world \<Rightarrow> retry_state \<Rightarrow> 'u session option \<Rightarrow>
     ('n world \<times> ('u download_error + path)) option" where
  "download_loop env u layout w retries session =
     Option.bind (attempt env w u layout session) (\<lambda>(w1, session1, result).
       case result of
         Ok path \<Rightarrow> Some (w1, Ok path)
       | Err e \<Rightarrow>
           (case transient_kind_of e of
              None \<Rightarrow> Some (settle w1 session1, Err e)
            | Some kind \<Rightarrow>
                (let (retries1, failures) = record_failure retries (dn_origin env u) in
                 case decide (dn_policy env) (dn_clock env (wo_net w1)) kind (saturating_sub failures 1)
                        (retry_after_of e) of
                   GiveUp \<Rightarrow> Some (settle w1 session1, Err e)
                 | RetryAfter delay \<Rightarrow>
                     (let (w2, session2) = prepare_retry w1 session1 in
                      download_loop env u layout (sleep_for env w2 delay) retries1 session2))))"

declare download_loop.simps [code]

definition download ::
    "('n, 'u) download_env \<Rightarrow> 'n world \<Rightarrow> 'u \<Rightarrow> storage_layout \<Rightarrow> ('n world \<times> ('u download_error + path)) option" where
  "download env w u layout = download_loop env u layout w (\<lambda>_. None) None"

section \<open>What a session keeps true\<close>

text \<open>The names a download may use besides the final one.\<close>

definition artifact_name :: "storage_layout \<Rightarrow> path \<Rightarrow> bool" where
  "artifact_name layout p = ((\<exists>q. p = q @ ''.dppart'') \<or> (\<exists>tid. p = journal_path_for (sl_journal_dir layout) tid))"

definition names_kept :: "storage_layout \<Rightarrow> directory \<Rightarrow> directory \<Rightarrow> bool" where
  "names_kept layout d d' = (\<forall>p. \<not> artifact_name layout p \<longrightarrow> d_now d' p = d_now d p)"

lemma names_kept_refl [simp]: "names_kept layout d d"
  by (simp add: names_kept_def)

lemma names_kept_trans: "names_kept layout a b \<Longrightarrow> names_kept layout b c \<Longrightarrow> names_kept layout a c"
  by (simp add: names_kept_def)

lemma names_kept_now: "d_now d' = d_now d \<Longrightarrow> names_kept layout d d'"
  by (simp add: names_kept_def)

lemma artifact_part [simp]: "artifact_name layout (q @ ''.dppart'')"
  by (auto simp: artifact_name_def)

lemma artifact_journal [simp]: "artifact_name layout (journal_path_for (sl_journal_dir layout) tid)"
  by (auto simp: artifact_name_def)

text \<open>
  A sink made for a representation of length \<open>len\<close> that will get the name \<open>fp\<close>: its files are where the
  artifacts say, and a journalled one keeps the writer's invariant.
\<close>

definition sink_good :: "sink_env \<Rightarrow> storage_layout \<Rightarrow> u64 option \<Rightarrow> path \<Rightarrow> storage_sink \<Rightarrow> bool" where
  "sink_good env layout len fp ss =
     (af_part_path (ss_artifacts ss) = fp @ ''.dppart'' \<and>
      (case len of
         Some n \<Rightarrow> (\<exists>h tid. fh_total_length h = n \<and> sink_inv env h ss \<and>
           af_journal_path (ss_artifacts ss) = Some (journal_path_for (sl_journal_dir layout) tid))
       | None \<Rightarrow> (\<exists>part. ss_backing ss = Some (Lengthless part)) \<and> af_journal_path (ss_artifacts ss) = None))"

lemma lengthless_calls:
  assumes "ss_backing ss = Some (Lengthless part)"
  shows "\<exists>part'. ss_backing (fst (ss_write_at env ss off bs)) = Some (Lengthless part')"
    and "\<exists>part'. ss_backing (fst (ss_sync env ss)) = Some (Lengthless part')"
  using assms
  by (auto simp: ss_write_backing ss_sync_backing backing_write_def backing_sync_def split: option.splits prod.splits sum.splits)

lemma call_keeps:
  "ss_artifacts (fst (ss_write_at env ss off bs)) = ss_artifacts ss" "ss_dir (fst (ss_write_at env ss off bs)) = ss_dir ss"
  "ss_artifacts (fst (ss_sync env ss)) = ss_artifacts ss" "ss_dir (fst (ss_sync env ss)) = ss_dir ss"
  using run_call_keeps [of env ss "CallWrite off bs"] run_call_keeps [of env ss CallSync] by simp_all

lemma sink_good_calls:
  assumes "digest32 (dl_blake3 (se_lib env))" and "sink_good env layout len fp ss"
  shows "sink_good env layout len fp (fst (ss_write_at env ss off bs))" "sink_good env layout len fp (fst (ss_sync env ss))"
proof -
  show "sink_good env layout len fp (fst (ss_write_at env ss off bs))"
  proof (cases len)
    case None
    then show ?thesis
      using assms(2) lengthless_calls(1) [of ss _ env off bs] by (auto simp: sink_good_def call_keeps)
  next
    case (Some n)
    then show ?thesis
      using assms(2) run_call_inv [OF assms(1), of _ ss "CallWrite off bs"] by (auto simp: sink_good_def call_keeps)
  qed
  show "sink_good env layout len fp (fst (ss_sync env ss))"
  proof (cases len)
    case None
    then show ?thesis
      using assms(2) lengthless_calls(2) [of ss _ env] by (auto simp: sink_good_def call_keeps)
  next
    case (Some n)
    then show ?thesis
      using assms(2) run_call_inv [OF assms(1), of _ ss CallSync] by (auto simp: sink_good_def call_keeps)
  qed
qed

text \<open>A property of the target that writes keep is kept by a whole fetch.\<close>

lemma sink_accept_keeps:
  assumes "\<And>t off bs. P t \<Longrightarrow> P (fst (tg_write_at T t off bs))" and "P (sk_target sk)"
  shows "P (sk_target (fst (sink_accept T sk bs)))"
  using assms(1) [OF assms(2)]
  by (auto simp: sink_accept_def assms(2) split: option.split prod.splits sum.split)
     (metis fst_conv)+

lemma fetch_loop_keeps:
  assumes step: "\<And>t off bs. P t \<Longrightarrow> P (fst (tg_write_at T t off bs))"
  shows "P (sk_target sk) \<Longrightarrow> P (sk_target (fst (fetch_loop T u ty promised delivered sk es)))"
proof (induction es arbitrary: delivered sk)
  case (Cons e es)
  show ?case
  proof (cases e)
    case (BodyChunk c)
    obtain sk1 r1 where a: "sink_accept T sk c = (sk1, r1)"
      by (cases "sink_accept T sk c")
    have "P (sk_target sk1)"
      using sink_accept_keeps [of P T sk c] step Cons.prems a by simp
    then show ?thesis
      using Cons a by (cases r1) (auto simp: BodyChunk split: sink_error.split)
  qed (use Cons.prems in simp_all)
qed simp

lemma fetch_range_keeps:
  assumes "\<And>t off bs. P t \<Longrightarrow> P (fst (tg_write_at T t off bs))" and "P (sk_target sk)"
    and "fetch_range env T n request sk = (n', sk', res)"
  shows "P (sk_target sk')"
proof -
  have "sk' = sk \<or> (\<exists>ty promised body. sk' = fst (fetch_loop T (rq_url request) ty promised 0 sk body))"
    using assms(3) by (auto simp: fetch_range_def Let_def split: prod.splits sum.splits send_error.splits) (metis fst_conv)+
  then show ?thesis
    using assms(2) fetch_loop_keeps [of P T sk, OF assms(1)] by metis
qed

text \<open>What completion does to the names, with and without a known length.\<close>

definition named_file :: "u64 option \<Rightarrow> directory \<Rightarrow> path \<Rightarrow> bool" where
  "named_file len d p =
     (\<exists>i. d_now d p = Some i \<and>
        (case len of
           Some n \<Rightarrow> length (f_cache (d_nodes d i)) = unat n \<and> take (unat n) (f_stable (d_nodes d i)) = f_cache (d_nodes d i)
         | None \<Rightarrow> True))"

lemma attach_now [simp]: "d_now (attach ss b) = d_now (ss_dir ss)"
  by (simp add: attach_def)

lemma sink_good_complete:
  assumes good: "sink_good env layout len fp ss" and cuts: "delivers (se_cuts env)"
    and apart: "\<And>tid. fp \<noteq> journal_path_for (sl_journal_dir layout) tid"
    and c: "ss_complete env ss fp = (ss', res)"
  shows "case res of
      Err e \<Rightarrow> names_kept layout (ss_dir ss) (ss_dir ss') \<and> ss_artifacts ss' = ss_artifacts ss
    | Ok sealed \<Rightarrow> named_file len (ss_dir ss') fp \<and>
        (\<forall>p. p \<noteq> fp \<and> \<not> artifact_name layout p \<longrightarrow> d_now (ss_dir ss') p = d_now (ss_dir ss) p)"
proof (cases len)
  case (Some n)
  obtain h tid where h: "fh_total_length h = n" "sink_inv env h ss"
    and j: "af_journal_path (ss_artifacts ss) = Some (journal_path_for (sl_journal_dir layout) tid)"
    and pp: "af_part_path (ss_artifacts ss) = fp @ ''.dppart''"
    using good Some by (auto simp: sink_good_def)
  show ?thesis
  proof (cases res)
    case (Inl e)
    then show ?thesis
      using ss_complete_facts [OF h(2) cuts j apart c] by (simp add: names_kept_now)
  next
    case (Inr sealed)
    obtain i where i: "d_now (ss_dir ss') fp = Some i"
      "length (f_cache (d_nodes (ss_dir ss') i)) = unat n"
      "take (unat n) (f_stable (d_nodes (ss_dir ss') i)) = f_cache (d_nodes (ss_dir ss') i)"
      and q: "\<And>q. q \<notin> {fp, fp @ ''.dppart'', journal_path_for (sl_journal_dir layout) tid} \<Longrightarrow>
        d_now (ss_dir ss') q = d_now (ss_dir ss) q"
      using ss_complete_facts [OF h(2) cuts j apart c] Inr h(1) pp by (auto simp: Let_def)
    have "d_now (ss_dir ss') p = d_now (ss_dir ss) p" if "p \<noteq> fp" "\<not> artifact_name layout p" for p
    proof -
      have "p \<noteq> fp @ ''.dppart''" "p \<noteq> journal_path_for (sl_journal_dir layout) tid"
        using that(2) by auto
      then show ?thesis
        using that(1) q by simp
    qed
    then show ?thesis
      using i Inr Some by (auto simp: named_file_def)
  qed
next
  case None
  obtain part where b: "ss_backing ss = Some (Lengthless part)" "af_journal_path (ss_artifacts ss) = None"
    and pp: "af_part_path (ss_artifacts ss) = fp @ ''.dppart''"
    using good None by (auto simp: sink_good_def)
  obtain d1 r where rn: "fs_rename (attach ss (Lengthless part)) (fp @ ''.dppart'') fp = (d1, r)"
    by (cases "fs_rename (attach ss (Lengthless part)) (fp @ ''.dppart'') fp")
  have ss': "ss_dir ss' = d1 \<and> ss_artifacts ss' = ss_artifacts ss \<and> (isl res \<longleftrightarrow> isl r)"
    using c b pp rn by (cases r) (auto simp: ss_complete_def backing_complete_def)
  show ?thesis
  proof (cases r)
    case (Inl e)
    then show ?thesis
      using fs_rename_result(2) [OF rn] ss' by (auto simp: names_kept_now split: sum.splits)
  next
    case (Inr u)
    obtain i where "d_now (ss_dir ss) (fp @ ''.dppart'') = Some i"
      using rn Inr dir_fault_keeps by (fastforce simp: fs_rename_def split: prod.splits fault.splits option.splits)
    moreover have "d_now d1 = (d_now (ss_dir ss))(fp @ ''.dppart'' := None, fp := d_now (ss_dir ss) (fp @ ''.dppart''))"
      using fs_rename_result(3) [OF rn Inr] by simp
    ultimately show ?thesis
      using ss' Inr None by (auto simp: named_file_def split: sum.splits)
  qed
qed

definition session_good :: "('n, 'u) download_env \<Rightarrow> storage_layout \<Rightarrow> directory \<Rightarrow> 'u remote_object \<Rightarrow> 'u session \<Rightarrow> bool" where
  "session_good env layout d0 remote held =
     (sink_good (dn_sink env) layout (hs_total_length held) (hs_final_path held) (sk_target (hs_sink held)) \<and>
      hs_total_length held = rem_total_length remote \<and> hs_artifacts held = ss_artifacts (sk_target (hs_sink held)) \<and>
      hs_final_path held = target_path layout remote \<and>
      names_kept layout d0 (held_dir held) \<and> (artifact_name layout (hs_final_path held) \<or> d_now d0 (hs_final_path held) = None))"

text \<open>What an attempt leaves: a file under its final name, or the names as they were.\<close>

definition attempt_post ::
    "('n, 'u) download_env \<Rightarrow> storage_layout \<Rightarrow> directory \<Rightarrow> 'u remote_object \<Rightarrow>
     'n world \<times> 'u session option \<times> ('u download_error + path) \<Rightarrow> bool" where
  "attempt_post env layout d0 remote out =
     (case out of (w, session, res) \<Rightarrow>
        (case session of
           None \<Rightarrow> \<not> isl res \<or> names_kept layout d0 (wo_dir w)
         | Some held \<Rightarrow> isl res \<and> names_kept layout d0 (held_dir held)) \<and>
        (case res of
           Err e \<Rightarrow> (\<forall>held. session = Some held \<and> transient_kind_of e \<noteq> None \<longrightarrow> session_good env layout d0 remote held)
         | Ok p \<Rightarrow> p = target_path layout remote \<and>
             named_file (rem_total_length remote) (wo_dir w) p \<and>
             (artifact_name layout p \<or> d_now d0 p = None) \<and>
             (\<forall>q. q \<noteq> p \<and> \<not> artifact_name layout q \<longrightarrow> d_now (wo_dir w) q = d_now d0 q)))"

abbreviation sound_env :: "('n, 'u) download_env \<Rightarrow> storage_layout \<Rightarrow> bool" where
  "sound_env env layout \<equiv>
     digest32 (dl_blake3 (se_lib (dn_sink env))) \<and> delivers (se_cuts (dn_sink env)) \<and>
     (\<forall>name tid. path_join (sl_target_dir layout) name \<noteq> journal_path_for (sl_journal_dir layout) tid)"

lemma run_session_post:
  assumes env: "sound_env env layout" and good: "session_good env layout d0 remote held"
  shows "attempt_post env layout d0 remote (run_session env w held request)"
proof -
  let ?T = "storage_target (dn_sink env)" and ?fp = "hs_final_path held" and ?len = "hs_total_length held"
  let ?P = "\<lambda>ss. sink_good (dn_sink env) layout ?len ?fp ss \<and> ss_artifacts ss = hs_artifacts held \<and> ss_dir ss = held_dir held"
  have w: "?P (fst (tg_write_at ?T t off bs))" if "?P t" for t off bs
    using that sink_good_calls(1) env by (simp add: storage_target_def call_keeps)
  have s: "?P (fst (ss_sync (dn_sink env) t))" if "?P t" for t
    using that sink_good_calls(2) env by (simp add: call_keeps)
  obtain n1 sk1 fetched where f: "fetch_range (dn_http env) ?T (wo_net w) request (hs_sink held) = (n1, sk1, fetched)"
    by (metis prod.exhaust)
  obtain t2 synced where sy: "ss_sync (dn_sink env) (sk_target sk1) = (t2, synced)"
    by (cases "ss_sync (dn_sink env) (sk_target sk1)")
  have "?P (sk_target (hs_sink held))"
    using good unfolding session_good_def by metis
  then have "?P (sk_target sk1)"
    using fetch_range_keeps [of ?P ?T "hs_sink held", OF w _ f] by blast
  then have p2: "?P t2"
    using s [of "sk_target sk1"] sy by simp
  let ?sk2 = "sk1\<lparr>sk_target := t2\<rparr>"
  have g2: "session_good env layout d0 remote (held\<lparr>hs_sink := ?sk2, hs_last_observed_status := st\<rparr>)"
    "session_good env layout d0 remote (held\<lparr>hs_sink := ?sk2\<rparr>)" for st
    using good p2 by (auto simp: session_good_def)
  have k2: "names_kept layout d0 (ss_dir t2)"
    using g2(2) by (simp add: session_good_def)
  obtain t3 named where c: "ss_complete (dn_sink env) t2 ?fp = (t3, named)"
    by (cases "ss_complete (dn_sink env) t2 ?fp")
  have C: "case named of
      Err e \<Rightarrow> names_kept layout (ss_dir t2) (ss_dir t3) \<and> ss_artifacts t3 = ss_artifacts t2
    | Ok sealed \<Rightarrow> named_file ?len (ss_dir t3) ?fp \<and>
        (\<forall>p. p \<noteq> ?fp \<and> \<not> artifact_name layout p \<longrightarrow> d_now (ss_dir t3) p = d_now (ss_dir t2) p)"
    using sink_good_complete [of "dn_sink env" layout ?len ?fp t2 t3 named] p2 env c good by (simp add: session_good_def target_path_def)
  have S: "sink_sync ?T sk1 = (?sk2, synced)" "sink_verify_and_rename ?T ?sk2 ?fp = (?sk2\<lparr>sk_target := t3\<rparr>, map_ok (\<lambda>_. ()) named)"
    using sy c by (simp_all add: sink_sync_def sink_verify_and_rename_def storage_target_def ss_verify_and_rename_def)
  show ?thesis
    using g2 k2 C good names_kept_trans [OF k2]
    unfolding run_session_def Let_def f S prod.case
    by (cases synced; cases fetched; cases named)
       (auto simp: attempt_post_def session_good_def names_kept_def)
qed

lemma create_part_now: "create_part env d target n = (d1, r) \<Longrightarrow> q \<noteq> target @ ''.dppart'' \<Longrightarrow> d_now d1 q = d_now d q"
  by (auto simp: create_part_def part_path_for_def dest: fs_create_new_Ok(1) fs_create_new_Err
      split: sum.splits if_splits prod.splits)

lemma create_growable_now: "create_growable_part d target = (d1, r) \<Longrightarrow> q \<noteq> target @ ''.dppart'' \<Longrightarrow> d_now d1 q = d_now d q"
  by (auto simp: create_growable_part_def part_path_for_def dest: fs_create_new_Ok(1) fs_create_new_Err
      split: sum.splits if_splits prod.splits)

lemma ss_create_names:
  assumes "ss_create env d clock target (sl_journal_dir layout) len tid vh dg = (d', r)"
  shows "names_kept layout d d'" and "r = Ok ss \<Longrightarrow> ss_dir ss = d'"
proof -
  let ?p = "journal_path_for (sl_journal_dir layout) tid"
  obtain d1 c where c: "create_part env d target (the len) = (d1, c)"
    by (cases "create_part env d target (the len)")
  obtain d2 g where g: "create_growable_part d target = (d2, g)"
    by (cases "create_growable_part d target")
  obtain d3 j where j: "create_or_replace_journal env d1 ?p (sink_header (the len) tid vh) = (d3, j)"
    by (cases "create_or_replace_journal env d1 ?p (sink_header (the len) tid vh)")
  have "d' = d1 \<or> d' = d2 \<or> d' = d3"
    using assms c g j by (auto simp: ss_create_def Let_def split: option.splits sum.splits)
  then show "names_kept layout d d'"
    using create_part_now [OF c] create_growable_now [OF g] create_or_replace_result(1) [OF j]
    unfolding names_kept_def by (metis artifact_part artifact_journal)
  show "r = Ok ss \<Longrightarrow> ss_dir ss = d'"
    using assms c g j by (auto simp: ss_create_def Let_def map_ok_eq_Ok split: option.splits sum.splits)
qed

lemma ss_create_good:
  assumes "digest32 (dl_blake3 (se_lib env))" "length tid = 16" "length vh = 32"
    and "ss_create env d clock target (sl_journal_dir layout) len tid vh dg = (d', Ok ss)"
  shows "sink_good env layout len target ss"
proof (cases len)
  case (Some n)
  note C = ss_create_inv [OF assms(2,3) assms(4) [unfolded Some]]
  show ?thesis
    unfolding sink_good_def Some using C(1,2) by (auto intro: exI [of _ "sink_header n tid vh"])
next
  case None
  then show ?thesis
    using assms(4)
    by (auto simp: ss_create_def create_growable_part_def pf_create_growable_def part_path_for_def and_then_def
        sink_good_def map_ok_eq_Ok split: sum.splits prod.splits if_splits)
qed

lemma fs_symlink_metadata_now:
  assumes "fs_symlink_metadata d p = (d1, r)"
  shows "d_now d1 = d_now d" and "r = Err e \<Longrightarrow> io_kind_of e = IoNotFound \<Longrightarrow> d_now d p = None"
proof -
  obtain x d0 where f: "dir_fault d = (x, d0)"
    by (cases "dir_fault d")
  show "d_now d1 = d_now d" "r = Err e \<Longrightarrow> io_kind_of e = IoNotFound \<Longrightarrow> d_now d p = None"
    using assms dir_fault_keeps [OF f] f by (auto simp: fs_symlink_metadata_def Let_def split: fault.splits if_splits)
qed

lemma identity_lengths:
  assumes "digest32 blake3"
  shows "length (transfer_id_for blake3 u) = 16" "length (validator_hash_of blake3 v) = 32"
  using assms by (auto simp: digest32_def transfer_id_for_def) (cases v; simp)

lemma start_session_post:
  assumes env: "sound_env env layout" and kept: "names_kept layout d0 (wo_dir w)"
  shows "attempt_post env layout d0 remote (start_session env w layout remote)"
proof -
  let ?fp = "target_path layout remote" and ?b3 = "dl_blake3 (se_lib (dn_sink env))"
  obtain d1 occupied where o: "fs_symlink_metadata (wo_dir w) ?fp = (d1, occupied)"
    by (cases "fs_symlink_metadata (wo_dir w) ?fp")
  note O = fs_symlink_metadata_now [OF o]
  have k1: "names_kept layout d0 d1"
    using kept O(1) by (simp add: names_kept_def)
  show ?thesis
  proof (cases "\<exists>e. occupied = Err e \<and> io_kind_of e = IoNotFound")
    case False
    then show ?thesis
      using k1 by (auto simp: start_session_def Let_def o attempt_post_def split: sum.split)
  next
    case True
    then have free: "d_now (wo_dir w) ?fp = None"
      using O(2) by blast
    obtain d2 made where m: "ss_create (dn_sink env) d1 (dn_ticks env (wo_net w)) ?fp (sl_journal_dir layout)
        (rem_total_length remote) (transfer_id_for ?b3 (dn_as_str env (rem_final_url remote)))
        (validator_hash_of ?b3 (rem_validator remote)) (rem_digest remote) = (d2, made)"
      by (metis prod.exhaust)
    have k2: "names_kept layout d0 d2"
      using names_kept_trans [OF k1 ss_create_names(1) [OF m]] .
    show ?thesis
    proof (cases made)
      case (Inl e)
      then show ?thesis
        using True k2 by (auto simp: start_session_def Let_def o m attempt_post_def)
    next
      case (Inr target)
      let ?held = "\<lparr>hs_sink = sink_new target 0 (rem_total_length remote), hs_validator = rem_validator remote,
          hs_recorded = remote, hs_final_url = rem_final_url remote, hs_total_length = rem_total_length remote,
          hs_final_path = ?fp, hs_artifacts = ss_artifacts target, hs_last_observed_status = None\<rparr>"
      have "sink_good (dn_sink env) layout (rem_total_length remote) ?fp target"
        using ss_create_good [OF _ identity_lengths m [unfolded Inr]] env by blast
      moreover have "ss_dir target = d2"
        using ss_create_names(2) [OF m Inr] .
      moreover have "artifact_name layout ?fp \<or> d_now d0 ?fp = None"
        using free kept by (auto simp: names_kept_def)
      ultimately have "session_good env layout d0 remote ?held"
        using k2 by (simp add: session_good_def sink_new_def)
      from run_session_post [OF env this] show ?thesis
        using True by (auto simp: start_session_def Let_def o m Inr)
    qed
  qed
qed

lemma dropped_now [simp]: "d_now (dropped_dir held) = d_now (held_dir held)"
  by (simp add: dropped_dir_def split: option.split)

lemma continue_session_post:
  assumes "sound_env env layout" and "session_good env layout d0 remote held"
  shows "attempt_post env layout d0 remote (continue_session env w held)"
proof (cases "if_range_value (hs_validator held)")
  case None
  then show ?thesis
    using assms(2) by (auto simp: continue_session_def Let_def attempt_post_def session_good_def)
next
  case (Some v)
  have "session_good env layout d0 remote (held\<lparr>hs_sink := rebase (hs_sink held) from_byte lim\<rparr>)" for from_byte lim
    using assms(2) by (auto simp: session_good_def rebase_def)
  then show ?thesis
    using run_session_post [OF assms(1)] Some by (simp add: continue_session_def Let_def)
qed

definition described :: "('n, 'u) download_env \<Rightarrow> 'u \<Rightarrow> 'u remote_object \<Rightarrow> bool" where
  "described env u remote = (\<exists>n n'. probe (dn_http env) n (probe_request_new u) = Some (n', Ok remote))"

lemma probe_new_returns: "\<exists>n' r. probe env n (probe_request_new u) = Some (n', r)"
  using probe_loop_returns [of "probe_request_new u" 0 "[u]" u env n True]
  by (auto simp: probe_def probe_request_new_def)

lemma resume_session_post:
  assumes env: "sound_env env layout" and good: "session_good env layout d0 remote held"
  shows "\<exists>out. resume_session env w held = Some out \<and> attempt_post env layout d0 remote out"
proof (cases "is_required (dn_freshness env) (resume_plan_of env w held)")
  case False
  then show ?thesis
    using continue_session_post [OF assms] by (simp add: resume_session_def)
next
  case True
  obtain n1 probed where p: "probe (dn_http env) (wo_net w) (probe_request_new (hs_final_url held)) = Some (n1, probed)"
    using probe_new_returns [of "dn_http env" "wo_net w" "hs_final_url held"] by blast
  have again: "session_good env layout d0 remote (held\<lparr>hs_final_url := x, hs_recorded := y, hs_last_observed_status := None\<rparr>)" for x y
    using good by (auto simp: session_good_def)
  have drop: "names_kept layout d0 (dropped_dir held)"
    using good by (simp add: session_good_def names_kept_def)
  show ?thesis
    using True p again drop continue_session_post [OF env again]
    by (auto simp: resume_session_def refresh_capabilities_def attempt_post_def Let_def split: sum.split)
qed

lemma attempt_post_attempt:
  assumes env: "sound_env env layout"
    and session: "case session of None \<Rightarrow> names_kept layout d0 (wo_dir w)
      | Some held \<Rightarrow> \<exists>remote. described env u remote \<and> session_good env layout d0 remote held"
  shows "\<exists>out. attempt env w u layout session = Some out \<and>
    ((\<exists>remote. described env u remote \<and> attempt_post env layout d0 remote out) \<or>
     (\<exists>w1 e. out = (w1, None, Err e) \<and> names_kept layout d0 (wo_dir w1)))"
proof (cases session)
  case (Some held)
  then obtain remote where r: "described env u remote" "session_good env layout d0 remote held"
    using session by auto
  show ?thesis
    using resume_session_post [OF env r(2), of w] r(1) Some by (auto simp: attempt_def)
next
  case None
  obtain n1 probed where p: "probe (dn_http env) (wo_net w) (probe_request_new u) = Some (n1, probed)"
    using probe_new_returns [of "dn_http env" "wo_net w" u] by blast
  show ?thesis
  proof (cases probed)
    case (Inl e)
    then show ?thesis
      using None p session by (auto simp: attempt_def)
  next
    case (Inr remote)
    then have "described env u remote"
      using p by (auto simp: described_def)
    then show ?thesis
      using None p session Inr start_session_post [OF env, of d0 "w\<lparr>wo_net := n1\<rparr>" remote] by (auto simp: attempt_def)
  qed
qed

section \<open>The loop\<close>

definition download_post ::
    "('n, 'u) download_env \<Rightarrow> storage_layout \<Rightarrow> directory \<Rightarrow> 'u \<Rightarrow> 'n world \<Rightarrow> 'u download_error + path \<Rightarrow> bool" where
  "download_post env layout d0 u w res =
     (case res of
        Err e \<Rightarrow> names_kept layout d0 (wo_dir w)
      | Ok p \<Rightarrow> \<exists>remote. described env u remote \<and> p = target_path layout remote \<and>
          named_file (rem_total_length remote) (wo_dir w) p \<and> (artifact_name layout p \<or> d_now d0 p = None) \<and>
          (\<forall>q. q \<noteq> p \<and> \<not> artifact_name layout q \<longrightarrow> d_now (wo_dir w) q = d_now d0 q))"

lemma remove_artifacts_names:
  assumes "hs_artifacts held = ss_artifacts (sk_target (hs_sink held))"
    and "sink_good env layout len fp (sk_target (hs_sink held))"
  shows "names_kept layout d (remove_artifacts d (hs_artifacts held))"
proof -
  let ?a = "hs_artifacts held"
  have pp: "artifact_name layout (af_part_path ?a)" and jp: "af_journal_path ?a = Some j \<Longrightarrow> artifact_name layout j" for j
    using assms by (auto simp: sink_good_def artifact_name_def split: option.splits)
  have rm: "d_now (fst (fs_remove_file x q)) p = d_now x p" if "artifact_name layout q" "\<not> artifact_name layout p" for x q p
    using fs_remove_file_now [of x q "fst (fs_remove_file x q)" _ p] that by (metis prod.collapse)
  show ?thesis
    using pp jp rm by (auto simp: remove_artifacts_def names_kept_def Let_def split: option.split)
qed

text \<open>Before another round, the session is still good or its files are gone.\<close>

lemma prepare_retry_post:
  assumes "session = None \<Longrightarrow> names_kept layout d0 (wo_dir w)"
    and "\<And>held. session = Some held \<Longrightarrow> session_good env layout d0 remote held"
    and "prepare_retry w session = (w2, session2)"
  shows "case session2 of None \<Rightarrow> names_kept layout d0 (wo_dir w2) | Some held \<Rightarrow> session_good env layout d0 remote held"
proof (cases session)
  case None
  then show ?thesis
    using assms by (auto simp: prepare_retry_def resumable_def)
next
  case (Some held)
  have g: "session_good env layout d0 remote held"
    using assms(2) [OF Some] .
  have "names_kept layout d0 (dropped_dir held)"
    using g by (simp add: session_good_def names_kept_def)
  moreover have "names_kept layout (dropped_dir held) (remove_artifacts (dropped_dir held) (hs_artifacts held))"
    using g remove_artifacts_names [of held] unfolding session_good_def by blast
  ultimately have "names_kept layout d0 (remove_artifacts (dropped_dir held) (hs_artifacts held))"
    by (rule names_kept_trans)
  then show ?thesis
    using g assms(3) Some by (auto simp: prepare_retry_def settle_def split: if_splits)
qed

lemma record_failure_index:
  assumes "pol_max_retries pol \<noteq> - 1" and "record_failure st origin = (st1, failures)"
    and "decide pol ck kind (saturating_sub failures 1) hdr = RetryAfter delay"
  shows "unat (attempts st1 origin) = Suc (unat (attempts st origin))" "unat (attempts st origin) < unat (pol_max_retries pol)"
proof -
  let ?a = "attempts st origin" and ?m = "pol_max_retries pol"
  have f: "failures = saturating_add ?a 1" "attempts st1 origin = failures"
    using assms(2) by (auto simp: record_failure_def attempts_def Let_def)
  have lt: "saturating_sub failures 1 < ?m"
    using assms(3) by (auto simp: decide_def not_le split: if_splits)
  have m: "unat ?m < 2 ^ 32 - 1"
  proof -
    have "unat ?m \<noteq> unat (- 1 :: u32)"
      using assms(1) by (simp add: word_unat_eq_iff [symmetric])
    then show ?thesis
      using unat_lt_2p [of ?m] by (simp add: unsigned_minus_1_eq_mask mask_eq_exp_minus_1)
  qed
  have uf: "unat failures = min (unat ?a + 1) (2 ^ 32 - 1)"
    using unat_lt_2p [of ?a] by (simp add: f(1) unat_saturating_add min_def)
  have "unat (saturating_sub failures 1) = unat failures - 1"
    by (simp add: unat_saturating_sub)
  then have "unat failures - 1 < unat ?m"
    using lt by (simp add: word_less_nat_alt)
  then have "unat ?a < unat ?m \<and> unat failures = unat ?a + 1"
    using uf m unat_lt_2p [of ?a] by (auto simp: min_def split: if_splits)
  then show "unat (attempts st1 origin) = Suc (unat ?a)" "unat ?a < unat ?m"
    using f(2) by simp_all
qed

lemma settle_names:
  assumes "case session of None \<Rightarrow> names_kept layout d0 (wo_dir w) | Some held \<Rightarrow> names_kept layout d0 (held_dir held)"
  shows "names_kept layout d0 (wo_dir (settle w session))"
  using assms by (cases session) (simp_all add: settle_def names_kept_def)

lemma download_loop_post:
  assumes max: "pol_max_retries (dn_policy env) \<noteq> - 1" and env: "sound_env env layout"
    and session: "case session of None \<Rightarrow> names_kept layout d0 (wo_dir w)
      | Some held \<Rightarrow> \<exists>remote. described env u remote \<and> session_good env layout d0 remote held"
  shows "\<exists>w' r. download_loop env u layout w retries session = Some (w', r) \<and> download_post env layout d0 u w' r"
  using session
proof (induction "unat (pol_max_retries (dn_policy env)) - unat (attempts retries (dn_origin env u))"
    arbitrary: w retries session rule: less_induct)
  case less
  obtain out where out: "attempt env w u layout session = Some out"
    "(\<exists>remote. described env u remote \<and> attempt_post env layout d0 remote out) \<or>
     (\<exists>w1 e. out = (w1, None, Err e) \<and> names_kept layout d0 (wo_dir w1))"
    using attempt_post_attempt [OF env less.prems] by blast
  obtain w1 session1 result where o: "out = (w1, session1, result)"
    by (metis prod.exhaust)
  note at = out(1) [unfolded o]
  have post: "(\<exists>remote. described env u remote \<and> attempt_post env layout d0 remote (w1, session1, result)) \<or>
      (\<exists>e. session1 = None \<and> result = Err e \<and> names_kept layout d0 (wo_dir w1))"
    using out(2) o by blast
  show ?case
  proof (cases result)
    case (Inr p)
    then obtain remote where "described env u remote" "attempt_post env layout d0 remote (w1, session1, Ok p)"
      using post by auto
    then have "download_post env layout d0 u w1 (Ok p)"
      by (auto simp: attempt_post_def download_post_def)
    then show ?thesis
      by (subst download_loop.simps) (simp add: at Inr)
  next
    case (Inl e)
    have kept: "case session1 of None \<Rightarrow> names_kept layout d0 (wo_dir w1) | Some held \<Rightarrow> names_kept layout d0 (held_dir held)"
      using post Inl by (auto simp: attempt_post_def split: option.splits)
    have stop: "download_post env layout d0 u (settle w1 session1) (Err e)"
      using settle_names [OF kept] by (simp add: download_post_def)
    obtain retries1 failures where rf: "record_failure retries (dn_origin env u) = (retries1, failures)"
      by (cases "record_failure retries (dn_origin env u)")
    obtain w2 session2 where pr: "prepare_retry w1 session1 = (w2, session2)"
      by (cases "prepare_retry w1 session1")
    have again: "\<exists>w' r. download_loop env u layout (sleep_for env w2 delay) retries1 session2 = Some (w', r) \<and>
        download_post env layout d0 u w' r"
      if kind: "transient_kind_of e = Some kind"
        and dec: "decide (dn_policy env) (dn_clock env (wo_net w1)) kind (saturating_sub failures 1) (retry_after_of e) = RetryAfter delay"
      for kind delay
    proof (rule less.hyps)
      show "unat (pol_max_retries (dn_policy env)) - unat (attempts retries1 (dn_origin env u))
          < unat (pol_max_retries (dn_policy env)) - unat (attempts retries (dn_origin env u))"
        using record_failure_index [OF max rf dec] by simp
      have "case session2 of None \<Rightarrow> names_kept layout d0 (wo_dir w2)
          | Some held \<Rightarrow> \<exists>remote. described env u remote \<and> session_good env layout d0 remote held"
      proof (cases "\<exists>held. session1 = Some held")
        case True
        then obtain held remote where "session1 = Some held" "described env u remote"
          "attempt_post env layout d0 remote (w1, session1, Err e)"
          using post Inl by auto
        then show ?thesis
          using prepare_retry_post [OF _ _ pr, of layout d0 env remote] kind
          by (auto simp: attempt_post_def split: option.splits)
      next
        case False
        then show ?thesis
          using kept pr by (auto simp: prepare_retry_def resumable_def)
      qed
      then show "case session2 of None \<Rightarrow> names_kept layout d0 (wo_dir (sleep_for env w2 delay))
          | Some held \<Rightarrow> \<exists>remote. described env u remote \<and> session_good env layout d0 remote held"
        by (simp add: sleep_for_def cong: option.case_cong)
    qed
    show ?thesis
      by (subst download_loop.simps)
         (use again stop in \<open>simp add: at Inl rf pr split: option.split retry_decision.split\<close>)
  qed
qed

section \<open>Properties\<close>

text \<open>
  C11.  A download always ends.  Whatever the network, the disk and the clock do, \<open>download\<close> returns a path or an
  error, provided the retry budget is below \<open>u32::MAX\<close> (the default is five).
\<close>

theorem download_returns:
  assumes "pol_max_retries (dn_policy env) \<noteq> - 1" and "digest32 (dl_blake3 (se_lib (dn_sink env)))"
    and "delivers (se_cuts (dn_sink env))"
    and "\<forall>name tid. path_join (sl_target_dir layout) name \<noteq> journal_path_for (sl_journal_dir layout) tid"
  shows "\<exists>w' r. download env w u layout = Some (w', r)"
  using download_loop_post [OF assms(1), where session = None and layout = layout and w = w and u = u and ?d0.0 = "wo_dir w" and retries = "\<lambda>_. None"] assms(2-) by (auto simp: download_def)

text \<open>
  C5.  A download names a file only when it is whole, and touches nothing else.  If \<open>download\<close> fails, every name
  that is not a part file or a journal is what it was before.  If it returns a path, a probe of the URL
  gave the name and the length; the path was free before and now names a file of exactly that length, all
  of it on stable storage, when the length is known; and no other name besides part files and journals changed.
\<close>

theorem download_names_whole_files:
  assumes "pol_max_retries (dn_policy env) \<noteq> - 1" and "digest32 (dl_blake3 (se_lib (dn_sink env)))"
    and "delivers (se_cuts (dn_sink env))"
    and "\<forall>name tid. path_join (sl_target_dir layout) name \<noteq> journal_path_for (sl_journal_dir layout) tid"
    and "download env w u layout = Some (w', res)"
  shows "case res of
      Err e \<Rightarrow> \<forall>p. \<not> artifact_name layout p \<longrightarrow> d_now (wo_dir w') p = d_now (wo_dir w) p
    | Ok p \<Rightarrow> \<exists>remote i n n'. probe (dn_http env) n (probe_request_new u) = Some (n', Ok remote) \<and>
        p = target_path layout remote \<and> d_now (wo_dir w') p = Some i \<and>
        (artifact_name layout p \<or> d_now (wo_dir w) p = None) \<and>
        (\<forall>len. rem_total_length remote = Some len \<longrightarrow>
           length (f_cache (d_nodes (wo_dir w') i)) = unat len \<and>
           take (unat len) (f_stable (d_nodes (wo_dir w') i)) = f_cache (d_nodes (wo_dir w') i)) \<and>
        (\<forall>q. q \<noteq> p \<and> \<not> artifact_name layout q \<longrightarrow> d_now (wo_dir w') q = d_now (wo_dir w) q)"
proof -
  have "download_post env layout (wo_dir w) u w' res"
    using download_loop_post [OF assms(1), where session = None and layout = layout and w = w and u = u and ?d0.0 = "wo_dir w" and retries = "\<lambda>_. None"] assms(2-)
    by (auto simp: download_def)
  then show ?thesis
  proof (cases res)
    case (Inl e)
    then show ?thesis
      using \<open>download_post env layout (wo_dir w) u w' res\<close> by (simp add: download_post_def names_kept_def)
  next
    case (Inr p)
    then obtain remote n n' i where r: "probe (dn_http env) n (probe_request_new u) = Some (n', Ok remote)"
      "p = target_path layout remote" "d_now (wo_dir w') p = Some i"
      "case rem_total_length remote of
         Some len \<Rightarrow> length (f_cache (d_nodes (wo_dir w') i)) = unat len \<and>
           take (unat len) (f_stable (d_nodes (wo_dir w') i)) = f_cache (d_nodes (wo_dir w') i)
       | None \<Rightarrow> True"
      "artifact_name layout p \<or> d_now (wo_dir w) p = None"
      "\<forall>q. q \<noteq> p \<and> \<not> artifact_name layout q \<longrightarrow> d_now (wo_dir w') q = d_now (wo_dir w) q"
      using \<open>download_post env layout (wo_dir w) u w' res\<close>
      unfolding Inr download_post_def described_def named_file_def by auto
    then show ?thesis
      unfolding Inr sum.case
      by (intro exI [of _ remote] exI [of _ i] exI [of _ n] exI [of _ n'] conjI) (use r in auto)
  qed
qed

text \<open>A server with one two-byte file, and a quiet disk.\<close>

definition two_bytes :: http_response where
  "two_bytes =
     \<lparr>rsp_status = 200, rsp_version = Version11,
      rsp_header = (\<lambda>h. if h = ''content-length'' then Some ''2'' else None), rsp_body = [BodyChunk [5, 6]]\<rparr>"

definition plain_server :: "(unit, string) http_env" where
  "plain_server =
     \<lparr>he_execute = (\<lambda>n u hs t. (n, Ok two_bytes)), he_join = (\<lambda>u l. None),
      he_names = \<lparr>ne_path_segments = (\<lambda>_. None), ne_percent_decode = (\<lambda>_. [])\<rparr>, he_parse_mime = (\<lambda>_. None), he_now = (\<lambda>_. 0)\<rparr>"

definition plain_env :: "(unit, string) download_env" where
  "plain_env =
     \<lparr>dn_http = plain_server, dn_sink = quiet_env, dn_policy = default_policy, dn_freshness = CAPABILITY_FRESHNESS,
      dn_clock = (\<lambda>_. \<lparr>ck_parse_http_date = (\<lambda>_. None), ck_now = 0, ck_jitter = 0\<rparr>), dn_ticks = (\<lambda>_. []),
      dn_sleep = (\<lambda>n _. n), dn_as_str = (\<lambda>u. u), dn_origin = (\<lambda>u. u)\<rparr>"

definition plain_layout :: storage_layout where
  "plain_layout = \<lparr>sl_target_dir = ''t'', sl_journal_dir = ''j''\<rparr>"

definition plain_world :: "unit world" where
  "plain_world = \<lparr>wo_net = (), wo_dir = empty_dir\<rparr>"

definition plain_run :: "(unit world \<times> (string download_error + path)) option" where
  "plain_run = download plain_env plain_world ''http://h/f'' plain_layout"

lemma plain_runs: "case plain_run of None \<Rightarrow> False | Some (w, r) \<Rightarrow> r = Ok ''t/download''"
  by code_simp

lemma plain_sound: "sound_env plain_env plain_layout" "pol_max_retries (dn_policy plain_env) \<noteq> - 1"
  using quiet_digest
  by (auto simp: plain_env_def plain_layout_def path_join_def journal_path_for_def default_policy_def delivers_def quiet_env_def)

theorem download_names_whole_files_witness:
  "\<exists>w' i. download plain_env plain_world ''http://h/f'' plain_layout = Some (w', Ok ''t/download'') \<and>
     d_now (wo_dir w') ''t/download'' = Some i"
proof -
  obtain w' where d: "download plain_env plain_world ''http://h/f'' plain_layout = Some (w', Ok ''t/download'')"
    using plain_runs unfolding plain_run_def by (auto split: option.splits)
  from download_names_whole_files [OF plain_sound(2) _ _ _ d] show ?thesis
    using plain_sound(1) d by auto
qed

text \<open>A network on which every request times out.\<close>

definition dead_env :: "(unit, string) download_env" where
  "dead_env = plain_env\<lparr>dn_http := plain_server\<lparr>he_execute := (\<lambda>n u hs t. (n, Err SendTimeout))\<rparr>\<rparr>"

theorem download_returns_witness: "\<exists>w' r. download dead_env plain_world ''http://h/f'' plain_layout = Some (w', r)"
proof -
  have "pol_max_retries (dn_policy dead_env) \<noteq> - 1" "sound_env dead_env plain_layout"
    using plain_sound by (simp_all add: dead_env_def)
  then show ?thesis
    using download_returns [of dead_env plain_layout plain_world "''http://h/f''"] by blast
qed

section \<open>A lost session\<close>

text \<open>
  When the evidence is stale and the new probe fails, \<open>resume\<close> has already taken the session out of the
  driver's hands and the error drops it.  The part file stays, so a retry of even a transient failure meets it at
  the exclusive create and ends with a storage error that is not retried.
\<close>

lemma failed_reprobe_drops_session:
  assumes "is_required (dn_freshness env) (resume_plan_of env w held)"
    and "probe (dn_http env) (wo_net w) (probe_request_new (hs_final_url held)) = Some (n1, Err e)"
  shows "attempt env w u layout (Some held) = Some (\<lparr>wo_net = n1, wo_dir = dropped_dir held\<rparr>, None, Err (DeProbe e)) \<and>
    prepare_retry \<lparr>wo_net = n1, wo_dir = dropped_dir held\<rparr> (None :: 'u session option) =
      (\<lparr>wo_net = n1, wo_dir = dropped_dir held\<rparr>, None)"
  using assms by (auto simp: attempt_def resume_session_def refresh_capabilities_def prepare_retry_def resumable_def)

lemma leftover_part_ends_download:
  assumes "d_now (wo_dir w) (target_path layout remote) = None" and "d_faults (wo_dir w) = []"
    and "d_now (wo_dir w) (target_path layout remote @ ''.dppart'') = Some i" and "rem_total_length remote = Some n"
    and "unat n \<le> i64_max" and "path_file_name (target_path layout remote) \<noteq> None"
  shows "\<exists>w' s e. start_session env w layout remote = (w', s, Err (DeSink (target_path layout remote) e)) \<and>
    transient_kind_of (DeSink (target_path layout remote) e :: 'u download_error) = None"
  using assms
  by (simp add: start_session_def Let_def fs_symlink_metadata_def dir_fault_def io_new_def ss_create_def create_part_def
      part_path_for_def fs_create_new_def pf_create_def and_then_def)

end
