(* ===== verification/Metadata.thy ===== *)
theory Metadata
  imports Remote
begin

unbundle bit_operations_syntax

text \<open>
  The persistent metadata of \<open>downpour-storage/src/metadata.rs\<close> that recovery reads and writes: download
  records, stable names and codes, validation, the checkpoint cache and its CBOR preflight.  The SQL tables
  are maps from download ids, with a schedule of database failures; CBOR serialisation is not modelled, a
  checkpoint row is what decoding it gave.
\<close>

section \<open>Bounds\<close>

definition MD_FORMAT_VERSION :: u64 where "MD_FORMAT_VERSION = 1"
definition MAX_CHECKPOINT_INTERVALS :: nat where "MAX_CHECKPOINT_INTERVALS = 1000000"
definition MAX_REDIRECTS :: nat where "MAX_REDIRECTS = 64"
definition MAX_HISTORY_ENTRIES :: nat where "MAX_HISTORY_ENTRIES = 4096"
definition MAX_URL_BYTES :: nat where "MAX_URL_BYTES = 8192"
definition MAX_HEADER_BYTES :: nat where "MAX_HEADER_BYTES = 8192"
definition MAX_CONTENT_TYPE_BYTES :: nat where "MAX_CONTENT_TYPE_BYTES = 512"
definition MAX_FILENAME_BYTES :: nat where "MAX_FILENAME_BYTES = 4096"
definition MAX_SECRET_REF_BYTES :: nat where "MAX_SECRET_REF_BYTES = 256"
definition MAX_ERROR_KIND_BYTES :: nat where "MAX_ERROR_KIND_BYTES = 128"
definition MAX_PATH_BYTES :: nat where "MAX_PATH_BYTES = 64 * 1024"

section \<open>Errors\<close>

datatype metadata_format = FmtRangeObservation | FmtCheckpoint | FmtIdentitySnapshot | FmtNativePath

fun format_name :: "metadata_format \<Rightarrow> string" where
  "format_name FmtRangeObservation = ''range observation''"
| "format_name FmtCheckpoint = ''checkpoint''"
| "format_name FmtIdentitySnapshot = ''identity snapshot''"
| "format_name FmtNativePath = ''native path''"

datatype metadata_error =
    MeSqlite
  | MeNewerSchemaVersion u32 u32
  | MeUnversionedNonemptyDatabase
  | MeInvalidSchema string
  | MeInvalidConnectionPolicy string
  | MeNewerFormatVersion metadata_format u64 u64
  | MeUnsupportedFormatVersion metadata_format u64
  | MeInvalidEncoding metadata_format string
  | MeNonCanonicalEncoding metadata_format
  | MeCollectionLimitExceeded metadata_format u64 nat
  | MePayloadTooLarge metadata_format nat nat
  | MeInvalidCheckpoint string
  | MeInvalidRangeObservation range_proof_error
  | MeInvalidDownloadId string
  | MeSecretReferenceRequired
  | MeInvalidSecretReference string
  | MeInvalidErrorKind string
  | MeInvalidPublicUrl string
  | MeFieldTooLong string nat nat
  | MeIntegerOutOfRange string u64
  | MeUnsupportedPathEncoding u8
  | MeInvalidValue string

section \<open>Results over options and vectors\<close>

text \<open>\<open>Option::map(f).transpose()\<close>, \<open>map(f).collect::<Result<Vec<_>, _>>()\<close> and a loop of \<open>f(x)?\<close>.\<close>

definition map_transpose :: "('a \<Rightarrow> 'e + 'b) \<Rightarrow> 'a option \<Rightarrow> 'e + 'b option" where
  "map_transpose f v = (case v of None \<Rightarrow> Ok None | Some a \<Rightarrow> and_then (f a) (\<lambda>b. Ok (Some b)))"

fun map_collect :: "('a \<Rightarrow> 'e + 'b) \<Rightarrow> 'a list \<Rightarrow> 'e + 'b list" where
  "map_collect f [] = Ok []"
| "map_collect f (x # xs) = and_then (f x) (\<lambda>y. and_then (map_collect f xs) (\<lambda>ys. Ok (y # ys)))"

fun try_each :: "('a \<Rightarrow> 'e + unit) \<Rightarrow> 'a list \<Rightarrow> 'e + unit" where
  "try_each f [] = Ok ()"
| "try_each f (x # xs) = and_then (f x) (\<lambda>_. try_each f xs)"

definition try_opt :: "('a \<Rightarrow> 'e + unit) \<Rightarrow> 'a option \<Rightarrow> 'e + unit" where
  "try_opt f v = (case v of None \<Rightarrow> Ok () | Some a \<Rightarrow> f a)"

section \<open>Field checks\<close>

definition check_len :: "string \<Rightarrow> string \<Rightarrow> nat \<Rightarrow> metadata_error + unit" where
  "check_len field value maximum =
     (if length value > maximum then Err (MeFieldTooLong field (length value) maximum) else Ok ())"

definition check_payload_len :: "metadata_format \<Rightarrow> nat \<Rightarrow> nat \<Rightarrow> metadata_error + unit" where
  "check_payload_len fmt actual maximum =
     (if actual > maximum then Err (MePayloadTooLarge fmt actual maximum) else Ok ())"

definition check_path_len :: "nat \<Rightarrow> metadata_error + unit" where
  "check_path_len actual =
     (if actual > MAX_PATH_BYTES then Err (MeFieldTooLong ''native_path'' actual MAX_PATH_BYTES) else Ok ())"

text \<open>\<open>i64::try_from(u64)\<close> and back; an SQLite integer is an \<open>int\<close> of 64 signed bits.\<close>

definition sqlite_u64 :: "string \<Rightarrow> u64 \<Rightarrow> metadata_error + int" where
  "sqlite_u64 field value =
     (if unat value < 2 ^ 63 then Ok (uint value) else Err (MeIntegerOutOfRange field value))"

definition optional_sqlite_u64 :: "string \<Rightarrow> u64 option \<Rightarrow> metadata_error + int option" where
  "optional_sqlite_u64 field value =
     map_transpose (sqlite_u64 field) value"

definition rust_u64 :: "string \<Rightarrow> int \<Rightarrow> metadata_error + u64" where
  "rust_u64 field value = (if 0 \<le> value then Ok (word_of_int value) else Err (MeInvalidValue field))"

definition optional_rust_u64 :: "string \<Rightarrow> int option \<Rightarrow> metadata_error + u64 option" where
  "optional_rust_u64 field value =
     map_transpose (rust_u64 field) value"

definition parse_sql_bool :: "string \<Rightarrow> int \<Rightarrow> metadata_error + bool" where
  "parse_sql_bool field value =
     (if value = 0 then Ok False else if value = 1 then Ok True else Err (MeInvalidValue field))"

section \<open>Identifiers\<close>

definition try_from_bytes :: "bytes \<Rightarrow> metadata_error + bytes" where
  "try_from_bytes bs =
     (if drop_bit 4 (bs ! 6) \<noteq> 7 then Err (MeInvalidDownloadId ''UUID version bits are not 7'')
      else if (bs ! 8) AND 0xc0 \<noteq> 0x80 then Err (MeInvalidDownloadId ''UUID variant bits are not RFC 4122'')
      else Ok bs)"

definition download_id_from_slice :: "bytes \<Rightarrow> metadata_error + bytes" where
  "download_id_from_slice bs =
     (if length bs \<noteq> 16 then Err (MeInvalidDownloadId ''identifier is not exactly 16 bytes'')
      else try_from_bytes bs)"

definition is_ascii_lowercase :: "char \<Rightarrow> bool" where
  "is_ascii_lowercase c = (97 \<le> ord_of c \<and> ord_of c \<le> 122)"

definition is_ascii_alphanumeric :: "char \<Rightarrow> bool" where
  "is_ascii_alphanumeric c = (is_ascii_lowercase c \<or> is_ascii_upper c \<or> is_ascii_digit c)"

definition secret_ref_new :: "string \<Rightarrow> metadata_error + string" where
  "secret_ref_new raw =
     (if length raw > MAX_SECRET_REF_BYTES then Err (MeInvalidSecretReference ''reference is too long'')
      else
        (case strip_prefix raw ''keyring:downpour/'' of
           None \<Rightarrow> Err (MeInvalidSecretReference ''reference is outside keyring:downpour/'')
         | Some suffix_text \<Rightarrow>
             if suffix_text = [] \<or>
                \<not> list_all (\<lambda>c. is_ascii_alphanumeric c \<or> c \<in> {CHR ''-'', CHR ''_'', CHR ''.'', CHR ''/''}) suffix_text
             then Err (MeInvalidSecretReference ''reference suffix has an invalid character'')
             else Ok raw))"

definition error_kind_new :: "string \<Rightarrow> metadata_error + string" where
  "error_kind_new raw =
     (if raw = [] \<or> length raw > MAX_ERROR_KIND_BYTES then Err (MeInvalidErrorKind ''identifier is empty or too long'')
      else if \<not> list_all (\<lambda>segment. case segment of
                [] \<Rightarrow> False
              | c # cs \<Rightarrow> is_ascii_lowercase c \<and>
                  list_all (\<lambda>b. is_ascii_lowercase b \<or> is_ascii_digit b \<or> b = CHR ''-'') cs) (split_on CHR ''.'' raw)
      then Err (MeInvalidErrorKind ''identifier is not lowercase dotted syntax'')
      else Ok raw)"

section \<open>URLs\<close>

text \<open>The operations of the crate \<open>url\<close> on its type \<open>Url\<close>, here \<open>'u\<close>.\<close>

record 'u url_api =
  ua_parse :: "string \<Rightarrow> 'u option"
  ua_as_str :: "'u \<Rightarrow> string"
  ua_scheme :: "'u \<Rightarrow> string"
  ua_username :: "'u \<Rightarrow> string"
  ua_password :: "'u \<Rightarrow> string option"
  ua_query :: "'u \<Rightarrow> string option"
  ua_fragment :: "'u \<Rightarrow> string option"
  ua_set_username :: "string \<Rightarrow> 'u \<Rightarrow> unit + 'u"
  ua_set_password :: "string option \<Rightarrow> 'u \<Rightarrow> unit + 'u"
  ua_set_query :: "string option \<Rightarrow> 'u \<Rightarrow> 'u"
  ua_set_fragment :: "string option \<Rightarrow> 'u \<Rightarrow> 'u"

definition is_http :: "'u url_api \<Rightarrow> 'u \<Rightarrow> bool" where
  "is_http ua u = (ua_scheme ua u = ''http'' \<or> ua_scheme ua u = ''https'')"

definition has_private_component :: "'u url_api \<Rightarrow> 'u \<Rightarrow> bool" where
  "has_private_component ua u =
     (ua_username ua u \<noteq> [] \<or> ua_password ua u \<noteq> None \<or> ua_query ua u \<noteq> None \<or> ua_fragment ua u \<noteq> None)"

definition try_from_url :: "'u url_api \<Rightarrow> 'u \<Rightarrow> metadata_error + 'u" where
  "try_from_url ua u =
     (if \<not> is_http ua u then Err (MeInvalidPublicUrl ''scheme is not HTTP or HTTPS'')
      else if has_private_component ua u
      then Err (MeInvalidPublicUrl ''userinfo, query, or fragment is present'')
      else and_then (check_len ''public_url'' (ua_as_str ua u) MAX_URL_BYTES) (\<lambda>_. Ok u))"

definition public_url_parse :: "'u url_api \<Rightarrow> string \<Rightarrow> metadata_error + 'u" where
  "public_url_parse ua raw =
     and_then (ok_or (MeInvalidPublicUrl ''URL does not parse'') (ua_parse ua raw)) (try_from_url ua)"

record 'u url_reference =
  ur_public_url :: 'u
  ur_secret_ref :: "string option"

definition strip_private :: "'u url_api \<Rightarrow> 'u \<Rightarrow> metadata_error + 'u" where
  "strip_private ua u =
     and_then (map_err (\<lambda>_. MeInvalidPublicUrl ''URL userinfo cannot be removed'') (ua_set_username ua [] u)) (\<lambda>u.
     and_then (map_err (\<lambda>_. MeInvalidPublicUrl ''URL password cannot be removed'') (ua_set_password ua None u)) (\<lambda>u.
       Ok (ua_set_fragment ua None (ua_set_query ua None u))))"

definition url_reference_parse :: "'u url_api \<Rightarrow> string \<Rightarrow> string option \<Rightarrow> metadata_error + 'u url_reference" where
  "url_reference_parse ua raw secret_ref =
     and_then (ok_or (MeInvalidPublicUrl ''URL does not parse'') (ua_parse ua raw)) (\<lambda>u.
     if \<not> is_http ua u then Err (MeInvalidPublicUrl ''scheme is not HTTP or HTTPS'')
     else if has_private_component ua u \<and> secret_ref = None then Err MeSecretReferenceRequired
     else
       and_then (if has_private_component ua u then strip_private ua u else Ok u) (\<lambda>u.
       and_then (try_from_url ua u) (\<lambda>public.
         Ok \<lparr>ur_public_url = public, ur_secret_ref = secret_ref\<rparr>)))"

definition url_reference_from_parts :: "'u url_api \<Rightarrow> string \<Rightarrow> string option \<Rightarrow> metadata_error + 'u url_reference" where
  "url_reference_from_parts ua public reference =
     and_then (public_url_parse ua public) (\<lambda>u.
     and_then (map_transpose secret_ref_new reference) (\<lambda>r.
       Ok \<lparr>ur_public_url = u, ur_secret_ref = r\<rparr>))"

fun optional_url_reference_from_parts ::
    "'u url_api \<Rightarrow> string option \<Rightarrow> string option \<Rightarrow> metadata_error + 'u url_reference option" where
  "optional_url_reference_from_parts ua (Some public) reference =
     and_then (url_reference_from_parts ua public reference) (\<lambda>r. Ok (Some r))"
| "optional_url_reference_from_parts ua None None = Ok None"
| "optional_url_reference_from_parts ua None (Some _) = Err (MeInvalidValue ''URL reference without public URL'')"

definition optional_url_parts :: "'u url_api \<Rightarrow> 'u url_reference option \<Rightarrow> string option \<times> string option" where
  "optional_url_parts ua u =
     (case u of Some r \<Rightarrow> (Some (ua_as_str ua (ur_public_url r)), ur_secret_ref r) | None \<Rightarrow> (None, None))"

definition validate_url_reference :: "'u url_api \<Rightarrow> 'u url_reference \<Rightarrow> metadata_error + unit" where
  "validate_url_reference ua r =
     and_then (check_len ''public_url'' (ua_as_str ua (ur_public_url r)) MAX_URL_BYTES) (\<lambda>_.
       try_opt (\<lambda>secret. check_len ''secret_ref'' secret MAX_SECRET_REF_BYTES) (ur_secret_ref r))"

section \<open>States, protocols, validators and digests as stored\<close>

datatype download_state =
    Submitted | Probing | Planned | Transferring | Paused | Stalled | AwaitingRefresh | Verifying | Completed | Failed

fun state_name :: "download_state \<Rightarrow> string" where
  "state_name Submitted = ''submitted''"
| "state_name Probing = ''probing''"
| "state_name Planned = ''planned''"
| "state_name Transferring = ''transferring''"
| "state_name Paused = ''paused''"
| "state_name Stalled = ''stalled''"
| "state_name AwaitingRefresh = ''awaiting-refresh''"
| "state_name Verifying = ''verifying''"
| "state_name Completed = ''completed''"
| "state_name Failed = ''failed''"

fun state_code :: "download_state \<Rightarrow> u8" where
  "state_code Submitted = 0"
| "state_code Probing = 1"
| "state_code Planned = 2"
| "state_code Transferring = 3"
| "state_code Paused = 4"
| "state_code Stalled = 5"
| "state_code AwaitingRefresh = 6"
| "state_code Verifying = 7"
| "state_code Completed = 8"
| "state_code Failed = 9"

definition parse_state :: "string \<Rightarrow> metadata_error + download_state" where
  "parse_state raw =
     (if raw = ''submitted'' then Ok Submitted
      else if raw = ''probing'' then Ok Probing
      else if raw = ''planned'' then Ok Planned
      else if raw = ''transferring'' then Ok Transferring
      else if raw = ''paused'' then Ok Paused
      else if raw = ''stalled'' then Ok Stalled
      else if raw = ''awaiting-refresh'' then Ok AwaitingRefresh
      else if raw = ''verifying'' then Ok Verifying
      else if raw = ''completed'' then Ok Completed
      else if raw = ''failed'' then Ok Failed
      else Err (MeInvalidValue ''downloads.state''))"

definition state_from_code :: "u8 \<Rightarrow> metadata_error + download_state" where
  "state_from_code n =
     (if n = 0 then Ok Submitted
      else if n = 1 then Ok Probing
      else if n = 2 then Ok Planned
      else if n = 3 then Ok Transferring
      else if n = 4 then Ok Paused
      else if n = 5 then Ok Stalled
      else if n = 6 then Ok AwaitingRefresh
      else if n = 7 then Ok Verifying
      else if n = 8 then Ok Completed
      else if n = 9 then Ok Failed
      else Err (MeInvalidValue ''identity.state''))"

fun md_protocol_name :: "negotiated_protocol \<Rightarrow> string" where
  "md_protocol_name Http11 = ''http/1.1''"
| "md_protocol_name Http2 = ''h2''"
| "md_protocol_name Http3 = ''h3''"

fun protocol_code :: "negotiated_protocol \<Rightarrow> u8" where
  "protocol_code Http11 = 0"
| "protocol_code Http2 = 1"
| "protocol_code Http3 = 2"

definition parse_protocol :: "string \<Rightarrow> metadata_error + negotiated_protocol" where
  "parse_protocol raw =
     (if raw = ''http/1.1'' then Ok Http11
      else if raw = ''h2'' then Ok Http2
      else if raw = ''h3'' then Ok Http3
      else Err (MeInvalidValue ''identities.protocol''))"

definition protocol_from_code :: "u8 \<Rightarrow> metadata_error + negotiated_protocol" where
  "protocol_from_code n =
     (if n = 0 then Ok Http11
      else if n = 1 then Ok Http2
      else if n = 2 then Ok Http3
      else Err (MeInvalidValue ''identity.protocol''))"

fun validator_parts :: "validator \<Rightarrow> string \<times> string option" where
  "validator_parts (StrongETag v) = (''strong-etag'', Some v)"
| "validator_parts (LastModified v) = (''last-modified'', Some v)"
| "validator_parts NoValidator = (''none'', None)"

definition validator_from_parts :: "string \<Rightarrow> string option \<Rightarrow> metadata_error + validator" where
  "validator_from_parts kind value =
     (case value of
        Some v \<Rightarrow> if kind = ''strong-etag'' then Ok (StrongETag v)
                  else if kind = ''last-modified'' then Ok (LastModified v)
                  else Err (MeInvalidValue ''identities.validator'')
      | None \<Rightarrow> if kind = ''none'' then Ok NoValidator else Err (MeInvalidValue ''identities.validator''))"

text \<open>The text form written by \<open>PreparedDownload::new\<close>, and its reader.\<close>

definition digest_text :: "content_digest \<Rightarrow> string" where
  "digest_text dg = token (cd_algorithm dg) @ '':'' @ cd_encoded dg"

definition digest_from_text :: "string option \<Rightarrow> metadata_error + content_digest option" where
  "digest_from_text raw =
     (case raw of
        None \<Rightarrow> Ok None
      | Some text_value \<Rightarrow>
          and_then (ok_or (MeInvalidValue ''identities.server_digest'') (split_once CHR '':'' text_value))
            (\<lambda>(algorithm, encoded).
          and_then (if algorithm = ''sha-256'' then Ok Sha256
                    else if algorithm = ''sha-512'' then Ok Sha512
                    else Err (MeInvalidValue ''identities.server_digest'')) (\<lambda>a.
          if encoded = [] then Err (MeInvalidValue ''identities.server_digest'')
          else Ok (Some \<lparr>cd_algorithm = a, cd_encoded = encoded\<rparr>))))"

section \<open>CBOR heads\<close>

text \<open>\<open>from_be_bytes\<close>.\<close>

definition be_u64 :: "bytes \<Rightarrow> u64" where
  "be_u64 bs = of_nat (le_value (rev bs))"

definition parse_cbor_head :: "bytes \<Rightarrow> nat \<Rightarrow> metadata_format \<Rightarrow> metadata_error + u8 \<times> u64 \<times> nat" where
  "parse_cbor_head encoded offset fmt =
     (if length encoded \<le> offset then Err (MeInvalidEncoding fmt ''truncated CBOR header'')
      else
        (let initial = encoded ! offset;
             major = drop_bit 5 initial;
             additional = initial AND 0x1f;
             next = Suc offset;
             width = (if additional \<le> 23 then Some 0 else if additional = 24 then Some 1
                      else if additional = 25 then Some 2 else if additional = 26 then Some 4
                      else if additional = 27 then Some 8 else None)
         in case width of
              None \<Rightarrow> Err (MeNonCanonicalEncoding fmt)
            | Some n \<Rightarrow>
                if n = 0 then Ok (major, ucast additional, next)
                else if length encoded < next + n then Err (MeInvalidEncoding fmt ''truncated CBOR integer'')
                else Ok (major, be_u64 (chunk next (next + n) encoded), next + n)))"

definition peek_version :: "bytes \<Rightarrow> metadata_format \<Rightarrow> nat \<Rightarrow> metadata_error + unit" where
  "peek_version encoded fmt maximum =
     and_then (check_payload_len fmt (length encoded) maximum) (\<lambda>_.
     and_then (parse_cbor_head encoded 0 fmt) (\<lambda>(major, _, offset).
     if major \<noteq> 4 then Err (MeInvalidEncoding fmt ''top-level item is not an array'')
     else
       and_then (parse_cbor_head encoded offset fmt) (\<lambda>(version_major, version, _).
       if version_major \<noteq> 0 then Err (MeInvalidEncoding fmt ''version is not an unsigned integer'')
       else if version > MD_FORMAT_VERSION then Err (MeNewerFormatVersion fmt version MD_FORMAT_VERSION)
       else if version \<noteq> MD_FORMAT_VERSION then Err (MeUnsupportedFormatVersion fmt version)
       else Ok ())))"

definition preflight_checkpoint_count :: "bytes \<Rightarrow> metadata_error + unit" where
  "preflight_checkpoint_count encoded =
     and_then (parse_cbor_head encoded 0 FmtCheckpoint) (\<lambda>(_, _, after_top).
     and_then (parse_cbor_head encoded after_top FmtCheckpoint) (\<lambda>(_, _, after_version).
     and_then (parse_cbor_head encoded after_version FmtCheckpoint) (\<lambda>(_, _, after_total).
     and_then (parse_cbor_head encoded after_total FmtCheckpoint) (\<lambda>(_, _, after_covered).
     and_then (parse_cbor_head encoded after_covered FmtCheckpoint) (\<lambda>(major, count, _).
     if major \<noteq> 4 then Err (MeInvalidEncoding FmtCheckpoint ''checkpoint intervals are not an array'')
     else if unat count > MAX_CHECKPOINT_INTERVALS
     then Err (MeCollectionLimitExceeded FmtCheckpoint count MAX_CHECKPOINT_INTERVALS)
     else Ok ())))))"

text \<open>The shortest head of RFC 8949 for a major type and an argument, which \<open>ciborium\<close> writes.\<close>

definition cbor_initial :: "nat \<Rightarrow> nat \<Rightarrow> u8" where
  "cbor_initial major additional = of_nat (32 * major + additional)"

definition cbor_head :: "nat \<Rightarrow> u64 \<Rightarrow> bytes" where
  "cbor_head major v =
     (if unat v < 24 then [cbor_initial major (unat v)]
      else if unat v < 2 ^ 8 then cbor_initial major 24 # rev (le_bytes 1 (unat v))
      else if unat v < 2 ^ 16 then cbor_initial major 25 # rev (le_bytes 2 (unat v))
      else if unat v < 2 ^ 32 then cbor_initial major 26 # rev (le_bytes 4 (unat v))
      else cbor_initial major 27 # rev (le_bytes 8 (unat v)))"

lemma cbor_initial_parts:
  assumes "m < 8" and "a < 32"
  shows "drop_bit 5 (cbor_initial m a) = of_nat m" and "cbor_initial m a AND 0x1f = of_nat a"
proof -
  have u: "unat (cbor_initial m a) = 32 * m + a"
    using assms by (simp add: cbor_initial_def unat_of_nat del: of_nat_add of_nat_mult)
  have "unat (drop_bit 5 (cbor_initial m a)) = unat (of_nat m :: u8)"
    using assms unfolding unat_drop_bit_eq u by (simp add: drop_bit_eq_div unat_of_nat)
  then show "drop_bit 5 (cbor_initial m a) = of_nat m"
    by (simp add: word_unat_eq_iff)
  have "cbor_initial m a AND 0x1f = take_bit 5 (cbor_initial m a)"
    by (simp add: take_bit_eq_mask mask_eq_exp_minus_1)
  moreover have "unat (take_bit 5 (cbor_initial m a)) = unat (of_nat a :: u8)"
    using assms by (simp add: take_bit_eq_mod unat_mod u unat_of_nat)
  ultimately show "cbor_initial m a AND 0x1f = of_nat a"
    by (simp add: word_unat_eq_iff)
qed

lemma be_u64_le_bytes:
  assumes "unat v < 256 ^ n"
  shows "be_u64 (rev (le_bytes n (unat v))) = v"
  using le_value_le_bytes [of n "unat v"] assms by (simp add: be_u64_def)

lemma parse_wide_head:
  assumes "m < 8" and "(a, length bs) \<in> {(24, 1), (25, 2), (26, 4), (27, 8)}"
  shows "parse_cbor_head (pre @ (cbor_initial m a # bs) @ rest) (length pre) fmt =
    Ok (of_nat m, be_u64 bs, length pre + Suc (length bs))"
proof -
  have c: "chunk (Suc (length pre)) (Suc (length pre) + length bs) (pre @ (cbor_initial m a # bs) @ rest) = bs"
    by (simp add: chunk_def)
  have i: "(pre @ (cbor_initial m a # bs) @ rest) ! length pre = cbor_initial m a"
    by simp
  consider "a = 24" "length bs = 1" | "a = 25" "length bs = 2" | "a = 26" "length bs = 4" | "a = 27" "length bs = 8"
    using assms(2) by blast
  then show ?thesis
    by cases (use c in \<open>simp_all add: parse_cbor_head_def cbor_initial_parts [OF assms(1)] word_le_nat_alt\<close>)
qed

lemma parse_head:
  assumes "m < 8"
  shows "parse_cbor_head (pre @ cbor_head m v @ rest) (length pre) fmt =
    Ok (of_nat m, v, length pre + length (cbor_head m v))"
proof (cases "unat v < 24")
  case True
  then have u: "unat (ucast v :: u8) = unat v"
    by (simp add: unsigned_ucast_eq take_bit_eq_mod)
  then have "ucast (ucast v :: u8) = v"
    by (simp add: word_unat_eq_iff unsigned_ucast_eq take_bit_eq_mod unat_mod)
  then show ?thesis
    using assms True u
    by (simp add: cbor_head_def parse_cbor_head_def cbor_initial_parts word_le_nat_alt Let_def)
next
  case False
  have v: "unat v < 256 ^ 8"
    using unat_lt_2p [of v] by simp
  have w: "parse_cbor_head (pre @ (cbor_initial m a # rev (le_bytes n (unat v))) @ rest) (length pre) fmt =
      Ok (of_nat m, v, length pre + Suc n)" if "(a, n) \<in> {(24, 1), (25, 2), (26, 4), (27, 8)}" and "unat v < 256 ^ n" for a n
    using parse_wide_head [OF assms, of a "rev (le_bytes n (unat v))" pre rest fmt] that
    by (simp add: be_u64_le_bytes del: le_bytes.simps)
  show ?thesis
    using False v w [of 24 1] w [of 25 2] w [of 26 4] w [of 27 8]
    by (simp add: cbor_head_def del: rev.simps le_bytes.simps)
qed

lemma length_cbor_head: "0 < length (cbor_head m v)"
  by (simp add: cbor_head_def)

section \<open>Serialisation\<close>

text \<open>
  The crate \<open>ciborium\<close> on one type: \<open>into_writer\<close>, and \<open>from_reader\<close> with the position it stops at.
\<close>

record 'w cbor =
  cb_write :: "'w \<Rightarrow> string + bytes"
  cb_read :: "bytes \<Rightarrow> string + 'w \<times> nat"

definition encode_wire :: "'w cbor \<Rightarrow> 'w \<Rightarrow> metadata_format \<Rightarrow> metadata_error + bytes" where
  "encode_wire cb w fmt = map_err (MeInvalidEncoding fmt) (cb_write cb w)"

definition decode_wire :: "'w cbor \<Rightarrow> bytes \<Rightarrow> metadata_format \<Rightarrow> metadata_error + 'w" where
  "decode_wire cb encoded fmt =
     and_then (map_err (MeInvalidEncoding fmt) (cb_read cb encoded)) (\<lambda>(w, consumed).
     if consumed \<noteq> length encoded then Err (MeNonCanonicalEncoding fmt) else Ok w)"

definition require_canonical :: "'w cbor \<Rightarrow> bytes \<Rightarrow> 'w \<Rightarrow> metadata_format \<Rightarrow> metadata_error + unit" where
  "require_canonical cb original w fmt =
     and_then (encode_wire cb w fmt) (\<lambda>bs. if bs \<noteq> original then Err (MeNonCanonicalEncoding fmt) else Ok ())"

end
