(* ===== verification/MetadataWire.thy ===== *)
theory MetadataWire
  imports Metadata JournalFormat IntervalMap Utf8
begin

text \<open>
  The records of \<open>downpour-storage/src/metadata.rs\<close> and their version-1 wire forms: range observations,
  native paths, checkpoints and identity snapshots, with the validation every one of them passes.
\<close>

section \<open>Download records\<close>

record 'u identity_metadata =
  idm_current_url :: "'u url_reference"
  idm_final_url :: "'u url_reference option"
  idm_redirect_chain :: "'u url_reference list"
  idm_page_url :: "'u url_reference option"
  idm_origin :: 'u
  idm_validator :: validator
  idm_server_digest :: "content_digest option"
  idm_content_type :: "string option"
  idm_suggested_filename :: "string option"
  idm_request_context_ref :: "string option"
  idm_probed_at_ms :: u64
  idm_protocol :: negotiated_protocol
  idm_range_support :: range_support

record 'u url_history_entry =
  he_url :: "'u url_reference"
  he_seen_at_ms :: u64

text \<open>\<open>priority\<close> is an \<open>i32\<close>: a 32-bit word read as signed.\<close>

record 'u download_metadata =
  dm_id :: bytes
  dm_state :: download_state
  dm_created_at_ms :: u64
  dm_updated_at_ms :: u64
  dm_target_path :: path
  dm_part_path :: path
  dm_total_length :: "u64 option"
  dm_covered_bytes :: u64
  dm_queue_position :: "u64 option"
  dm_priority :: u32
  dm_error_kind :: "string option"
  dm_space_reserved :: bool
  dm_identity :: "'u identity_metadata"
  dm_url_history :: "'u url_history_entry list"

section \<open>Wire forms\<close>

datatype range_wire =
  RangeObservationWireV1 u8 u8 u64 "u64 option" u16 "string option" "string option" u64

datatype path_wire = PathWire u8 bytes

datatype checkpoint_wire = CheckpointWireV1 u8 u64 u64 "(u64 \<times> u64) list"

datatype url_reference_wire = UrlReferenceWire string "string option"
datatype validator_wire = ValidatorWire u8 "string option"
datatype digest_wire = DigestWire u8 string
datatype history_wire = HistoryWire url_reference_wire u64

datatype identity_wire =
  IdentityWire url_reference_wire "url_reference_wire option" "url_reference_wire list"
    "url_reference_wire option" string validator_wire "digest_wire option" "string option"
    "string option" "string option" u64 u8 u8 "bytes option"

datatype snapshot_wire =
  IdentitySnapshotWireV1 u8 bytes u8 u64 u64 path_wire path_wire "u64 option" u64 "u64 option" u32
    "string option" bool identity_wire "history_wire list"

text \<open>Everything outside the repository the metadata code calls.\<close>

record 'u md_env =
  me_url :: "'u url_api"
  me_range :: "range_wire cbor"
  me_path :: "path_wire cbor"
  me_checkpoint :: "checkpoint_wire cbor"
  me_snapshot :: "snapshot_wire cbor"

text \<open>\<open>BoundedVec\<close>: its visitor rejects a sequence of more than \<open>MAX\<close> elements while it is read.\<close>

definition bounded_vec :: "nat \<Rightarrow> 'a list \<Rightarrow> string + unit" where
  "bounded_vec maximum xs = (if length xs > maximum then Err ''collection limit exceeded'' else Ok ())"

definition bounded_read :: "('w \<Rightarrow> string + unit) \<Rightarrow> 'w cbor \<Rightarrow> 'w cbor" where
  "bounded_read check cb =
     cb\<lparr>cb_read := \<lambda>bs. and_then (cb_read cb bs) (\<lambda>(w, n). and_then (check w) (\<lambda>_. Ok (w, n)))\<rparr>"

fun checkpoint_bounds :: "checkpoint_wire \<Rightarrow> string + unit" where
  "checkpoint_bounds (CheckpointWireV1 _ _ _ ivs) = bounded_vec MAX_CHECKPOINT_INTERVALS ivs"

fun snapshot_bounds :: "snapshot_wire \<Rightarrow> string + unit" where
  "snapshot_bounds (IdentitySnapshotWireV1 _ _ _ _ _ _ _ _ _ _ _ _ _
       (IdentityWire _ _ hops _ _ _ _ _ _ _ _ _ _ _) history) =
     and_then (bounded_vec MAX_REDIRECTS hops) (\<lambda>_. bounded_vec MAX_HISTORY_ENTRIES history)"

section \<open>Range observations\<close>

definition MAX_RANGE_OBSERVATION_BYTES :: nat where "MAX_RANGE_OBSERVATION_BYTES = 16 * 1024"
definition MAX_CHECKPOINT_BYTES :: nat where "MAX_CHECKPOINT_BYTES = 64 * 1024 * 1024"

definition check_observation_text :: "string option \<Rightarrow> string option \<Rightarrow> metadata_error + unit" where
  "check_observation_text content_range content_encoding =
     and_then (try_opt (\<lambda>v. check_len ''range.content_range'' v MAX_HEADER_BYTES) content_range) (\<lambda>_.
       try_opt (\<lambda>v. check_len ''range.content_encoding'' v MAX_HEADER_BYTES) content_encoding)"

definition from_observation :: "range_observation \<Rightarrow> metadata_error + range_wire" where
  "from_observation ob =
     and_then (check_observation_text (ob_content_range ob) (ob_content_encoding ob)) (\<lambda>_.
       let (kind, first, second) =
         (case ob_requested ob of
            FromTo f l \<Rightarrow> (0, f, Some l)
          | From f \<Rightarrow> (1, f, None)
          | Suffix n \<Rightarrow> (2, n, None))
       in Ok (RangeObservationWireV1 1 kind first second (ob_status ob) (ob_content_range ob)
                (ob_content_encoding ob) (ob_body_len ob)))"

fun into_observation :: "range_wire \<Rightarrow> metadata_error + range_observation" where
  "into_observation (RangeObservationWireV1 _ kind a b status content_range content_encoding body_len) =
     and_then (case b of
                 Some last_byte \<Rightarrow> if kind = 0 then Ok (FromTo a last_byte) else Err (MeInvalidValue ''range.requested'')
               | None \<Rightarrow> if kind = 1 then Ok (From a) else if kind = 2 then Ok (Suffix a)
                         else Err (MeInvalidValue ''range.requested'')) (\<lambda>requested.
     and_then (check_observation_text content_range content_encoding) (\<lambda>_.
       Ok \<lparr>ob_requested = requested, ob_status = status, ob_content_range = content_range,
           ob_content_encoding = content_encoding, ob_body_len = body_len\<rparr>))"

definition encode_range_observation :: "'u md_env \<Rightarrow> range_observation \<Rightarrow> metadata_error + bytes" where
  "encode_range_observation env ob =
     and_then (from_observation ob) (\<lambda>w.
     and_then (encode_wire (me_range env) w FmtRangeObservation) (\<lambda>encoded.
     and_then (check_payload_len FmtRangeObservation (length encoded) MAX_RANGE_OBSERVATION_BYTES) (\<lambda>_.
       Ok encoded)))"

definition decode_range_observation :: "'u md_env \<Rightarrow> bytes \<Rightarrow> metadata_error + range_observation" where
  "decode_range_observation env encoded =
     and_then (peek_version encoded FmtRangeObservation MAX_RANGE_OBSERVATION_BYTES) (\<lambda>_.
     and_then (decode_wire (me_range env) encoded FmtRangeObservation) (\<lambda>w.
     and_then (require_canonical (me_range env) encoded w FmtRangeObservation) (\<lambda>_.
       into_observation w)))"

definition rebuild_proof :: "range_observation \<Rightarrow> metadata_error + range_support" where
  "rebuild_proof ob =
     and_then (map_err MeInvalidRangeObservation
         (from_observed_response (ob_requested ob) (ob_status ob) (ob_content_range ob)
            (ob_content_encoding ob) (ob_body_len ob))) (\<lambda>p. Ok (Proven p))"

definition range_support_from_parts ::
    "'u md_env \<Rightarrow> string \<Rightarrow> bytes option \<Rightarrow> metadata_error + range_support" where
  "range_support_from_parts env state observation =
     (case observation of
        Some encoded \<Rightarrow>
          if state = ''proven'' then and_then (decode_range_observation env encoded) rebuild_proof
          else Err (MeInvalidValue ''identities.range_state'')
      | None \<Rightarrow>
          if state = ''absent'' then Ok Absent
          else if state = ''unknown'' then Ok Unknown
          else Err (MeInvalidValue ''identities.range_state''))"

definition range_support_from_wire ::
    "'u md_env \<Rightarrow> u8 \<Rightarrow> bytes option \<Rightarrow> metadata_error + range_support" where
  "range_support_from_wire env state observation =
     (case observation of
        Some encoded \<Rightarrow>
          if state = 0 then and_then (decode_range_observation env encoded) rebuild_proof
          else Err (MeInvalidValue ''identity.range_support'')
      | None \<Rightarrow>
          if state = 1 then Ok Absent
          else if state = 2 then Ok Unknown
          else Err (MeInvalidValue ''identity.range_support''))"

section \<open>Native paths\<close>

text \<open>
  \<open>str::from_utf8\<close>: well-formed UTF-8.  The Unix configuration of the path code is modelled: a path is
  its bytes, stored as portable text when they are UTF-8 and raw otherwise.
\<close>

definition path_bytes :: "path \<Rightarrow> bytes" where
  "path_bytes p = map (\<lambda>c. of_nat (ord_of c)) p"

definition bytes_path :: "bytes \<Rightarrow> path" where
  "bytes_path bs = map (\<lambda>b. char_of (unat b)) bs"

definition path_to_wire :: "path \<Rightarrow> metadata_error + path_wire" where
  "path_to_wire p =
     (if utf8_valid (path_bytes p) then
        and_then (check_path_len (length (path_bytes p))) (\<lambda>_. Ok (PathWire 0 (path_bytes p)))
      else and_then (check_path_len (length (path_bytes p))) (\<lambda>_. Ok (PathWire 1 (path_bytes p))))"

fun path_from_wire :: "path_wire \<Rightarrow> metadata_error + path" where
  "path_from_wire (PathWire encoding bs) =
     and_then (check_path_len (length bs)) (\<lambda>_.
     if encoding = 0 then
       (if utf8_valid bs then Ok (bytes_path bs)
        else Err (MeInvalidEncoding FmtNativePath ''portable path is not UTF-8''))
     else if encoding = 1 then Ok (bytes_path bs)
     else Err (MeUnsupportedPathEncoding encoding))"

definition encode_path :: "'u md_env \<Rightarrow> path \<Rightarrow> metadata_error + bytes" where
  "encode_path env p =
     and_then (path_to_wire p) (\<lambda>w. encode_wire (me_path env) w FmtNativePath)"

definition decode_path :: "'u md_env \<Rightarrow> bytes \<Rightarrow> metadata_error + path" where
  "decode_path env encoded =
     and_then (check_payload_len FmtNativePath (length encoded) (MAX_PATH_BYTES + 16)) (\<lambda>_.
     and_then (decode_wire (me_path env) encoded FmtNativePath) (\<lambda>w.
     and_then (require_canonical (me_path env) encoded w FmtNativePath) (\<lambda>_.
       path_from_wire w)))"

section \<open>Validation\<close>

definition len_u64 :: "'a list \<Rightarrow> u64" where
  "len_u64 xs = (case try_from_nat (length xs) of Some n \<Rightarrow> n | None \<Rightarrow> - 1)"

fun validator_text :: "validator \<Rightarrow> string option" where
  "validator_text (StrongETag v) = Some v"
| "validator_text (LastModified v) = Some v"
| "validator_text NoValidator = None"

definition check_server_digest :: "content_digest \<Rightarrow> metadata_error + unit" where
  "check_server_digest d =
     and_then (check_len ''server_digest'' (cd_encoded d) MAX_HEADER_BYTES) (\<lambda>_.
       if cd_encoded d = [] then Err (MeInvalidValue ''server_digest'') else Ok ())"

definition check_range_support :: "'u md_env \<Rightarrow> range_support \<Rightarrow> metadata_error + unit" where
  "check_range_support env r =
     (case r of
        Proven p \<Rightarrow> and_then (encode_range_observation env (rp_observation p)) (\<lambda>_. Ok ())
      | _ \<Rightarrow> Ok ())"

definition validate_identity :: "'u md_env \<Rightarrow> 'u identity_metadata \<Rightarrow> metadata_error + unit" where
  "validate_identity env idm =
     and_then (validate_url_reference (me_url env) (idm_current_url idm)) (\<lambda>_.
     and_then (try_opt (validate_url_reference (me_url env)) (idm_final_url idm)) (\<lambda>_.
     and_then (try_each (validate_url_reference (me_url env)) (idm_redirect_chain idm)) (\<lambda>_.
     and_then (try_opt (validate_url_reference (me_url env)) (idm_page_url idm)) (\<lambda>_.
     and_then (check_len ''origin'' (ua_as_str (me_url env) (idm_origin idm)) MAX_URL_BYTES) (\<lambda>_.
     and_then (try_opt (\<lambda>v. check_len ''validator'' v MAX_HEADER_BYTES) (validator_text (idm_validator idm))) (\<lambda>_.
     and_then (try_opt check_server_digest (idm_server_digest idm)) (\<lambda>_.
     and_then (try_opt (\<lambda>v. check_len ''content_type'' v MAX_CONTENT_TYPE_BYTES) (idm_content_type idm)) (\<lambda>_.
     and_then (try_opt (\<lambda>v. check_len ''suggested_filename'' v MAX_FILENAME_BYTES) (idm_suggested_filename idm)) (\<lambda>_.
     and_then (try_opt (\<lambda>v. check_len ''request_context_ref'' v MAX_SECRET_REF_BYTES) (idm_request_context_ref idm)) (\<lambda>_.
       check_range_support env (idm_range_support idm)))))))))))"

definition validate_history_entry :: "'u md_env \<Rightarrow> 'u url_history_entry \<Rightarrow> metadata_error + unit" where
  "validate_history_entry env e =
     and_then (sqlite_u64 ''url_history.seen_at'' (he_seen_at_ms e)) (\<lambda>_.
       validate_url_reference (me_url env) (he_url e))"

definition validate_metadata :: "'u md_env \<Rightarrow> 'u download_metadata \<Rightarrow> metadata_error + unit" where
  "validate_metadata env m =
     and_then (sqlite_u64 ''created_at'' (dm_created_at_ms m)) (\<lambda>_.
     and_then (sqlite_u64 ''updated_at'' (dm_updated_at_ms m)) (\<lambda>_.
     and_then (optional_sqlite_u64 ''total_length'' (dm_total_length m)) (\<lambda>_.
     and_then (sqlite_u64 ''covered_bytes'' (dm_covered_bytes m)) (\<lambda>_.
     and_then (optional_sqlite_u64 ''queue_position'' (dm_queue_position m)) (\<lambda>_.
     and_then (sqlite_u64 ''probed_at'' (idm_probed_at_ms (dm_identity m))) (\<lambda>_.
     if (case dm_total_length m of Some total_len \<Rightarrow> dm_covered_bytes m > total_len | None \<Rightarrow> False)
     then Err (MeInvalidValue ''downloads.covered_bytes'')
     else if (case idm_range_support (dm_identity m) of
                Proven p \<Rightarrow> dm_total_length m \<noteq> Some (rp_total_length p)
              | _ \<Rightarrow> False)
     then Err (MeInvalidValue ''identity.range_total_length'')
     else if length (idm_redirect_chain (dm_identity m)) > MAX_REDIRECTS
     then Err (MeCollectionLimitExceeded FmtIdentitySnapshot (len_u64 (idm_redirect_chain (dm_identity m))) MAX_REDIRECTS)
     else if length (dm_url_history m) > MAX_HISTORY_ENTRIES
     then Err (MeCollectionLimitExceeded FmtIdentitySnapshot (len_u64 (dm_url_history m)) MAX_HISTORY_ENTRIES)
     else
       and_then (try_opt (\<lambda>v. check_len ''error_kind'' v MAX_ERROR_KIND_BYTES) (dm_error_kind m)) (\<lambda>_.
       and_then (validate_identity env (dm_identity m)) (\<lambda>_.
       and_then (try_each (validate_history_entry env) (dm_url_history m)) (\<lambda>_.
       and_then (path_to_wire (dm_target_path m)) (\<lambda>_.
       and_then (path_to_wire (dm_part_path m)) (\<lambda>_.
         Ok ())))))))))))"

section \<open>Checkpoints\<close>

text \<open>A \<open>CompleteInterval\<close> is a pair; \<open>try_new\<close> is its only constructor.\<close>

definition interval_try_new :: "u64 \<Rightarrow> u64 \<Rightarrow> metadata_error + u64 \<times> u64" where
  "interval_try_new s e =
     (if e \<le> s then Err (MeInvalidCheckpoint ''complete interval is empty or reversed'') else Ok (s, e))"

record checkpoint =
  cp_total_length :: u64
  cp_covered_bytes :: u64
  cp_intervals :: "(u64 \<times> u64) list"

fun validate_loop :: "u64 \<Rightarrow> u64 option \<Rightarrow> u64 \<Rightarrow> (u64 \<times> u64) list \<Rightarrow> metadata_error + u64" where
  "validate_loop total_len previous_end covered [] = Ok covered"
| "validate_loop total_len previous_end covered ((s, e) # rest) =
     (if e \<le> s then Err (MeInvalidCheckpoint ''complete interval is empty or reversed'')
      else if e > total_len then Err (MeInvalidCheckpoint ''complete interval exceeds total length'')
      else if (case previous_end of Some p \<Rightarrow> s < p | None \<Rightarrow> False)
      then Err (MeInvalidCheckpoint ''complete intervals overlap or are out of order'')
      else
        and_then (ok_or (MeInvalidCheckpoint ''covered byte count overflowed'') (checked_add covered (e - s)))
          (\<lambda>covered'. validate_loop total_len (Some e) covered' rest))"

definition validate_intervals ::
    "u64 \<Rightarrow> (u64 \<times> u64) list \<Rightarrow> (u64 \<times> u64) option \<Rightarrow> metadata_error + checkpoint" where
  "validate_intervals total_len ivs expected_covered =
     (if length ivs > MAX_CHECKPOINT_INTERVALS
      then Err (MeCollectionLimitExceeded FmtCheckpoint (len_u64 ivs) MAX_CHECKPOINT_INTERVALS)
      else
        and_then (validate_loop total_len None 0 ivs) (\<lambda>covered.
        if (case expected_covered of Some (encoded, sql) \<Rightarrow> covered \<noteq> encoded \<or> covered \<noteq> sql | None \<Rightarrow> False)
        then Err (MeInvalidCheckpoint ''interval union differs from encoded or SQL covered_bytes'')
        else Ok \<lparr>cp_total_length = total_len, cp_covered_bytes = covered, cp_intervals = ivs\<rparr>))"

definition checkpoint_try_new :: "u64 \<Rightarrow> (u64 \<times> u64) list \<Rightarrow> metadata_error + checkpoint" where
  "checkpoint_try_new total_len ivs = validate_intervals total_len ivs None"

definition encode_cbor :: "'u md_env \<Rightarrow> checkpoint \<Rightarrow> metadata_error + bytes" where
  "encode_cbor env cp =
     and_then (encode_wire (me_checkpoint env)
         (CheckpointWireV1 1 (cp_total_length cp) (cp_covered_bytes cp) (cp_intervals cp)) FmtCheckpoint) (\<lambda>encoded.
     and_then (check_payload_len FmtCheckpoint (length encoded) MAX_CHECKPOINT_BYTES) (\<lambda>_. Ok encoded))"

definition decode_cbor :: "'u md_env \<Rightarrow> bytes \<Rightarrow> u64 \<Rightarrow> metadata_error + checkpoint" where
  "decode_cbor env encoded sql_covered_bytes =
     and_then (peek_version encoded FmtCheckpoint MAX_CHECKPOINT_BYTES) (\<lambda>_.
     and_then (preflight_checkpoint_count encoded) (\<lambda>_.
     and_then (decode_wire (bounded_read checkpoint_bounds (me_checkpoint env)) encoded FmtCheckpoint) (\<lambda>w.
     and_then (require_canonical (me_checkpoint env) encoded w FmtCheckpoint) (\<lambda>_.
     case w of CheckpointWireV1 _ total_len covered ivs \<Rightarrow>
       and_then (map_collect (\<lambda>(s, e). interval_try_new s e) ivs) (\<lambda>intervals.
         validate_intervals total_len intervals (Some (covered, sql_covered_bytes)))))))"

section \<open>Identity snapshots\<close>

definition from_reference :: "'u url_api \<Rightarrow> 'u url_reference \<Rightarrow> url_reference_wire" where
  "from_reference ua r = UrlReferenceWire (ua_as_str ua (ur_public_url r)) (ur_secret_ref r)"

fun into_reference :: "'u url_api \<Rightarrow> url_reference_wire \<Rightarrow> metadata_error + 'u url_reference" where
  "into_reference ua (UrlReferenceWire public secret) = url_reference_from_parts ua public secret"

fun from_validator :: "validator \<Rightarrow> validator_wire" where
  "from_validator (StrongETag v) = ValidatorWire 0 (Some v)"
| "from_validator (LastModified v) = ValidatorWire 1 (Some v)"
| "from_validator NoValidator = ValidatorWire 2 None"

fun into_validator :: "validator_wire \<Rightarrow> metadata_error + validator" where
  "into_validator (ValidatorWire kind value) =
     (case value of
        Some v \<Rightarrow> if kind = 0 then Ok (StrongETag v) else if kind = 1 then Ok (LastModified v)
                  else Err (MeInvalidValue ''identity.validator'')
      | None \<Rightarrow> if kind = 2 then Ok NoValidator else Err (MeInvalidValue ''identity.validator''))"

definition from_digest :: "content_digest \<Rightarrow> digest_wire" where
  "from_digest d = DigestWire (case cd_algorithm d of Sha256 \<Rightarrow> 0 | Sha512 \<Rightarrow> 1) (cd_encoded d)"

fun into_digest :: "digest_wire \<Rightarrow> metadata_error + content_digest" where
  "into_digest (DigestWire a encoded) =
     and_then (if a = 0 then Ok Sha256 else if a = 1 then Ok Sha512
               else Err (MeInvalidValue ''identity.digest.algorithm'')) (\<lambda>algorithm.
     if encoded = [] then Err (MeInvalidValue ''identity.digest.value'')
     else Ok \<lparr>cd_algorithm = algorithm, cd_encoded = encoded\<rparr>)"

definition range_support_to_wire :: "'u md_env \<Rightarrow> range_support \<Rightarrow> metadata_error + u8 \<times> bytes option" where
  "range_support_to_wire env r =
     (case r of
        Proven p \<Rightarrow> and_then (encode_range_observation env (rp_observation p)) (\<lambda>bs. Ok (0, Some bs))
      | Absent \<Rightarrow> Ok (1, None)
      | Unknown \<Rightarrow> Ok (2, None))"

definition identity_to_wire :: "'u url_api \<Rightarrow> 'u identity_metadata \<Rightarrow> u8 \<Rightarrow> bytes option \<Rightarrow> identity_wire" where
  "identity_to_wire ua idm range_state range_observation =
     IdentityWire (from_reference ua (idm_current_url idm))
       (map_option (from_reference ua) (idm_final_url idm))
       (map (from_reference ua) (idm_redirect_chain idm))
       (map_option (from_reference ua) (idm_page_url idm))
       (ua_as_str ua (idm_origin idm))
       (from_validator (idm_validator idm))
       (map_option from_digest (idm_server_digest idm))
       (idm_content_type idm) (idm_suggested_filename idm) (idm_request_context_ref idm)
       (idm_probed_at_ms idm) (protocol_code (idm_protocol idm)) range_state range_observation"

definition from_metadata :: "'u md_env \<Rightarrow> 'u download_metadata \<Rightarrow> metadata_error + snapshot_wire" where
  "from_metadata env m =
     and_then (range_support_to_wire env (idm_range_support (dm_identity m))) (\<lambda>(range_state, range_observation).
     and_then (path_to_wire (dm_target_path m)) (\<lambda>target.
     and_then (path_to_wire (dm_part_path m)) (\<lambda>part.
       Ok (IdentitySnapshotWireV1 1 (dm_id m) (state_code (dm_state m)) (dm_created_at_ms m) (dm_updated_at_ms m)
             target part (dm_total_length m) (dm_covered_bytes m) (dm_queue_position m) (dm_priority m)
             (dm_error_kind m) (dm_space_reserved m)
             (identity_to_wire (me_url env) (dm_identity m) range_state range_observation)
             (map (\<lambda>e. HistoryWire (from_reference (me_url env) (he_url e)) (he_seen_at_ms e)) (dm_url_history m))))))"

fun into_history_entry :: "'u url_api \<Rightarrow> history_wire \<Rightarrow> metadata_error + 'u url_history_entry" where
  "into_history_entry ua (HistoryWire r seen) =
     and_then (into_reference ua r) (\<lambda>u. Ok \<lparr>he_url = u, he_seen_at_ms = seen\<rparr>)"

fun into_identity_metadata ::
    "'u url_api \<Rightarrow> range_support \<Rightarrow> identity_wire \<Rightarrow> metadata_error + 'u identity_metadata" where
  "into_identity_metadata ua range_support
     (IdentityWire current_url final_url redirect_chain page_url origin validator_w digest content_type
        suggested_filename request_context_ref probed_at_ms protocol _ _) =
     and_then (into_reference ua current_url) (\<lambda>current.
     and_then (map_transpose (into_reference ua) final_url) (\<lambda>final.
     and_then (map_collect (into_reference ua) redirect_chain) (\<lambda>hops.
     and_then (map_transpose (into_reference ua) page_url) (\<lambda>page.
     and_then (public_url_parse ua origin) (\<lambda>orig.
     and_then (into_validator validator_w) (\<lambda>v.
     and_then (map_transpose into_digest digest) (\<lambda>dg.
     and_then (map_transpose secret_ref_new request_context_ref) (\<lambda>ctx.
     and_then (protocol_from_code protocol) (\<lambda>p.
       Ok \<lparr>idm_current_url = current, idm_final_url = final, idm_redirect_chain = hops, idm_page_url = page,
           idm_origin = orig, idm_validator = v, idm_server_digest = dg, idm_content_type = content_type,
           idm_suggested_filename = suggested_filename, idm_request_context_ref = ctx,
           idm_probed_at_ms = probed_at_ms, idm_protocol = p, idm_range_support = range_support\<rparr>)))))))))"

fun wire_range :: "identity_wire \<Rightarrow> u8 \<times> bytes option" where
  "wire_range (IdentityWire _ _ _ _ _ _ _ _ _ _ _ _ range_state range_observation) = (range_state, range_observation)"

fun into_metadata :: "'u md_env \<Rightarrow> snapshot_wire \<Rightarrow> metadata_error + 'u download_metadata" where
  "into_metadata env (IdentitySnapshotWireV1 _ i st created updated target part total_len covered queue
       priority error_kind space_reserved identity history) =
     and_then (range_support_from_wire env (fst (wire_range identity)) (snd (wire_range identity))) (\<lambda>range_support.
     and_then (download_id_from_slice i) (\<lambda>id'.
     and_then (state_from_code st) (\<lambda>state.
     and_then (path_from_wire target) (\<lambda>target_path.
     and_then (path_from_wire part) (\<lambda>part_path.
     and_then (map_transpose error_kind_new error_kind) (\<lambda>kind.
     and_then (into_identity_metadata (me_url env) range_support identity) (\<lambda>idm.
     and_then (map_collect (into_history_entry (me_url env)) history) (\<lambda>url_history.
       Ok \<lparr>dm_id = id', dm_state = state, dm_created_at_ms = created, dm_updated_at_ms = updated,
           dm_target_path = target_path, dm_part_path = part_path, dm_total_length = total_len,
           dm_covered_bytes = covered, dm_queue_position = queue, dm_priority = priority,
           dm_error_kind = kind, dm_space_reserved = space_reserved, dm_identity = idm,
           dm_url_history = url_history\<rparr>))))))))"

definition encode_identity_snapshot :: "'u md_env \<Rightarrow> 'u download_metadata \<Rightarrow> metadata_error + bytes" where
  "encode_identity_snapshot env m =
     and_then (validate_metadata env m) (\<lambda>_.
     and_then (from_metadata env m) (\<lambda>w.
     and_then (encode_wire (me_snapshot env) w FmtIdentitySnapshot) (\<lambda>encoded.
     and_then (check_payload_len FmtIdentitySnapshot (length encoded) MAX_PAYLOAD_LEN) (\<lambda>_. Ok encoded))))"

definition decode_identity_snapshot :: "'u md_env \<Rightarrow> bytes \<Rightarrow> metadata_error + 'u download_metadata" where
  "decode_identity_snapshot env encoded =
     and_then (peek_version encoded FmtIdentitySnapshot MAX_PAYLOAD_LEN) (\<lambda>_.
     and_then (decode_wire (bounded_read snapshot_bounds (me_snapshot env)) encoded FmtIdentitySnapshot) (\<lambda>w.
     and_then (require_canonical (me_snapshot env) encoded w FmtIdentitySnapshot) (\<lambda>_.
     and_then (into_metadata env w) (\<lambda>m.
     and_then (validate_metadata env m) (\<lambda>_. Ok m)))))"

section \<open>What the constructors guarantee\<close>

text \<open>The invariants of the newtypes, whose fields only their checked constructors fill.\<close>

definition public_url_wf :: "'u url_api \<Rightarrow> 'u \<Rightarrow> bool" where
  "public_url_wf ua u =
     (is_http ua u \<and> \<not> has_private_component ua u \<and> length (ua_as_str ua u) \<le> MAX_URL_BYTES)"

definition secret_wf :: "string option \<Rightarrow> bool" where
  "secret_wf r = (case r of None \<Rightarrow> True | Some s \<Rightarrow> secret_ref_new s = Ok s)"

definition url_reference_wf :: "'u url_api \<Rightarrow> 'u url_reference \<Rightarrow> bool" where
  "url_reference_wf ua r = (public_url_wf ua (ur_public_url r) \<and> secret_wf (ur_secret_ref r))"

definition range_support_wf :: "range_support \<Rightarrow> bool" where
  "range_support_wf r =
     (case r of Proven p \<Rightarrow> rebuild_proof (rp_observation p) = Ok (Proven p) | _ \<Rightarrow> True)"

definition identity_wf :: "'u url_api \<Rightarrow> 'u identity_metadata \<Rightarrow> bool" where
  "identity_wf ua idm =
     (url_reference_wf ua (idm_current_url idm) \<and> pred_option (url_reference_wf ua) (idm_final_url idm) \<and>
      list_all (url_reference_wf ua) (idm_redirect_chain idm) \<and> pred_option (url_reference_wf ua) (idm_page_url idm) \<and>
      public_url_wf ua (idm_origin idm) \<and> secret_wf (idm_request_context_ref idm) \<and>
      range_support_wf (idm_range_support idm))"

definition metadata_wf :: "'u url_api \<Rightarrow> 'u download_metadata \<Rightarrow> bool" where
  "metadata_wf ua m =
     (download_id_from_slice (dm_id m) = Ok (dm_id m) \<and>
      (case dm_error_kind m of None \<Rightarrow> True | Some k \<Rightarrow> error_kind_new k = Ok k) \<and>
      identity_wf ua (dm_identity m) \<and> list_all (\<lambda>e. url_reference_wf ua (he_url e)) (dm_url_history m))"

text \<open>
  What is relied on from outside: \<open>Url::parse\<close> inverts \<open>Url::as_str\<close>; \<open>ciborium\<close> reads back what it
  wrote and stops at its end, writes a tuple of \<open>n < 24\<close> items as the head \<open>0x80 + n\<close> followed by its
  items in order, the first of them the version, integers and array lengths with the shortest head, and adds at most twelve bytes to the bytes of a path.
\<close>

definition url_laws :: "'u url_api \<Rightarrow> bool" where
  "url_laws ua = (\<forall>u. ua_parse ua (ua_as_str ua u) = Some u)"

definition cbor_laws :: "'w cbor \<Rightarrow> bool" where
  "cbor_laws cb = (\<forall>w bs. cb_write cb w = Ok bs \<longrightarrow> cb_read cb bs = Ok (w, length bs))"

definition range_head_law :: "range_wire cbor \<Rightarrow> bool" where
  "range_head_law cb =
     (\<forall>k a b st cr ce n bs. cb_write cb (RangeObservationWireV1 1 k a b st cr ce n) = Ok bs \<longrightarrow> take 2 bs = [0x88, 0x01])"

definition path_size_law :: "path_wire cbor \<Rightarrow> bool" where
  "path_size_law cb = (\<forall>k p bs. cb_write cb (PathWire k p) = Ok bs \<longrightarrow> length bs \<le> length p + 12)"

definition snapshot_head_law :: "snapshot_wire cbor \<Rightarrow> bool" where
  "snapshot_head_law cb =
     (\<forall>i st c u t p tl cv q pr e sp idw h bs.
        cb_write cb (IdentitySnapshotWireV1 1 i st c u t p tl cv q pr e sp idw h) = Ok bs \<longrightarrow> take 2 bs = [0x8f, 0x01])"

definition checkpoint_head_law :: "checkpoint_wire cbor \<Rightarrow> bool" where
  "checkpoint_head_law cb =
     (\<forall>t c ivs bs. cb_write cb (CheckpointWireV1 1 t c ivs) = Ok bs \<longrightarrow>
        (\<exists>rest. bs = [0x84, 0x01] @ cbor_head 0 t @ cbor_head 0 c @ cbor_head 4 (of_nat (length ivs)) @ rest))"

definition env_laws :: "'u md_env \<Rightarrow> bool" where
  "env_laws env =
     (url_laws (me_url env) \<and> cbor_laws (me_range env) \<and> cbor_laws (me_path env) \<and>
      cbor_laws (me_checkpoint env) \<and> cbor_laws (me_snapshot env) \<and> range_head_law (me_range env) \<and>
      path_size_law (me_path env) \<and> snapshot_head_law (me_snapshot env) \<and>
      checkpoint_head_law (me_checkpoint env))"

section \<open>Round trips of the parts\<close>

lemma map_transpose_Some: "(\<And>a. v = Some a \<Longrightarrow> f (g a) = Ok a) \<Longrightarrow> map_transpose f (map_option g v) = Ok v"
  by (cases v) (simp_all add: map_transpose_def)

lemma map_collect_map: "(\<And>x. x \<in> set xs \<Longrightarrow> f (g x) = Ok x) \<Longrightarrow> map_collect f (map g xs) = Ok xs"
  by (induction xs) simp_all

lemma state_codes:
  "state_from_code (state_code st) = Ok st"
  "parse_state (state_name st) = Ok st"
  by (cases st; simp add: state_from_code_def parse_state_def)+

lemma protocol_codes:
  "protocol_from_code (protocol_code p) = Ok p"
  "parse_protocol (md_protocol_name p) = Ok p"
  by (cases p; simp add: protocol_from_code_def parse_protocol_def)+

lemma validator_codes:
  "into_validator (from_validator v) = Ok v"
  "validator_from_parts (fst (validator_parts v)) (snd (validator_parts v)) = Ok v"
  by (cases v; simp add: validator_from_parts_def)+

lemma digest_codes:
  assumes "cd_encoded d \<noteq> []"
  shows "into_digest (from_digest d) = Ok d"
    and "digest_from_text (Some (digest_text d)) = Ok (Some d)"
proof -
  show "into_digest (from_digest d) = Ok d"
    using assms by (cases d; cases "cd_algorithm d") (auto simp: from_digest_def)
  have "split_once CHR '':'' (token (cd_algorithm d) @ CHR '':'' # cd_encoded d) = Some (token (cd_algorithm d), cd_encoded d)"
    by (cases "cd_algorithm d") (auto intro!: split_once_append)
  then show "digest_from_text (Some (digest_text d)) = Ok (Some d)"
    using assms by (cases d; cases "cd_algorithm d") (auto simp: digest_from_text_def digest_text_def)
qed

lemma sqlite_ints:
  "sqlite_u64 f v = Ok i \<Longrightarrow> rust_u64 g i = Ok v"
  "optional_sqlite_u64 f w = Ok j \<Longrightarrow> optional_rust_u64 g j = Ok w"
  by (auto simp: sqlite_u64_def rust_u64_def optional_sqlite_u64_def optional_rust_u64_def map_transpose_def
           and_then_eq_Inr split: if_splits option.splits)

lemma public_url_round:
  assumes "url_laws ua" and "public_url_wf ua u"
  shows "public_url_parse ua (ua_as_str ua u) = Ok u"
  using assms by (simp add: public_url_parse_def url_laws_def public_url_wf_def try_from_url_def check_len_def)

lemma secret_round: "secret_wf r \<Longrightarrow> map_transpose secret_ref_new r = Ok r"
  by (cases r) (simp_all add: secret_wf_def map_transpose_def)

lemma url_reference_round:
  assumes "url_laws ua" and "url_reference_wf ua r"
  shows "url_reference_from_parts ua (ua_as_str ua (ur_public_url r)) (ur_secret_ref r) = Ok r"
  using assms by (cases r) (simp add: url_reference_from_parts_def url_reference_wf_def public_url_round secret_round)

lemma reference_codes:
  assumes "url_laws ua"
  shows "url_reference_wf ua r \<Longrightarrow> into_reference ua (from_reference ua r) = Ok r"
    and "pred_option (url_reference_wf ua) v \<Longrightarrow> map_transpose (into_reference ua) (map_option (from_reference ua) v) = Ok v"
    and "list_all (url_reference_wf ua) rs \<Longrightarrow> map_collect (into_reference ua) (map (from_reference ua) rs) = Ok rs"
    and "pred_option (url_reference_wf ua) v \<Longrightarrow>
      optional_url_reference_from_parts ua (fst (optional_url_parts ua v)) (snd (optional_url_parts ua v)) = Ok v"
proof -
  show r: "into_reference ua (from_reference ua r) = Ok r" if "url_reference_wf ua r" for r
    using url_reference_round [OF assms that] by (simp add: from_reference_def)
  show "pred_option (url_reference_wf ua) v \<Longrightarrow> map_transpose (into_reference ua) (map_option (from_reference ua) v) = Ok v"
    by (rule map_transpose_Some) (simp add: r)
  show "list_all (url_reference_wf ua) rs \<Longrightarrow> map_collect (into_reference ua) (map (from_reference ua) rs) = Ok rs"
    by (rule map_collect_map) (simp add: r list_all_iff)
  show "pred_option (url_reference_wf ua) v \<Longrightarrow>
      optional_url_reference_from_parts ua (fst (optional_url_parts ua v)) (snd (optional_url_parts ua v)) = Ok v"
    by (cases v) (simp_all add: optional_url_parts_def url_reference_round [OF assms])
qed

lemma path_bytes_round [simp]: "bytes_path (path_bytes p) = p"
  by (simp add: bytes_path_def path_bytes_def comp_def ord_of_def unat_of_nat map_idI)

lemma path_round: "path_to_wire p = Ok w \<Longrightarrow> path_from_wire w = Ok p"
  by (auto simp: path_to_wire_def and_then_eq_Inr split: if_splits)

lemma wire_round:
  assumes "cbor_laws cb" and "encode_wire cb w fmt = Ok bs"
  shows "decode_wire cb bs fmt = Ok w" and "require_canonical cb bs w fmt = Ok ()"
  using assms by (auto simp: cbor_laws_def encode_wire_def map_err_eq_Inr decode_wire_def require_canonical_def)

lemma bounded_wire_round:
  assumes "cbor_laws cb" and "encode_wire cb w fmt = Ok bs" and "check w = Ok ()"
  shows "decode_wire (bounded_read check cb) bs fmt = Ok w"
  using assms by (auto simp: cbor_laws_def encode_wire_def map_err_eq_Inr decode_wire_def bounded_read_def)

lemma encode_path_round:
  assumes "cbor_laws (me_path env)" and "path_size_law (me_path env)" and "encode_path env p = Ok bs"
  shows "decode_path env bs = Ok p"
proof -
  obtain w where w: "path_to_wire p = Ok w" "encode_wire (me_path env) w FmtNativePath = Ok bs"
    using assms(3) by (auto simp: encode_path_def and_then_eq_Inr)
  have "length bs \<le> MAX_PATH_BYTES + 16"
    using w assms(2)
    by (fastforce simp: path_to_wire_def path_size_law_def encode_wire_def map_err_eq_Inr and_then_eq_Inr check_path_len_def
                 split: if_splits)
  then show ?thesis
    using wire_round [OF assms(1) w(2)] path_round [OF w(1)] by (simp add: decode_path_def check_payload_len_def)
qed

lemma head_version:
  assumes "take 2 bs = [h, 0x01]" and "drop_bit 5 h = 4" and "h AND 0x1f \<le> 23" and "length bs \<le> n"
  shows "peek_version bs fmt n = Ok ()"
proof -
  obtain rest where bs: "bs = h # 0x01 # rest"
    using assms(1) by (cases bs; cases "tl bs") auto
  show ?thesis
    using assms(2,3,4) by (simp add: bs peek_version_def check_payload_len_def parse_cbor_head_def MD_FORMAT_VERSION_def)
qed

lemma observation_round: "from_observation ob = Ok w \<Longrightarrow> into_observation w = Ok ob"
  by (cases ob; cases "ob_requested ob") (auto simp: from_observation_def and_then_eq_Inr)

lemma range_observation_round:
  assumes "env_laws env" and "encode_range_observation env ob = Ok bs"
  shows "decode_range_observation env bs = Ok ob"
proof -
  have e: "cbor_laws (me_range env)" "range_head_law (me_range env)"
    using assms(1) by (simp_all add: env_laws_def)
  obtain w where w: "from_observation ob = Ok w" "encode_wire (me_range env) w FmtRangeObservation = Ok bs"
    "length bs \<le> MAX_RANGE_OBSERVATION_BYTES"
    using assms(2) by (auto simp: encode_range_observation_def and_then_eq_Inr check_payload_len_def split: if_splits)
  have "take 2 bs = [0x88, 0x01]"
    using w(1,2) e(2)
    by (auto simp: from_observation_def and_then_eq_Inr range_head_law_def encode_wire_def map_err_eq_Inr split: byte_range_spec.splits)
  then have "peek_version bs FmtRangeObservation MAX_RANGE_OBSERVATION_BYTES = Ok ()"
    using head_version [OF _ _ _ w(3), of "0x88"] by simp
  then show ?thesis
    using wire_round [OF e(1) w(2)] observation_round [OF w(1)] by (simp add: decode_range_observation_def)
qed

lemma range_support_round:
  assumes "env_laws env" and "range_support_wf r" and "range_support_to_wire env r = Ok (k, bs)"
  shows "range_support_from_wire env k bs = Ok r"
  using assms(2,3) range_observation_round [OF assms(1)]
  by (cases r) (auto simp: range_support_to_wire_def range_support_from_wire_def range_support_wf_def and_then_eq_Inr)

lemma validate_identity_digest:
  assumes "validate_identity env idm = Ok ()" and "idm_server_digest idm = Some d"
  shows "cd_encoded d \<noteq> []"
  using assms
  by (auto simp: validate_identity_def and_then_eq_Inr try_opt_def check_server_digest_def split: if_splits)

lemma identity_wire_round:
  assumes "url_laws ua" and "identity_wf ua idm" and "\<And>d. idm_server_digest idm = Some d \<Longrightarrow> cd_encoded d \<noteq> []"
  shows "into_identity_metadata ua (idm_range_support idm) (identity_to_wire ua idm k bs) = Ok idm"
proof -
  have "map_transpose into_digest (map_option from_digest (idm_server_digest idm)) = Ok (idm_server_digest idm)"
    by (rule map_transpose_Some) (simp add: digest_codes assms(3))
  then show ?thesis
    using assms(1,2)
    by (simp add: identity_to_wire_def identity_wf_def reference_codes public_url_round validator_codes secret_round protocol_codes)
qed

lemma error_kind_round:
  "(case e of None \<Rightarrow> True | Some k \<Rightarrow> error_kind_new k = Ok k) \<Longrightarrow> map_transpose error_kind_new e = Ok e"
  by (cases e) (simp_all add: map_transpose_def)

lemma validate_metadata_parts:
  assumes "validate_metadata env m = Ok ()"
  shows "validate_identity env (dm_identity m) = Ok ()"
    and "length (idm_redirect_chain (dm_identity m)) \<le> MAX_REDIRECTS"
    and "length (dm_url_history m) \<le> MAX_HISTORY_ENTRIES"
  using assms by (auto simp: validate_metadata_def and_then_eq_Inr split: if_splits)

lemma snapshot_wire_round:
  assumes "env_laws env" and "metadata_wf (me_url env) m" and "validate_metadata env m = Ok ()"
    and "from_metadata env m = Ok w"
  shows "into_metadata env w = Ok m" and "snapshot_bounds w = Ok ()"
proof -
  have ua: "url_laws (me_url env)"
    using assms(1) by (simp add: env_laws_def)
  obtain k bs t p where w: "range_support_to_wire env (idm_range_support (dm_identity m)) = Ok (k, bs)"
    "path_to_wire (dm_target_path m) = Ok t" "path_to_wire (dm_part_path m) = Ok p"
    "w = IdentitySnapshotWireV1 1 (dm_id m) (state_code (dm_state m)) (dm_created_at_ms m) (dm_updated_at_ms m)
             t p (dm_total_length m) (dm_covered_bytes m) (dm_queue_position m) (dm_priority m)
             (dm_error_kind m) (dm_space_reserved m)
             (identity_to_wire (me_url env) (dm_identity m) k bs)
             (map (\<lambda>e. HistoryWire (from_reference (me_url env) (he_url e)) (he_seen_at_ms e)) (dm_url_history m))"
    using assms(4) by (auto simp: from_metadata_def and_then_eq_Inr)
  have m: "download_id_from_slice (dm_id m) = Ok (dm_id m)" "identity_wf (me_url env) (dm_identity m)"
    "map_transpose error_kind_new (dm_error_kind m) = Ok (dm_error_kind m)"
    using assms(2) error_kind_round by (auto simp: metadata_wf_def)
  have r: "range_support_from_wire env k bs = Ok (idm_range_support (dm_identity m))"
    using range_support_round [OF assms(1) _ w(1)] m(2) by (simp add: identity_wf_def)
  have i: "into_identity_metadata (me_url env) (idm_range_support (dm_identity m))
      (identity_to_wire (me_url env) (dm_identity m) k bs) = Ok (dm_identity m)"
    using identity_wire_round [OF ua m(2)] validate_identity_digest [OF validate_metadata_parts(1) [OF assms(3)]] by blast
  have h: "map_collect (into_history_entry (me_url env))
      (map (\<lambda>e. HistoryWire (from_reference (me_url env) (he_url e)) (he_seen_at_ms e)) (dm_url_history m)) = Ok (dm_url_history m)"
    using assms(2) by (intro map_collect_map) (auto simp: metadata_wf_def list_all_iff reference_codes [OF ua])
  have k: "wire_range (identity_to_wire (me_url env) (dm_identity m) k bs) = (k, bs)"
    by (simp add: identity_to_wire_def)
  show "into_metadata env w = Ok m"
    by (simp add: w(4) k r m(1,3) i h state_codes path_round [OF w(2)] path_round [OF w(3)])
  show "snapshot_bounds w = Ok ()"
    using validate_metadata_parts(2,3) [OF assms(3)] by (simp add: w(4) identity_to_wire_def bounded_vec_def)
qed

text \<open>
  C14.  A download record survives the journal.  Whatever record the snapshot encoder accepts, the decoder
  gives back exactly, with the range proof rebuilt from its observation rather than trusted.
\<close>

theorem identity_snapshot_roundtrip:
  assumes "env_laws env" and "metadata_wf (me_url env) m" and "encode_identity_snapshot env m = Ok bs"
  shows "decode_identity_snapshot env bs = Ok m"
proof -
  have cb: "cbor_laws (me_snapshot env)" "snapshot_head_law (me_snapshot env)"
    using assms(1) by (simp_all add: env_laws_def)
  obtain w where w: "validate_metadata env m = Ok ()" "from_metadata env m = Ok w"
    "encode_wire (me_snapshot env) w FmtIdentitySnapshot = Ok bs" "length bs \<le> MAX_PAYLOAD_LEN"
    using assms(3) by (auto simp: encode_identity_snapshot_def and_then_eq_Inr check_payload_len_def split: if_splits)
  have "take 2 bs = [0x8f, 0x01]"
    using w(2,3) cb(2)
    by (auto simp: from_metadata_def and_then_eq_Inr snapshot_head_law_def encode_wire_def map_err_eq_Inr)
  then have "peek_version bs FmtIdentitySnapshot MAX_PAYLOAD_LEN = Ok ()"
    using head_version [OF _ _ _ w(4), of "0x8f"] by simp
  then show ?thesis
    using snapshot_wire_round [OF assms(1,2) w(1,2)] bounded_wire_round [OF cb(1) w(3)] wire_round(2) [OF cb(1) w(3)] w(1)
    by (simp add: decode_identity_snapshot_def)
qed

text \<open>Intervals in order, disjoint, non-empty and inside the representation.\<close>

fun ascending :: "u64 \<Rightarrow> u64 \<Rightarrow> (u64 \<times> u64) list \<Rightarrow> bool" where
  "ascending total_len p [] = True"
| "ascending total_len p ((s, e) # rest) = (p \<le> s \<and> s < e \<and> e \<le> total_len \<and> ascending total_len e rest)"

definition span :: "(u64 \<times> u64) list \<Rightarrow> nat" where
  "span ivs = sum_list (map (\<lambda>(s, e). unat e - unat s) ivs)"

lemma span_simps [simp]: "span [] = 0" "span ((s, e) # ivs) = unat e - unat s + span ivs"
  by (simp_all add: span_def)

lemma validate_loop_iff:
  assumes "unat cov \<le> unat (case prev of Some p \<Rightarrow> p | None \<Rightarrow> 0)"
  shows "validate_loop t prev cov ivs = Ok c \<longleftrightarrow>
    ascending t (case prev of Some p \<Rightarrow> p | None \<Rightarrow> 0) ivs \<and> unat c = unat cov + span ivs"
  using assms
proof (induction ivs arbitrary: prev cov)
  case Nil
  then show ?case
    by (auto simp: word_unat_eq_iff)
next
  case (Cons iv ivs)
  obtain s e where iv: "iv = (s, e)"
    by (cases iv)
  let ?p = "case prev of Some p \<Rightarrow> p | None \<Rightarrow> 0"
  show ?case
  proof (cases "s < e \<and> e \<le> t \<and> ?p \<le> s")
    case True
    then have u: "unat s < unat e" "unat ?p \<le> unat s" and d: "unat (e - s) = unat e - unat s"
      by (simp_all add: word_less_nat_alt word_le_nat_alt unat_minus_le)
    then have n: "unat cov + unat (e - s) < 2 ^ 64"
      using Cons.prems unat_lt_2p [of e] by simp
    then have c: "checked_add cov (e - s) = Some (cov + (e - s))" and v: "unat (cov + (e - s)) = unat cov + (unat e - unat s)"
      using d by (simp_all add: checked_add_def unat_add_lem [THEN iffD1])
    have "validate_loop t (Some e) (cov + (e - s)) ivs = Ok c \<longleftrightarrow> ascending t e ivs \<and> unat c = unat (cov + (e - s)) + span ivs"
      using Cons.IH [of "cov + (e - s)" "Some e"] Cons.prems u v by simp
    then show ?thesis
      using True c v by (auto simp: iv not_le not_less split: option.splits)
  next
    case False
    then show ?thesis
      by (auto simp: iv not_le not_less split: option.splits)
  qed
qed

lemma ascending_less: "ascending t p ivs \<Longrightarrow> (s, e) \<in> set ivs \<Longrightarrow> p \<le> s \<and> s < e \<and> e \<le> t"
  by (induction ivs arbitrary: p) fastforce+

lemma ascending_card:
  "ascending t p ivs \<Longrightarrow> card {b. \<exists>(s, e) \<in> set ivs. s \<le> b \<and> b < e} = span ivs"
proof (induction ivs arbitrary: p)
  case (Cons iv ivs)
  obtain s e where iv: "iv = (s, e)"
    by (cases iv)
  have asc: "ascending t e ivs"
    using Cons.prems iv by simp
  have "{b. \<exists>(s, e) \<in> set (iv # ivs). s \<le> b \<and> b < e} =
      {b. s \<le> b \<and> b < e} \<union> {b. \<exists>(s, e) \<in> set ivs. s \<le> b \<and> b < e}"
    by (auto simp: iv)
  moreover have "{b. s \<le> b \<and> b < e} \<inter> {b. \<exists>(s, e) \<in> set ivs. s \<le> b \<and> b < e} = {}"
    using ascending_less [OF asc] by fastforce
  ultimately show ?case
    using Cons.IH [OF asc] by (simp add: card_Un_disjoint card_word_range iv)
qed simp

text \<open>
  C15.  A checkpoint is accepted exactly when its intervals are non-empty, in order, disjoint and inside the
  representation (and its stored counts, if any, agree); its byte count is then the number of distinct
  bytes the intervals cover, and the checked addition never overflows.
\<close>

theorem checkpoint_validation_exact:
  "validate_intervals t ivs expected = Ok cp \<longleftrightarrow>
     length ivs \<le> MAX_CHECKPOINT_INTERVALS \<and> ascending t 0 ivs \<and>
     cp_total_length cp = t \<and> cp_intervals cp = ivs \<and>
     unat (cp_covered_bytes cp) = card {b. \<exists>(s, e) \<in> set ivs. s \<le> b \<and> b < e} \<and>
     expected \<in> {None, Some (cp_covered_bytes cp, cp_covered_bytes cp)}"
proof -
  have "validate_loop t None 0 ivs = Ok c \<longleftrightarrow> ascending t 0 ivs \<and> unat c = card {b. \<exists>(s, e) \<in> set ivs. s \<le> b \<and> b < e}" for c
    using validate_loop_iff [of 0 None t ivs c] ascending_card [of t 0 ivs] by auto
  then show ?thesis
    by (cases cp; cases expected) (auto simp: validate_intervals_def and_then_eq_Inr split: if_splits)
qed

text \<open>A small environment: URLs are their text, the codecs know the values of one example.\<close>

definition demo_url :: "string url_api" where
  "demo_url = \<lparr>ua_parse = Some, ua_as_str = (\<lambda>u. u), ua_scheme = takeWhile (\<lambda>c. c \<noteq> CHR '':''),
     ua_username = (\<lambda>_. []), ua_password = (\<lambda>_. None),
     ua_query = (\<lambda>u. map_option snd (split_once CHR ''?'' u)),
     ua_fragment = (\<lambda>u. map_option snd (split_once CHR 0x23 u)),
     ua_set_username = (\<lambda>_ u. Ok u), ua_set_password = (\<lambda>_ u. Ok u),
     ua_set_query = (\<lambda>_ u. takeWhile (\<lambda>c. c \<noteq> CHR ''?'') u),
     ua_set_fragment = (\<lambda>_ u. takeWhile (\<lambda>c. c \<noteq> CHR 0x23) u)\<rparr>"

definition one_value :: "'w \<Rightarrow> bytes \<Rightarrow> 'w cbor" where
  "one_value w0 bs0 = \<lparr>cb_write = (\<lambda>w. if w = w0 then Ok bs0 else Err ''unsupported''),
     cb_read = (\<lambda>bs. if bs = bs0 then Ok (w0, length bs0) else Err ''unsupported'')\<rparr>"

text \<open>The CBOR of a path of fewer than 24 bytes.\<close>

definition short_path :: "path_wire cbor" where
  "short_path = \<lparr>
     cb_write = (\<lambda>w. case w of PathWire k p \<Rightarrow>
        if k \<le> 23 \<and> length p < 24 then Ok (0x82 # k # (0x40 + of_nat (length p)) # p) else Err ''unsupported''),
     cb_read = (\<lambda>bs. case bs of
        t # k # n # p \<Rightarrow> if t = 0x82 \<and> k \<le> 23 \<and> length p < 24 \<and> n = 0x40 + of_nat (length p)
                         then Ok (PathWire k p, length bs) else Err ''unsupported''
      | _ \<Rightarrow> Err ''unsupported'')\<rparr>"

definition demo_observation :: range_observation where
  "demo_observation = \<lparr>ob_requested = FromTo 0 0, ob_status = 206,
     ob_content_range = Some (display (CrBytes 0 0 (Some 8))), ob_content_encoding = None, ob_body_len = 1\<rparr>"

definition demo_proof :: range_proof where
  "demo_proof = \<lparr>rp_total_length = 8, rp_observed = CrBytes 0 0 (Some 8), rp_requested = FromTo 0 0,
     rp_observation = demo_observation\<rparr>"

definition demo_reference :: "string url_reference" where
  "demo_reference = \<lparr>ur_public_url = ''https://h/f'', ur_secret_ref = Some ''keyring:downpour/a1''\<rparr>"

definition demo_identity :: "string identity_metadata" where
  "demo_identity = \<lparr>idm_current_url = demo_reference, idm_final_url = Some demo_reference,
     idm_redirect_chain = [demo_reference], idm_page_url = None, idm_origin = ''https://h/'',
     idm_validator = StrongETag ''a'', idm_server_digest = Some \<lparr>cd_algorithm = Sha256, cd_encoded = ''AA''\<rparr>,
     idm_content_type = None, idm_suggested_filename = Some ''f'', idm_request_context_ref = None,
     idm_probed_at_ms = 5, idm_protocol = Http2, idm_range_support = Proven demo_proof\<rparr>"

definition demo_id :: bytes where
  "demo_id = [0, 0, 0, 0, 0, 0, 0x70, 0, 0x80, 0, 0, 0, 0, 0, 0, 1]"

definition demo_metadata :: "string download_metadata" where
  "demo_metadata = \<lparr>dm_id = demo_id, dm_state = Paused, dm_created_at_ms = 5, dm_updated_at_ms = 6,
     dm_target_path = ''/d/f'', dm_part_path = ''/d/f.dppart'', dm_total_length = Some 8, dm_covered_bytes = 4,
     dm_queue_position = None, dm_priority = 0, dm_error_kind = None, dm_space_reserved = True,
     dm_identity = demo_identity, dm_url_history = [\<lparr>he_url = demo_reference, he_seen_at_ms = 5\<rparr>]\<rparr>"

definition demo_range_wire :: range_wire where
  "demo_range_wire = RangeObservationWireV1 1 0 0 (Some 0) 206 (Some (display (CrBytes 0 0 (Some 8)))) None 1"

definition demo_snapshot :: snapshot_wire where
  "demo_snapshot = IdentitySnapshotWireV1 1 demo_id 4 5 6 (PathWire 0 (path_bytes ''/d/f''))
     (PathWire 0 (path_bytes ''/d/f.dppart'')) (Some 8) 4 None 0 None True
     (identity_to_wire demo_url demo_identity 0 (Some [0x88, 0x01]))
     [HistoryWire (from_reference demo_url demo_reference) 5]"

definition demo_env :: "string md_env" where
  "demo_env = \<lparr>me_url = demo_url, me_range = one_value demo_range_wire [0x88, 0x01], me_path = short_path,
     me_checkpoint = one_value (CheckpointWireV1 1 8 4 [(0, 4)]) [0x84, 0x01, 0x08, 0x04, 0x81, 0x82, 0x00, 0x04],
     me_snapshot = one_value demo_snapshot [0x8f, 0x01]\<rparr>"

lemma one_value_laws: "cbor_laws (one_value w bs)"
  by (auto simp: cbor_laws_def one_value_def split: if_splits)

lemma demo_env_laws: "env_laws demo_env"
proof -
  have "cbor_laws short_path"
    by (auto simp: cbor_laws_def short_path_def split: path_wire.splits if_splits)
  moreover have "path_size_law short_path"
    by (auto simp: path_size_law_def short_path_def split: if_splits)
  moreover have "range_head_law (one_value demo_range_wire [0x88, 0x01])" "snapshot_head_law (one_value demo_snapshot [0x8f, 0x01])"
    by (auto simp: range_head_law_def snapshot_head_law_def one_value_def split: if_splits)
  moreover have "checkpoint_head_law (one_value (CheckpointWireV1 1 8 4 [(0, 4)]) [0x84, 0x01, 0x08, 0x04, 0x81, 0x82, 0x00, 0x04])"
    by (auto simp: checkpoint_head_law_def one_value_def cbor_head_def cbor_initial_def split: if_splits)
  ultimately show ?thesis
    by (simp add: env_laws_def demo_env_def one_value_laws url_laws_def demo_url_def)
qed

lemma demo_rebuild: "rebuild_proof demo_observation = Ok (Proven demo_proof)"
proof -
  have "from_str (display (CrBytes 0 0 (Some 8))) = Ok (CrBytes 0 0 (Some 8))"
    by (rule from_str_display) simp
  then show ?thesis
    by (simp add: rebuild_proof_def demo_observation_def demo_proof_def from_observed_response_def Let_def del: display.simps)
qed

lemma demo_reference_facts:
  "url_reference_wf demo_url demo_reference"
  "public_url_wf demo_url ''https://h/''"
  by (simp_all add: url_reference_wf_def public_url_wf_def secret_wf_def demo_reference_def demo_url_def is_http_def
      has_private_component_def MAX_URL_BYTES_def secret_ref_new_def MAX_SECRET_REF_BYTES_def strip_prefix_def
      starts_with_def is_ascii_alphanumeric_def is_ascii_lowercase_def is_ascii_digit_def is_ascii_upper_def ord_of_def)

lemma demo_metadata_wf: "metadata_wf demo_url demo_metadata"
  using demo_rebuild
  by (simp add: metadata_wf_def demo_metadata_def identity_wf_def demo_identity_def demo_reference_facts secret_wf_def
      range_support_wf_def demo_proof_def download_id_from_slice_def try_from_bytes_def demo_id_def)

lemma demo_range_encodes: "encode_range_observation demo_env demo_observation = Ok [0x88, 0x01]"
  by (simp add: encode_range_observation_def from_observation_def demo_observation_def check_observation_text_def try_opt_def
      check_len_def MAX_HEADER_BYTES_def show_u64_def decimal.simps [of 0] decimal.simps [of 8] encode_wire_def demo_env_def one_value_def demo_range_wire_def
      check_payload_len_def MAX_RANGE_OBSERVATION_BYTES_def)

lemma demo_paths:
  "path_to_wire ''/d/f'' = Ok (PathWire 0 (path_bytes ''/d/f''))"
  "path_to_wire ''/d/f.dppart'' = Ok (PathWire 0 (path_bytes ''/d/f.dppart''))"
  by (simp_all add: path_to_wire_def path_bytes_def ord_of_def check_path_len_def MAX_PATH_BYTES_def)

lemma demo_valid: "validate_metadata demo_env demo_metadata = Ok ()"
proof -
  have "validate_url_reference demo_url demo_reference = Ok ()"
    by (simp add: validate_url_reference_def demo_url_def demo_reference_def check_len_def try_opt_def MAX_URL_BYTES_def
        MAX_SECRET_REF_BYTES_def)
  then have "validate_identity demo_env demo_identity = Ok ()" "validate_url_reference demo_url demo_reference = Ok ()"
    using demo_range_encodes
    by (simp_all add: validate_identity_def demo_identity_def demo_env_def try_opt_def check_len_def demo_url_def
        MAX_URL_BYTES_def MAX_HEADER_BYTES_def MAX_FILENAME_BYTES_def check_server_digest_def check_range_support_def demo_proof_def)
  moreover have "idm_range_support demo_identity = Proven demo_proof" "idm_probed_at_ms demo_identity = 5"
    "length (idm_redirect_chain demo_identity) = 1"
    by (simp_all add: demo_identity_def)
  ultimately show ?thesis
    by (simp add: validate_metadata_def demo_metadata_def sqlite_u64_def optional_sqlite_u64_def map_transpose_def demo_proof_def
        MAX_REDIRECTS_def MAX_HISTORY_ENTRIES_def try_opt_def validate_history_entry_def demo_env_def demo_paths)
qed

lemma demo_encodes: "encode_identity_snapshot demo_env demo_metadata = Ok [0x8f, 0x01]"
proof -
  have "from_metadata demo_env demo_metadata = Ok demo_snapshot"
    using demo_range_encodes
    by (simp add: from_metadata_def demo_metadata_def demo_identity_def demo_proof_def range_support_to_wire_def demo_paths
        demo_snapshot_def demo_env_def)
  then show ?thesis
    using demo_valid by (simp add: encode_identity_snapshot_def encode_wire_def demo_env_def one_value_def check_payload_len_def MAX_PAYLOAD_LEN_def)
qed

lemma demo_env_wf: "metadata_wf (me_url demo_env) demo_metadata"
  using demo_metadata_wf by (simp add: demo_env_def)

theorem identity_snapshot_roundtrip_witness:
  "encode_identity_snapshot demo_env demo_metadata = Ok [0x8f, 0x01] \<and>
   decode_identity_snapshot demo_env [0x8f, 0x01] = Ok demo_metadata"
  using identity_snapshot_roundtrip [OF demo_env_laws demo_env_wf demo_encodes] demo_encodes by blast

lemma ascending_try_new: "ascending t p ivs \<Longrightarrow> map_collect (\<lambda>(s, e). interval_try_new s e) ivs = Ok ivs"
  by (induction t p ivs rule: ascending.induct) (auto simp: interval_try_new_def not_le)

lemma preflight_accepts:
  assumes "n < 2 ^ 64" and "n \<le> MAX_CHECKPOINT_INTERVALS"
  shows "preflight_checkpoint_count ([0x84, 0x01] @ cbor_head 0 t @ cbor_head 0 c @ cbor_head 4 (of_nat n) @ rest) = Ok ()"
proof -
  define bs where "bs = [0x84, 0x01] @ cbor_head 0 t @ cbor_head 0 c @ cbor_head 4 (of_nat n) @ rest"
  have h: "cbor_head 4 4 = [0x84]" "cbor_head 0 1 = [0x01]"
    by (simp_all add: cbor_head_def cbor_initial_def)
  have 1: "parse_cbor_head bs 0 FmtCheckpoint = Ok (4, 4, 1)"
    using parse_head [of 4 "[]" 4 "0x01 # cbor_head 0 t @ cbor_head 0 c @ cbor_head 4 (of_nat n) @ rest" FmtCheckpoint]
    by (simp add: bs_def h)
  have 2: "parse_cbor_head bs 1 FmtCheckpoint = Ok (0, 1, 2)"
    using parse_head [of 0 "[0x84]" 1 "cbor_head 0 t @ cbor_head 0 c @ cbor_head 4 (of_nat n) @ rest" FmtCheckpoint]
    by (simp add: bs_def h)
  have 3: "parse_cbor_head bs 2 FmtCheckpoint = Ok (0, t, 2 + length (cbor_head 0 t))"
    using parse_head [of 0 "[0x84, 0x01]" t "cbor_head 0 c @ cbor_head 4 (of_nat n) @ rest" FmtCheckpoint]
    by (simp add: bs_def numeral_2_eq_2)
  have 4: "parse_cbor_head bs (2 + length (cbor_head 0 t)) FmtCheckpoint = Ok (0, c, 2 + length (cbor_head 0 t) + length (cbor_head 0 c))"
    using parse_head [of 0 "[0x84, 0x01] @ cbor_head 0 t" c "cbor_head 4 (of_nat n) @ rest" FmtCheckpoint]
    by (simp add: bs_def numeral_2_eq_2)
  obtain k where 5: "parse_cbor_head bs (2 + length (cbor_head 0 t) + length (cbor_head 0 c)) FmtCheckpoint = Ok (4, of_nat n, k)"
    using parse_head [of 4 "[0x84, 0x01] @ cbor_head 0 t @ cbor_head 0 c" "of_nat n" rest FmtCheckpoint]
    by (simp add: bs_def numeral_2_eq_2 add.assoc)
  have "unat (of_nat n :: u64) = n"
    using assms(1) by (simp add: unat_of_nat)
  then show ?thesis
    unfolding bs_def [symmetric] using assms(2) by (simp add: preflight_checkpoint_count_def 1 2 [simplified] 3 4 [simplified] 5 [simplified])
qed

lemma checkpoint_round:
  assumes "env_laws env" and "checkpoint_try_new t ivs = Ok cp" and "encode_cbor env cp = Ok bs"
  shows "decode_cbor env bs (cp_covered_bytes cp) = Ok cp"
proof -
  have laws: "cbor_laws (me_checkpoint env)" "checkpoint_head_law (me_checkpoint env)"
    using assms(1) by (simp_all add: env_laws_def)
  obtain c where c: "length ivs \<le> MAX_CHECKPOINT_INTERVALS" "validate_loop t None 0 ivs = Ok c"
    "cp = \<lparr>cp_total_length = t, cp_covered_bytes = c, cp_intervals = ivs\<rparr>"
    using assms(2) by (auto simp: checkpoint_try_new_def validate_intervals_def and_then_eq_Inr split: if_splits)
  let ?w = "CheckpointWireV1 1 t c ivs"
  have w: "encode_wire (me_checkpoint env) ?w FmtCheckpoint = Ok bs" "length bs \<le> MAX_CHECKPOINT_BYTES"
    using assms(3) c(3) by (auto simp: encode_cbor_def and_then_eq_Inr check_payload_len_def split: if_splits)
  obtain rest where bs: "bs = [0x84, 0x01] @ cbor_head 0 t @ cbor_head 0 c @ cbor_head 4 (of_nat (length ivs)) @ rest"
    using w(1) laws(2) unfolding encode_wire_def map_err_eq_Inr checkpoint_head_law_def by blast
  have "peek_version bs FmtCheckpoint MAX_CHECKPOINT_BYTES = Ok ()"
    using head_version [OF _ _ _ w(2), of "0x84"] bs by simp
  moreover have "preflight_checkpoint_count bs = Ok ()"
    unfolding bs using c(1) by (intro preflight_accepts) (simp_all add: MAX_CHECKPOINT_INTERVALS_def)
  moreover have "decode_wire (bounded_read checkpoint_bounds (me_checkpoint env)) bs FmtCheckpoint = Ok ?w"
    using c(1) by (intro bounded_wire_round [OF laws(1) w(1)]) (simp add: bounded_vec_def)
  moreover have "map_collect (\<lambda>(s, e). interval_try_new s e) ivs = Ok ivs"
    using c(2) validate_loop_iff [of 0 None t ivs c] by (auto intro: ascending_try_new)
  ultimately show ?thesis
    using wire_round(2) [OF laws(1) w(1)] c by (simp add: decode_cbor_def validate_intervals_def)
qed

text \<open>
  C16.  No secret reaches the plaintext metadata.  Whatever the URL crate does, an accepted reference keeps
  an HTTP(S) address with no userinfo, query or fragment, of bounded length; if the submitted URL had any
  of these, the reference carries the keyring locator the caller supplied; and the text written to the
  database for it reads back as this same reference.
\<close>

theorem persisted_url_is_public:
  assumes "ua_parse ua raw = Some u" and "url_reference_parse ua raw secret = Ok r"
  shows "ua_scheme ua (ur_public_url r) \<in> {''http'', ''https''} \<and>
    ua_username ua (ur_public_url r) = [] \<and> ua_password ua (ur_public_url r) = None \<and>
    ua_query ua (ur_public_url r) = None \<and> ua_fragment ua (ur_public_url r) = None \<and>
    length (ua_as_str ua (ur_public_url r)) \<le> MAX_URL_BYTES \<and> ur_secret_ref r = secret \<and>
    (ua_username ua u \<noteq> [] \<or> ua_password ua u \<noteq> None \<or> ua_query ua u \<noteq> None \<or> ua_fragment ua u \<noteq> None
       \<longrightarrow> secret \<noteq> None) \<and>
    (ua_username ua u = [] \<and> ua_password ua u = None \<and> ua_query ua u = None \<and> ua_fragment ua u = None
       \<longrightarrow> ur_public_url r = u) \<and>
    (url_laws ua \<and> secret_wf secret \<longrightarrow>
       url_reference_from_parts ua (ua_as_str ua (ur_public_url r)) (ur_secret_ref r) = Ok r)"
proof -
  have wf: "public_url_wf ua (ur_public_url r)" "ur_secret_ref r = secret" "has_private_component ua u \<longrightarrow> secret \<noteq> None"
    "\<not> has_private_component ua u \<longrightarrow> ur_public_url r = u"
    using assms
    by (auto simp: url_reference_parse_def try_from_url_def check_len_def public_url_wf_def and_then_eq_Inr split: if_splits)
  then show ?thesis
    using url_reference_round [of ua r]
    by (auto simp: public_url_wf_def url_reference_wf_def has_private_component_def is_http_def)
qed

theorem persisted_url_is_public_witness:
  "\<exists>r. url_reference_parse demo_url ''https://h/f?token=1'' (Some ''keyring:downpour/a1'') = Ok r \<and>
     ur_public_url r = ''https://h/f'' \<and> ua_query demo_url (ur_public_url r) = None \<and>
     url_reference_from_parts demo_url (ur_public_url r) (ur_secret_ref r) = Ok r"
proof -
  let ?r = "\<lparr>ur_public_url = ''https://h/f'', ur_secret_ref = Some ''keyring:downpour/a1''\<rparr>"
  have u: "ua_parse demo_url ''https://h/f?token=1'' = Some ''https://h/f?token=1''"
    by (simp add: demo_url_def)
  have r: "url_reference_parse demo_url ''https://h/f?token=1'' (Some ''keyring:downpour/a1'') = Ok ?r"
    by (simp add: url_reference_parse_def demo_url_def is_http_def has_private_component_def strip_private_def try_from_url_def
        check_len_def MAX_URL_BYTES_def)
  have "url_laws demo_url" "secret_wf (Some ''keyring:downpour/a1'')" "ua_as_str demo_url ''https://h/f'' = ''https://h/f''"
    using demo_env_laws demo_reference_facts(1)
    by (simp_all add: env_laws_def demo_env_def url_reference_wf_def demo_reference_def demo_url_def)
  then show ?thesis
    using persisted_url_is_public [OF u r] r by auto
qed

end
