(* ===== verification/MetadataStore.thy ===== *)
theory MetadataStore
  imports MetadataWire "HOL-Library.AList" "HOL-Library.List_Lexorder"
begin

text \<open>
  The SQLite store of \<open>downpour-storage/src/metadata.rs\<close>.  Each table of the schema is a list of rows, keyed
  tables association lists; a statement is its effect on the tables together with the constraints the
  schema declares, and one entry of \<open>st_faults\<close> says whether SQLite fails it.  A transaction that does
  not commit leaves the tables as they were.
\<close>

section \<open>Tables\<close>

record download_row =
  dr_state :: string
  dr_created_at :: int
  dr_updated_at :: int
  dr_target_path :: bytes
  dr_part_path :: bytes
  dr_total_length :: "int option"
  dr_covered_bytes :: int
  dr_queue_position :: "int option"
  dr_priority :: int
  dr_error_kind :: "string option"
  dr_space_reserved :: int

record identity_row =
  ir_current_url :: string
  ir_current_url_ref :: "string option"
  ir_final_url :: "string option"
  ir_final_url_ref :: "string option"
  ir_page_url :: "string option"
  ir_page_url_ref :: "string option"
  ir_origin :: string
  ir_validator_kind :: string
  ir_validator_value :: "string option"
  ir_server_digest :: "string option"
  ir_content_type :: "string option"
  ir_suggested_name :: "string option"
  ir_request_context_ref :: "string option"
  ir_probed_at :: int
  ir_protocol :: string
  ir_range_state :: string
  ir_range_observation :: "bytes option"

record redirect_row =
  rr_download :: bytes
  rr_hop :: int
  rr_public_url :: string
  rr_secret_ref :: "string option"

record history_row =
  hr_download :: bytes
  hr_entry :: int
  hr_public_url :: string
  hr_secret_ref :: "string option"
  hr_seen_at :: int

record checkpoint_row =
  ck_journal_seq :: int
  ck_covered_bytes :: int
  ck_interval_map :: bytes
  ck_written_at :: int

record md_store =
  st_downloads :: "(bytes \<times> download_row) list"
  st_identities :: "(bytes \<times> identity_row) list"
  st_redirects :: "redirect_row list"
  st_history :: "history_row list"
  st_checkpoints :: "(bytes \<times> checkpoint_row) list"
  st_faults :: "bool list"

section \<open>Statements\<close>

type_synonym 'a sql = "md_store \<Rightarrow> md_store \<times> (metadata_error + 'a)"

definition sql_bind :: "'a sql \<Rightarrow> ('a \<Rightarrow> 'b sql) \<Rightarrow> 'b sql" where
  "sql_bind f g s = (case f s of (s1, Err e) \<Rightarrow> (s1, Err e) | (s1, Ok a) \<Rightarrow> g a s1)"

definition sql_lift :: "metadata_error + 'a \<Rightarrow> 'a sql" where
  "sql_lift r s = (s, r)"

definition statement :: "(md_store \<Rightarrow> (md_store \<times> 'a) option) \<Rightarrow> 'a sql" where
  "statement f s =
     (let s1 = s\<lparr>st_faults := tl (st_faults s)\<rparr> in
      if st_faults s \<noteq> [] \<and> hd (st_faults s) then (s1, Err MeSqlite)
      else (case f s1 of None \<Rightarrow> (s1, Err MeSqlite) | Some (s2, a) \<Rightarrow> (s2, Ok a)))"

definition select :: "(md_store \<Rightarrow> 'a) \<Rightarrow> 'a sql" where
  "select f = statement (\<lambda>s. Some (s, f s))"

definition transaction :: "unit sql \<Rightarrow> unit sql" where
  "transaction body s =
     (case select (\<lambda>_. ()) s of
        (s1, Err e) \<Rightarrow> (s1, Err e)
      | (s1, Ok _) \<Rightarrow>
          (case sql_bind body (\<lambda>_. select (\<lambda>_. ())) s1 of
             (s2, Err e) \<Rightarrow> (s1\<lparr>st_faults := st_faults s2\<rparr>, Err e)
           | (s2, Ok _) \<Rightarrow> (s2, Ok ())))"

definition insert_download :: "bytes \<Rightarrow> download_row \<Rightarrow> unit sql" where
  "insert_download i row = statement (\<lambda>s.
     if length i = 16 \<and> dr_space_reserved row \<in> {0, 1}
     then Some (s\<lparr>st_downloads := AList.update i row (st_downloads s)\<rparr>, ()) else None)"

definition insert_identity :: "bytes \<Rightarrow> identity_row \<Rightarrow> unit sql" where
  "insert_identity i row = statement (\<lambda>s.
     if map_of (st_downloads s) i \<noteq> None \<and> ir_range_state row \<in> {''proven'', ''absent'', ''unknown''} \<and>
        (ir_range_state row = ''proven'' \<longleftrightarrow> ir_range_observation row \<noteq> None)
     then Some (s\<lparr>st_identities := AList.update i row (st_identities s)\<rparr>, ()) else None)"

definition delete_redirects :: "bytes \<Rightarrow> unit sql" where
  "delete_redirects i = statement (\<lambda>s. Some (s\<lparr>st_redirects := filter (\<lambda>r. rr_download r \<noteq> i) (st_redirects s)\<rparr>, ()))"

definition insert_redirect :: "redirect_row \<Rightarrow> unit sql" where
  "insert_redirect row = statement (\<lambda>s.
     if map_of (st_downloads s) (rr_download row) \<noteq> None \<and> 0 \<le> rr_hop row \<and>
        \<not> list_ex (\<lambda>r. rr_download r = rr_download row \<and> rr_hop r = rr_hop row) (st_redirects s)
     then Some (s\<lparr>st_redirects := st_redirects s @ [row]\<rparr>, ()) else None)"

definition delete_history :: "bytes \<Rightarrow> unit sql" where
  "delete_history i = statement (\<lambda>s. Some (s\<lparr>st_history := filter (\<lambda>r. hr_download r \<noteq> i) (st_history s)\<rparr>, ()))"

definition insert_history :: "history_row \<Rightarrow> unit sql" where
  "insert_history row = statement (\<lambda>s.
     if map_of (st_downloads s) (hr_download row) \<noteq> None \<and> 0 \<le> hr_entry row \<and>
        \<not> list_ex (\<lambda>r. hr_download r = hr_download row \<and> hr_entry r = hr_entry row) (st_history s)
     then Some (s\<lparr>st_history := st_history s @ [row]\<rparr>, ()) else None)"

definition insert_checkpoint :: "bytes \<Rightarrow> checkpoint_row \<Rightarrow> unit sql" where
  "insert_checkpoint i row = statement (\<lambda>s.
     if map_of (st_downloads s) i \<noteq> None
     then Some (s\<lparr>st_checkpoints := AList.update i row (st_checkpoints s)\<rparr>, ()) else None)"

section \<open>Saving\<close>

record 'u prepared_download =
  pd_metadata :: "'u download_metadata"
  pd_target_path :: bytes
  pd_part_path :: bytes
  pd_range_state :: string
  pd_range_observation :: "bytes option"
  pd_validator_kind :: string
  pd_validator_value :: "string option"
  pd_digest :: "string option"
  pd_state :: string
  pd_protocol :: string

definition range_state_parts :: "'u md_env \<Rightarrow> range_support \<Rightarrow> metadata_error + string \<times> bytes option" where
  "range_state_parts env r =
     (case r of
        Proven p \<Rightarrow> and_then (encode_range_observation env (rp_observation p)) (\<lambda>bs. Ok (''proven'', Some bs))
      | Absent \<Rightarrow> Ok (''absent'', None)
      | Unknown \<Rightarrow> Ok (''unknown'', None))"

definition prepared_new :: "'u md_env \<Rightarrow> 'u download_metadata \<Rightarrow> metadata_error + 'u prepared_download" where
  "prepared_new env m =
     and_then (encode_identity_snapshot env m) (\<lambda>_.
     and_then (encode_path env (dm_target_path m)) (\<lambda>target_path.
     and_then (encode_path env (dm_part_path m)) (\<lambda>part_path.
     and_then (range_state_parts env (idm_range_support (dm_identity m))) (\<lambda>(range_state, range_observation).
       Ok \<lparr>pd_metadata = m, pd_target_path = target_path, pd_part_path = part_path,
           pd_range_state = range_state, pd_range_observation = range_observation,
           pd_validator_kind = fst (validator_parts (idm_validator (dm_identity m))),
           pd_validator_value = snd (validator_parts (idm_validator (dm_identity m))),
           pd_digest = map_option digest_text (idm_server_digest (dm_identity m)),
           pd_state = state_name (dm_state m), pd_protocol = md_protocol_name (idm_protocol (dm_identity m))\<rparr>))))"

definition download_params :: "'u prepared_download \<Rightarrow> metadata_error + download_row" where
  "download_params pd =
     (let m = pd_metadata pd in
      and_then (sqlite_u64 ''created_at'' (dm_created_at_ms m)) (\<lambda>created.
      and_then (sqlite_u64 ''updated_at'' (dm_updated_at_ms m)) (\<lambda>updated.
      and_then (optional_sqlite_u64 ''total_length'' (dm_total_length m)) (\<lambda>total_len.
      and_then (sqlite_u64 ''covered_bytes'' (dm_covered_bytes m)) (\<lambda>covered.
      and_then (optional_sqlite_u64 ''queue_position'' (dm_queue_position m)) (\<lambda>queue.
        Ok \<lparr>dr_state = pd_state pd, dr_created_at = created, dr_updated_at = updated,
            dr_target_path = pd_target_path pd, dr_part_path = pd_part_path pd, dr_total_length = total_len,
            dr_covered_bytes = covered, dr_queue_position = queue, dr_priority = sint (dm_priority m),
            dr_error_kind = dm_error_kind m, dr_space_reserved = (if dm_space_reserved m then 1 else 0)\<rparr>))))))"

definition identity_params :: "'u url_api \<Rightarrow> 'u prepared_download \<Rightarrow> metadata_error + identity_row" where
  "identity_params ua pd =
     (let idm = dm_identity (pd_metadata pd);
          final_parts = optional_url_parts ua (idm_final_url idm);
          page_parts = optional_url_parts ua (idm_page_url idm)
      in and_then (sqlite_u64 ''probed_at'' (idm_probed_at_ms idm)) (\<lambda>probed.
           Ok \<lparr>ir_current_url = ua_as_str ua (ur_public_url (idm_current_url idm)),
               ir_current_url_ref = ur_secret_ref (idm_current_url idm),
               ir_final_url = fst final_parts, ir_final_url_ref = snd final_parts,
               ir_page_url = fst page_parts, ir_page_url_ref = snd page_parts,
               ir_origin = ua_as_str ua (idm_origin idm), ir_validator_kind = pd_validator_kind pd,
               ir_validator_value = pd_validator_value pd, ir_server_digest = pd_digest pd,
               ir_content_type = idm_content_type idm, ir_suggested_name = idm_suggested_filename idm,
               ir_request_context_ref = idm_request_context_ref idm, ir_probed_at = probed,
               ir_protocol = pd_protocol pd, ir_range_state = pd_range_state pd,
               ir_range_observation = pd_range_observation pd\<rparr>))"

text \<open>\<open>i64::try_from(usize)\<close> on a list index.\<close>

definition sqlite_index :: "string \<Rightarrow> nat \<Rightarrow> metadata_error + int" where
  "sqlite_index field n =
     (if n < 2 ^ 63 then Ok (int n)
      else Err (MeIntegerOutOfRange field (case try_from_nat n of Some v \<Rightarrow> v | None \<Rightarrow> - 1)))"

fun write_redirects :: "'u url_api \<Rightarrow> bytes \<Rightarrow> nat \<Rightarrow> 'u url_reference list \<Rightarrow> unit sql" where
  "write_redirects ua i n [] = sql_lift (Ok ())"
| "write_redirects ua i n (r # rs) =
     sql_bind (sql_lift (sqlite_index ''redirect_chain.hop'' n)) (\<lambda>hop.
     sql_bind (insert_redirect \<lparr>rr_download = i, rr_hop = hop, rr_public_url = ua_as_str ua (ur_public_url r),
                               rr_secret_ref = ur_secret_ref r\<rparr>) (\<lambda>_.
       write_redirects ua i (Suc n) rs))"

fun write_history :: "'u url_api \<Rightarrow> bytes \<Rightarrow> nat \<Rightarrow> 'u url_history_entry list \<Rightarrow> unit sql" where
  "write_history ua i n [] = sql_lift (Ok ())"
| "write_history ua i n (e # es) =
     sql_bind (sql_lift (sqlite_index ''url_history.entry'' n)) (\<lambda>entry.
     sql_bind (sql_lift (sqlite_u64 ''url_history.seen_at'' (he_seen_at_ms e))) (\<lambda>seen.
     sql_bind (insert_history \<lparr>hr_download = i, hr_entry = entry,
                              hr_public_url = ua_as_str ua (ur_public_url (he_url e)),
                              hr_secret_ref = ur_secret_ref (he_url e), hr_seen_at = seen\<rparr>) (\<lambda>_.
       write_history ua i (Suc n) es)))"

definition write_prepared :: "'u md_env \<Rightarrow> 'u prepared_download \<Rightarrow> unit sql" where
  "write_prepared env pd =
     (let m = pd_metadata pd; i = dm_id m in
      sql_bind (sql_lift (download_params pd)) (\<lambda>drow.
      sql_bind (insert_download i drow) (\<lambda>_.
      sql_bind (sql_lift (identity_params (me_url env) pd)) (\<lambda>irow.
      sql_bind (insert_identity i irow) (\<lambda>_.
      sql_bind (delete_redirects i) (\<lambda>_.
      sql_bind (write_redirects (me_url env) i 0 (idm_redirect_chain (dm_identity m))) (\<lambda>_.
      sql_bind (delete_history i) (\<lambda>_.
        write_history (me_url env) i 0 (dm_url_history m)))))))))"

definition save_download :: "'u md_env \<Rightarrow> 'u download_metadata \<Rightarrow> unit sql" where
  "save_download env m =
     sql_bind (sql_lift (prepared_new env m)) (\<lambda>pd. transaction (write_prepared env pd))"

section \<open>Loading\<close>

definition sql_i32 :: "int \<Rightarrow> metadata_error + u32" where
  "sql_i32 v = (if - (2 ^ 31) \<le> v \<and> v < 2 ^ 31 then Ok (word_of_int v) else Err MeSqlite)"

text \<open>\<open>DownloadRow::from_row\<close> and \<open>from_raw\<close>; the result is a record without identity and history.\<close>

record loaded_row =
  lr_id :: bytes
  lr_state :: download_state
  lr_created_at_ms :: u64
  lr_updated_at_ms :: u64
  lr_target_path :: path
  lr_part_path :: path
  lr_total_length :: "u64 option"
  lr_covered_bytes :: u64
  lr_queue_position :: "u64 option"
  lr_priority :: u32
  lr_error_kind :: "string option"
  lr_space_reserved :: bool

definition download_from_raw :: "'u md_env \<Rightarrow> bytes \<Rightarrow> download_row \<Rightarrow> metadata_error + loaded_row" where
  "download_from_raw env raw_id row =
     and_then (sql_i32 (dr_priority row)) (\<lambda>priority.
     and_then (download_id_from_slice raw_id) (\<lambda>i.
     and_then (parse_state (dr_state row)) (\<lambda>state.
     and_then (rust_u64 ''created_at'' (dr_created_at row)) (\<lambda>created.
     and_then (rust_u64 ''updated_at'' (dr_updated_at row)) (\<lambda>updated.
     and_then (decode_path env (dr_target_path row)) (\<lambda>target_path.
     and_then (decode_path env (dr_part_path row)) (\<lambda>part_path.
     and_then (optional_rust_u64 ''total_length'' (dr_total_length row)) (\<lambda>total_len.
     and_then (rust_u64 ''covered_bytes'' (dr_covered_bytes row)) (\<lambda>covered.
     and_then (optional_rust_u64 ''queue_position'' (dr_queue_position row)) (\<lambda>queue.
     and_then (map_transpose error_kind_new (dr_error_kind row)) (\<lambda>kind.
     and_then (parse_sql_bool ''space_reserved'' (dr_space_reserved row)) (\<lambda>reserved.
       Ok \<lparr>lr_id = i, lr_state = state, lr_created_at_ms = created, lr_updated_at_ms = updated,
           lr_target_path = target_path, lr_part_path = part_path, lr_total_length = total_len,
           lr_covered_bytes = covered, lr_queue_position = queue, lr_priority = priority,
           lr_error_kind = kind, lr_space_reserved = reserved\<rparr>))))))))))))"

definition into_identity ::
    "'u md_env \<Rightarrow> 'u url_reference list \<Rightarrow> identity_row \<Rightarrow> metadata_error + 'u identity_metadata" where
  "into_identity env redirect_chain row =
     (let ua = me_url env in
      and_then (range_support_from_parts env (ir_range_state row) (ir_range_observation row)) (\<lambda>range_support.
      and_then (url_reference_from_parts ua (ir_current_url row) (ir_current_url_ref row)) (\<lambda>current.
      and_then (optional_url_reference_from_parts ua (ir_final_url row) (ir_final_url_ref row)) (\<lambda>final.
      and_then (optional_url_reference_from_parts ua (ir_page_url row) (ir_page_url_ref row)) (\<lambda>page.
      and_then (public_url_parse ua (ir_origin row)) (\<lambda>origin.
      and_then (validator_from_parts (ir_validator_kind row) (ir_validator_value row)) (\<lambda>v.
      and_then (digest_from_text (ir_server_digest row)) (\<lambda>digest.
      and_then (map_transpose secret_ref_new (ir_request_context_ref row)) (\<lambda>ctx.
      and_then (rust_u64 ''probed_at'' (ir_probed_at row)) (\<lambda>probed.
      and_then (parse_protocol (ir_protocol row)) (\<lambda>protocol.
        Ok \<lparr>idm_current_url = current, idm_final_url = final, idm_redirect_chain = redirect_chain,
            idm_page_url = page, idm_origin = origin, idm_validator = v, idm_server_digest = digest,
            idm_content_type = ir_content_type row, idm_suggested_filename = ir_suggested_name row,
            idm_request_context_ref = ctx, idm_probed_at_ms = probed, idm_protocol = protocol,
            idm_range_support = range_support\<rparr>)))))))))))"

definition redirect_rows :: "bytes \<Rightarrow> md_store \<Rightarrow> redirect_row list" where
  "redirect_rows i s = sort_key rr_hop (filter (\<lambda>r. rr_download r = i) (st_redirects s))"

definition load_redirects :: "'u url_api \<Rightarrow> bytes \<Rightarrow> 'u url_reference list sql" where
  "load_redirects ua i =
     sql_bind (select (\<lambda>_. ())) (\<lambda>_.
     sql_bind (select (redirect_rows i)) (\<lambda>rows.
     sql_lift
       (if length rows > MAX_REDIRECTS
        then Err (MeCollectionLimitExceeded FmtIdentitySnapshot (len_u64 rows) MAX_REDIRECTS)
        else map_collect (\<lambda>r. url_reference_from_parts ua (rr_public_url r) (rr_secret_ref r)) rows)))"

definition history_rows :: "bytes \<Rightarrow> md_store \<Rightarrow> history_row list" where
  "history_rows i s = sort_key hr_entry (filter (\<lambda>r. hr_download r = i) (st_history s))"

definition load_history :: "'u url_api \<Rightarrow> bytes \<Rightarrow> 'u url_history_entry list sql" where
  "load_history ua i =
     sql_bind (select (\<lambda>_. ())) (\<lambda>_.
     sql_bind (select (history_rows i)) (\<lambda>rows.
     sql_lift
       (if length rows > MAX_HISTORY_ENTRIES
        then Err (MeCollectionLimitExceeded FmtIdentitySnapshot (len_u64 rows) MAX_HISTORY_ENTRIES)
        else map_collect (\<lambda>r.
          and_then (url_reference_from_parts ua (hr_public_url r) (hr_secret_ref r)) (\<lambda>u.
          and_then (rust_u64 ''url_history.seen_at'' (hr_seen_at r)) (\<lambda>seen.
            Ok \<lparr>he_url = u, he_seen_at_ms = seen\<rparr>))) rows)))"

definition load_identity :: "'u md_env \<Rightarrow> bytes \<Rightarrow> 'u identity_metadata sql" where
  "load_identity env i =
     sql_bind (select (\<lambda>s. map_of (st_identities s) i)) (\<lambda>row.
     case row of
       None \<Rightarrow> sql_lift (Err MeSqlite)
     | Some row \<Rightarrow>
         sql_bind (load_redirects (me_url env) i) (\<lambda>redirect_chain. sql_lift (into_identity env redirect_chain row)))"

definition finish_download :: "'u md_env \<Rightarrow> loaded_row \<Rightarrow> 'u download_metadata sql" where
  "finish_download env row =
     sql_bind (load_identity env (lr_id row)) (\<lambda>identity.
     sql_bind (load_history (me_url env) (lr_id row)) (\<lambda>url_history.
       let m = \<lparr>dm_id = lr_id row, dm_state = lr_state row, dm_created_at_ms = lr_created_at_ms row,
                dm_updated_at_ms = lr_updated_at_ms row, dm_target_path = lr_target_path row,
                dm_part_path = lr_part_path row, dm_total_length = lr_total_length row,
                dm_covered_bytes = lr_covered_bytes row, dm_queue_position = lr_queue_position row,
                dm_priority = lr_priority row, dm_error_kind = lr_error_kind row,
                dm_space_reserved = lr_space_reserved row, dm_identity = identity, dm_url_history = url_history\<rparr>
       in sql_lift (and_then (validate_metadata env m) (\<lambda>_. Ok m))))"

text \<open>A row that does not convert is a conversion failure of SQLite.\<close>

definition load_download :: "'u md_env \<Rightarrow> bytes \<Rightarrow> 'u download_metadata option sql" where
  "load_download env i =
     sql_bind (select (\<lambda>s. map_of (st_downloads s) i)) (\<lambda>row.
     case row of
       None \<Rightarrow> sql_lift (Ok None)
     | Some row \<Rightarrow>
         sql_bind (sql_lift (map_err (\<lambda>_. MeSqlite) (download_from_raw env i row))) (\<lambda>loaded.
         sql_bind (finish_download env loaded) (\<lambda>m. sql_lift (Ok (Some m)))))"

fun load_all :: "'u md_env \<Rightarrow> bytes list \<Rightarrow> 'u download_metadata list sql" where
  "load_all env [] = sql_lift (Ok [])"
| "load_all env (raw # rest) =
     sql_bind (sql_lift (download_id_from_slice raw)) (\<lambda>i.
     sql_bind (load_download env i) (\<lambda>m.
     sql_bind (sql_lift (ok_or (MeInvalidValue ''downloads.id'') m)) (\<lambda>m.
     sql_bind (load_all env rest) (\<lambda>ms. sql_lift (Ok (m # ms))))))"

definition load_downloads :: "'u md_env \<Rightarrow> 'u download_metadata list sql" where
  "load_downloads env =
     sql_bind (select (\<lambda>_. ())) (\<lambda>_.
     sql_bind (select (\<lambda>s. sort (map fst (st_downloads s)))) (load_all env))"

section \<open>The checkpoint cache\<close>

definition download_total_length :: "bytes \<Rightarrow> u64 sql" where
  "download_total_length i =
     sql_bind (select (\<lambda>s. map_of (st_downloads s) i)) (\<lambda>row.
     sql_lift
       (and_then (ok_or (MeInvalidCheckpoint ''owning download does not exist'') row) (\<lambda>row.
        and_then (optional_rust_u64 ''downloads.total_length'' (dr_total_length row)) (\<lambda>total_len.
          ok_or (MeInvalidCheckpoint ''owning download has no immutable total'') total_len))))"

definition save_checkpoint :: "'u md_env \<Rightarrow> bytes \<Rightarrow> u64 \<Rightarrow> u64 \<Rightarrow> checkpoint \<Rightarrow> bool sql" where
  "save_checkpoint env i journal_sequence written_at_ms cp =
     sql_bind (download_total_length i) (\<lambda>owning_total.
     if cp_total_length cp \<noteq> owning_total
     then sql_lift (Err (MeInvalidCheckpoint ''checkpoint total differs from owning download''))
     else
       (case encode_cbor env cp of
          Err (MePayloadTooLarge FmtCheckpoint _ _) \<Rightarrow> sql_lift (Ok False)
        | Err e \<Rightarrow> sql_lift (Err e)
        | Ok encoded \<Rightarrow>
            sql_bind (sql_lift (sqlite_u64 ''journal_seq'' journal_sequence)) (\<lambda>seq.
            sql_bind (sql_lift (sqlite_u64 ''covered_bytes'' (cp_covered_bytes cp))) (\<lambda>covered.
            sql_bind (sql_lift (sqlite_u64 ''written_at'' written_at_ms)) (\<lambda>written.
            sql_bind (insert_checkpoint i \<lparr>ck_journal_seq = seq, ck_covered_bytes = covered,
                                          ck_interval_map = encoded, ck_written_at = written\<rparr>) (\<lambda>_.
              sql_lift (Ok True)))))))"

record persisted_checkpoint =
  pc_journal_sequence :: u64
  pc_written_at_ms :: u64
  pc_checkpoint :: checkpoint

text \<open>The join of the checkpoint row with its download's total length.\<close>

definition checkpoint_join :: "bytes \<Rightarrow> md_store \<Rightarrow> (checkpoint_row \<times> int option) option" where
  "checkpoint_join i s =
     (case (map_of (st_checkpoints s) i, map_of (st_downloads s) i) of
        (Some c, Some d) \<Rightarrow> Some (c, dr_total_length d)
      | _ \<Rightarrow> None)"

definition checkpoint_from_row ::
    "'u md_env \<Rightarrow> checkpoint_row \<times> int option \<Rightarrow> metadata_error + persisted_checkpoint" where
  "checkpoint_from_row env cd =
     (let (row, total_sql) = cd in
      and_then (rust_u64 ''journal_seq'' (ck_journal_seq row)) (\<lambda>seq.
      and_then (rust_u64 ''covered_bytes'' (ck_covered_bytes row)) (\<lambda>covered.
      and_then (rust_u64 ''written_at'' (ck_written_at row)) (\<lambda>written.
      and_then (decode_cbor env (ck_interval_map row) covered) (\<lambda>cp.
      and_then (optional_rust_u64 ''downloads.total_length'' total_sql) (\<lambda>total_len.
      and_then (ok_or (MeInvalidCheckpoint ''owning download has no immutable total'') total_len) (\<lambda>owning_total.
      if cp_total_length cp \<noteq> owning_total
      then Err (MeInvalidCheckpoint ''checkpoint total differs from owning download'')
      else Ok \<lparr>pc_journal_sequence = seq, pc_written_at_ms = written, pc_checkpoint = cp\<rparr>)))))))"

definition load_checkpoint :: "'u md_env \<Rightarrow> bytes \<Rightarrow> persisted_checkpoint option sql" where
  "load_checkpoint env i =
     sql_bind (select (checkpoint_join i)) (\<lambda>row. sql_lift (map_transpose (checkpoint_from_row env) row))"

section \<open>Statement lemmas\<close>

named_theorems sql_rules \<open>successful runs of database code\<close>

lemma sql_bind_Ok [sql_rules]: "sql_bind f g s = (s', Ok b) \<longleftrightarrow> (\<exists>s1 a. f s = (s1, Ok a) \<and> g a s1 = (s', Ok b))"
  by (auto simp: sql_bind_def split: prod.splits sum.splits)

lemma sql_lift_Ok [sql_rules]: "sql_lift r s = (s', Ok b) \<longleftrightarrow> s' = s \<and> r = Ok b"
  by (auto simp: sql_lift_def)

lemma statement_Ok: "statement f s = (s', Ok a) \<Longrightarrow> \<exists>fs. f (s\<lparr>st_faults := fs\<rparr>) = Some (s', a)"
  by (auto simp: statement_def Let_def split: if_splits option.splits)

text \<open>Reading with no failure scheduled.\<close>

lemma select_quiet [simp]: "st_faults s = [] \<Longrightarrow> select f s = (s, Ok (f s))"
  by (cases s) (simp add: select_def statement_def Let_def)

lemma sql_bind_quiet [simp]:
  "f s = (s1, Ok a) \<Longrightarrow> sql_bind f g s = g a s1"
  "f s = (s1, Err e) \<Longrightarrow> sql_bind f g s = (s1, Err e)"
  by (simp_all add: sql_bind_def)

lemma sql_lift_simp [simp]: "sql_lift r s = (s, r)"
  by (simp add: sql_lift_def)

definition same_tables :: "md_store \<Rightarrow> md_store \<Rightarrow> bool" where
  "same_tables s s' =
     (st_downloads s' = st_downloads s \<and> st_identities s' = st_identities s \<and> st_redirects s' = st_redirects s \<and>
      st_history s' = st_history s \<and> st_checkpoints s' = st_checkpoints s)"

lemma select_tables: "select f s = (s', r) \<Longrightarrow> same_tables s s'"
  by (auto simp: select_def statement_def same_tables_def Let_def split: if_splits)

lemma insert_download_Ok:
  assumes "insert_download i row s = (s', Ok u)"
  shows "st_downloads s' = AList.update i row (st_downloads s)" "st_identities s' = st_identities s"
    "st_redirects s' = st_redirects s" "st_history s' = st_history s" "st_checkpoints s' = st_checkpoints s"
  using statement_Ok [OF assms [unfolded insert_download_def]] by (auto split: if_splits)

lemma insert_identity_Ok:
  assumes "insert_identity i row s = (s', Ok u)"
  shows "st_downloads s' = st_downloads s" "st_identities s' = AList.update i row (st_identities s)"
    "st_redirects s' = st_redirects s" "st_history s' = st_history s" "st_checkpoints s' = st_checkpoints s"
  using statement_Ok [OF assms [unfolded insert_identity_def]] by (auto split: if_splits)

lemma insert_redirect_Ok:
  assumes "insert_redirect row s = (s', Ok u)"
  shows "st_downloads s' = st_downloads s" "st_identities s' = st_identities s"
    "st_redirects s' = st_redirects s @ [row]" "st_history s' = st_history s" "st_checkpoints s' = st_checkpoints s"
  using statement_Ok [OF assms [unfolded insert_redirect_def]] by (auto split: if_splits)

lemma insert_history_Ok:
  assumes "insert_history row s = (s', Ok u)"
  shows "st_downloads s' = st_downloads s" "st_identities s' = st_identities s"
    "st_redirects s' = st_redirects s" "st_history s' = st_history s @ [row]" "st_checkpoints s' = st_checkpoints s"
  using statement_Ok [OF assms [unfolded insert_history_def]] by (auto split: if_splits)

lemma delete_redirects_Ok:
  assumes "delete_redirects i s = (s', Ok u)"
  shows "st_downloads s' = st_downloads s" "st_identities s' = st_identities s"
    "st_redirects s' = filter (\<lambda>r. rr_download r \<noteq> i) (st_redirects s)" "st_history s' = st_history s"
    "st_checkpoints s' = st_checkpoints s"
  using statement_Ok [OF assms [unfolded delete_redirects_def]] by auto

lemma delete_history_Ok:
  assumes "delete_history i s = (s', Ok u)"
  shows "st_downloads s' = st_downloads s" "st_identities s' = st_identities s"
    "st_redirects s' = st_redirects s" "st_history s' = filter (\<lambda>r. hr_download r \<noteq> i) (st_history s)"
    "st_checkpoints s' = st_checkpoints s"
  using statement_Ok [OF assms [unfolded delete_history_def]] by auto

definition redirect_list :: "'u url_api \<Rightarrow> bytes \<Rightarrow> nat \<Rightarrow> 'u url_reference list \<Rightarrow> redirect_row list" where
  "redirect_list ua i n rs =
     map (\<lambda>(k, r). \<lparr>rr_download = i, rr_hop = int k, rr_public_url = ua_as_str ua (ur_public_url r), rr_secret_ref = ur_secret_ref r\<rparr>)
       (zip [n..<n + length rs] rs)"

definition history_list :: "'u url_api \<Rightarrow> bytes \<Rightarrow> nat \<Rightarrow> 'u url_history_entry list \<Rightarrow> history_row list" where
  "history_list ua i n es =
     map (\<lambda>(k, e). \<lparr>hr_download = i, hr_entry = int k, hr_public_url = ua_as_str ua (ur_public_url (he_url e)),
                    hr_secret_ref = ur_secret_ref (he_url e), hr_seen_at = uint (he_seen_at_ms e)\<rparr>)
       (zip [n..<n + length es] es)"

lemma list_rows_simps [simp]:
  "redirect_list ua i n [] = []"
  "redirect_list ua i n (r # rs) =
     \<lparr>rr_download = i, rr_hop = int n, rr_public_url = ua_as_str ua (ur_public_url r), rr_secret_ref = ur_secret_ref r\<rparr> #
     redirect_list ua i (Suc n) rs"
  "history_list ua i n [] = []"
  "history_list ua i n (e # es) =
     \<lparr>hr_download = i, hr_entry = int n, hr_public_url = ua_as_str ua (ur_public_url (he_url e)),
      hr_secret_ref = ur_secret_ref (he_url e), hr_seen_at = uint (he_seen_at_ms e)\<rparr> # history_list ua i (Suc n) es"
  by (simp_all add: redirect_list_def history_list_def upt_conv_Cons del: upt_Suc)

lemma write_redirects_Ok:
  "write_redirects ua i n rs s = (s', Ok u) \<Longrightarrow>
     st_downloads s' = st_downloads s \<and> st_identities s' = st_identities s \<and> st_history s' = st_history s \<and>
     st_checkpoints s' = st_checkpoints s \<and> st_redirects s' = st_redirects s @ redirect_list ua i n rs"
proof (induction rs arbitrary: n s)
  case (Cons r rs)
  then obtain s1 u1 where "insert_redirect \<lparr>rr_download = i, rr_hop = int n, rr_public_url = ua_as_str ua (ur_public_url r),
      rr_secret_ref = ur_secret_ref r\<rparr> s = (s1, Ok u1)" "write_redirects ua i (Suc n) rs s1 = (s', Ok u)"
    by (auto simp: sql_rules sqlite_index_def split: if_splits)
  then show ?case
    using Cons.IH [of "Suc n" s1] by (simp add: insert_redirect_Ok)
qed simp

lemma write_history_Ok:
  "write_history ua i n es s = (s', Ok u) \<Longrightarrow>
     st_downloads s' = st_downloads s \<and> st_identities s' = st_identities s \<and> st_redirects s' = st_redirects s \<and>
     st_checkpoints s' = st_checkpoints s \<and> st_history s' = st_history s @ history_list ua i n es"
proof (induction es arbitrary: n s)
  case (Cons e es)
  then obtain s1 u1 where "insert_history \<lparr>hr_download = i, hr_entry = int n, hr_public_url = ua_as_str ua (ur_public_url (he_url e)),
      hr_secret_ref = ur_secret_ref (he_url e), hr_seen_at = uint (he_seen_at_ms e)\<rparr> s = (s1, Ok u1)"
    "write_history ua i (Suc n) es s1 = (s', Ok u)"
    by (auto simp: sql_rules sqlite_index_def sqlite_u64_def split: if_splits)
  then show ?case
    using Cons.IH [of "Suc n" s1] by (simp add: insert_history_Ok)
qed simp

text \<open>What a successful save leaves in the tables.\<close>

definition saved :: "'u md_env \<Rightarrow> 'u download_metadata \<Rightarrow> download_row \<Rightarrow> identity_row \<Rightarrow> md_store \<Rightarrow> md_store \<Rightarrow> bool" where
  "saved env m drow irow s s' =
     (st_downloads s' = AList.update (dm_id m) drow (st_downloads s) \<and>
      st_identities s' = AList.update (dm_id m) irow (st_identities s) \<and>
      st_redirects s' = filter (\<lambda>r. rr_download r \<noteq> dm_id m) (st_redirects s) @
        redirect_list (me_url env) (dm_id m) 0 (idm_redirect_chain (dm_identity m)) \<and>
      st_history s' = filter (\<lambda>r. hr_download r \<noteq> dm_id m) (st_history s) @
        history_list (me_url env) (dm_id m) 0 (dm_url_history m) \<and>
      st_checkpoints s' = st_checkpoints s)"

lemma write_prepared_Ok:
  assumes "write_prepared env pd s = (s', Ok u)"
  shows "\<exists>drow irow. download_params pd = Ok drow \<and> identity_params (me_url env) pd = Ok irow \<and>
    saved env (pd_metadata pd) drow irow s s'"
proof -
  let ?m = "pd_metadata pd"
  obtain drow irow s1 s2 s3 s4 s5 u1 u2 u3 u4 u5 where r: "download_params pd = Ok drow" "identity_params (me_url env) pd = Ok irow"
    "insert_download (dm_id ?m) drow s = (s1, Ok u1)" "insert_identity (dm_id ?m) irow s1 = (s2, Ok u2)"
    "delete_redirects (dm_id ?m) s2 = (s3, Ok u3)"
    "write_redirects (me_url env) (dm_id ?m) 0 (idm_redirect_chain (dm_identity ?m)) s3 = (s4, Ok u4)"
    "delete_history (dm_id ?m) s4 = (s5, Ok u5)" "write_history (me_url env) (dm_id ?m) 0 (dm_url_history ?m) s5 = (s', Ok u)"
    using assms by (auto simp: write_prepared_def Let_def sql_rules)
  then show ?thesis
    using write_redirects_Ok [OF r(6)] write_history_Ok [OF r(8)]
    by (simp add: saved_def insert_download_Ok [OF r(3)] insert_identity_Ok [OF r(4)] delete_redirects_Ok [OF r(5)]
        delete_history_Ok [OF r(7)])
qed

lemma transaction_Ok:
  assumes "transaction body s = (s', Ok u)"
  shows "\<exists>s1 s2 v. same_tables s s1 \<and> body s1 = (s2, Ok v) \<and> same_tables s2 s'"
  using assms select_tables
  by (auto simp: transaction_def sql_rules split: prod.splits sum.splits; blast)

lemma transaction_Err: "transaction body s = (s', Err e) \<Longrightarrow> same_tables s s'"
  using select_tables [of "\<lambda>_. ()" s]
  by (auto simp: transaction_def same_tables_def split: prod.splits sum.splits)

lemma save_download_Ok:
  assumes "save_download env m s = (s', Ok u)"
  shows "\<exists>pd drow irow. prepared_new env m = Ok pd \<and> download_params pd = Ok drow \<and>
    identity_params (me_url env) pd = Ok irow \<and> saved env m drow irow s s'"
proof -
  obtain pd where pd: "prepared_new env m = Ok pd" "transaction (write_prepared env pd) s = (s', Ok ())"
    using assms by (auto simp: save_download_def sql_rules)
  have m: "pd_metadata pd = m"
    using pd(1) by (auto simp: prepared_new_def and_then_eq_Inr)
  obtain s1 s2 v where t: "same_tables s s1" "write_prepared env pd s1 = (s2, Ok v)" "same_tables s2 s'"
    using transaction_Ok [OF pd(2)] by blast
  show ?thesis
    using write_prepared_Ok [OF t(2)] pd(1) t(1,3) m by (auto simp: same_tables_def saved_def)
qed

section \<open>Round trip\<close>

lemma select_row_lists:
  assumes "saved env m drow irow s s'"
  shows "redirect_rows (dm_id m) s' = redirect_list (me_url env) (dm_id m) 0 (idm_redirect_chain (dm_identity m))"
    and "history_rows (dm_id m) s' = history_list (me_url env) (dm_id m) 0 (dm_url_history m)"
proof -
  have r: "map rr_hop (redirect_list ua i n rs) = map int [n..<n + length rs]"
    "filter (\<lambda>r. rr_download r = i) (redirect_list ua i n rs) = redirect_list ua i n rs" for ua :: "'a url_api" and i n rs
    by (induction rs arbitrary: n) (simp_all add: upt_conv_Cons del: upt_Suc)
  have h: "map hr_entry (history_list ua i n es) = map int [n..<n + length es]"
    "filter (\<lambda>r. hr_download r = i) (history_list ua i n es) = history_list ua i n es" for ua :: "'a url_api" and i n es
    by (induction es arbitrary: n) (simp_all add: upt_conv_Cons del: upt_Suc)
  have s: "sorted (map int [n..<k])" for n k
    by (simp add: sorted_map)
  show "redirect_rows (dm_id m) s' = redirect_list (me_url env) (dm_id m) 0 (idm_redirect_chain (dm_identity m))"
    using assms by (simp add: redirect_rows_def saved_def r sort_key_id_if_sorted s)
  show "history_rows (dm_id m) s' = history_list (me_url env) (dm_id m) 0 (dm_url_history m)"
    using assms by (simp add: history_rows_def saved_def h sort_key_id_if_sorted s)
qed

lemma collect_redirects:
  assumes "url_laws ua" and "list_all (url_reference_wf ua) rs"
  shows "map_collect (\<lambda>r. url_reference_from_parts ua (rr_public_url r) (rr_secret_ref r)) (redirect_list ua i n rs) = Ok rs"
  using assms(2) by (induction rs arbitrary: n) (simp_all add: url_reference_round [OF assms(1)])

lemma collect_history:
  assumes "url_laws ua" and "list_all (\<lambda>e. url_reference_wf ua (he_url e)) es"
  shows "map_collect (\<lambda>r. and_then (url_reference_from_parts ua (hr_public_url r) (hr_secret_ref r)) (\<lambda>u.
          and_then (rust_u64 ''url_history.seen_at'' (hr_seen_at r)) (\<lambda>seen. Ok \<lparr>he_url = u, he_seen_at_ms = seen\<rparr>)))
      (history_list ua i n es) = Ok es"
  using assms(2) by (induction es arbitrary: n) (simp_all add: url_reference_round [OF assms(1)] rust_u64_def)

lemma length_row_lists: "length (redirect_list ua i n rs) = length rs" "length (history_list ua i n es) = length es"
  by (simp_all add: redirect_list_def history_list_def)

lemma range_parts_round:
  assumes "env_laws env" and "range_support_wf r" and "range_state_parts env r = Ok (k, bs)"
  shows "range_support_from_parts env k bs = Ok r"
  using assms(2,3) range_observation_round [OF assms(1)]
  by (cases r) (auto simp: range_state_parts_def range_support_from_parts_def range_support_wf_def and_then_eq_Inr)

lemma prepared_parts:
  assumes "prepared_new env m = Ok pd"
  shows "pd_metadata pd = m" and "validate_metadata env m = Ok ()"
    and "encode_path env (dm_target_path m) = Ok (pd_target_path pd)" "encode_path env (dm_part_path m) = Ok (pd_part_path pd)"
    and "range_state_parts env (idm_range_support (dm_identity m)) = Ok (pd_range_state pd, pd_range_observation pd)"
    and "pd_validator_kind pd = fst (validator_parts (idm_validator (dm_identity m)))"
    "pd_validator_value pd = snd (validator_parts (idm_validator (dm_identity m)))"
    "pd_digest pd = map_option digest_text (idm_server_digest (dm_identity m))"
    "pd_state pd = state_name (dm_state m)" "pd_protocol pd = md_protocol_name (idm_protocol (dm_identity m))"
  using assms by (auto simp: prepared_new_def encode_identity_snapshot_def and_then_eq_Inr)

lemma into_identity_round:
  assumes "env_laws env" and "metadata_wf (me_url env) m" and "prepared_new env m = Ok pd"
    and "identity_params (me_url env) pd = Ok row"
  shows "into_identity env (idm_redirect_chain (dm_identity m)) row = Ok (dm_identity m)"
proof -
  let ?i = "dm_identity m"
  have ua: "url_laws (me_url env)"
    using assms(1) by (simp add: env_laws_def)
  have wf: "identity_wf (me_url env) ?i"
    using assms(2) by (simp add: metadata_wf_def)
  have pd: "pd_metadata pd = m"
    using prepared_parts(1) [OF assms(3)] .
  obtain k where k: "sqlite_u64 ''probed_at'' (idm_probed_at_ms ?i) = Ok k" and row: "row =
      \<lparr>ir_current_url = ua_as_str (me_url env) (ur_public_url (idm_current_url ?i)),
       ir_current_url_ref = ur_secret_ref (idm_current_url ?i),
       ir_final_url = fst (optional_url_parts (me_url env) (idm_final_url ?i)),
       ir_final_url_ref = snd (optional_url_parts (me_url env) (idm_final_url ?i)),
       ir_page_url = fst (optional_url_parts (me_url env) (idm_page_url ?i)),
       ir_page_url_ref = snd (optional_url_parts (me_url env) (idm_page_url ?i)),
       ir_origin = ua_as_str (me_url env) (idm_origin ?i), ir_validator_kind = pd_validator_kind pd,
       ir_validator_value = pd_validator_value pd, ir_server_digest = pd_digest pd,
       ir_content_type = idm_content_type ?i, ir_suggested_name = idm_suggested_filename ?i,
       ir_request_context_ref = idm_request_context_ref ?i, ir_probed_at = k,
       ir_protocol = pd_protocol pd, ir_range_state = pd_range_state pd,
       ir_range_observation = pd_range_observation pd\<rparr>"
    using assms(4) by (auto simp: identity_params_def Let_def and_then_eq_Inr pd)
  have d: "digest_from_text (pd_digest pd) = Ok (idm_server_digest ?i)"
    using digest_codes(2) validate_identity_digest [OF validate_metadata_parts(1) [OF prepared_parts(2) [OF assms(3)]]]
    by (cases "idm_server_digest ?i") (auto simp: prepared_parts [OF assms(3)] digest_from_text_def)
  have r: "range_support_from_parts env (pd_range_state pd) (pd_range_observation pd) = Ok (idm_range_support ?i)"
    using range_parts_round [OF assms(1) _ prepared_parts(5) [OF assms(3)]] wf by (simp add: identity_wf_def)
  show ?thesis
    using wf d r sqlite_ints(1) [OF k]
    by (simp add: into_identity_def Let_def row identity_wf_def url_reference_round [OF ua] reference_codes(4) [OF ua]
        public_url_round [OF ua] secret_round protocol_codes prepared_parts(6-) [OF assms(3)] validator_codes)
qed

lemma download_from_raw_round:
  assumes "env_laws env" and "metadata_wf (me_url env) m" and "prepared_new env m = Ok pd" and "download_params pd = Ok row"
  shows "download_from_raw env (dm_id m) row =
    Ok \<lparr>lr_id = dm_id m, lr_state = dm_state m, lr_created_at_ms = dm_created_at_ms m, lr_updated_at_ms = dm_updated_at_ms m,
        lr_target_path = dm_target_path m, lr_part_path = dm_part_path m, lr_total_length = dm_total_length m,
        lr_covered_bytes = dm_covered_bytes m, lr_queue_position = dm_queue_position m, lr_priority = dm_priority m,
        lr_error_kind = dm_error_kind m, lr_space_reserved = dm_space_reserved m\<rparr>"
proof -
  have p: "cbor_laws (me_path env)" "path_size_law (me_path env)"
    using assms(1) by (simp_all add: env_laws_def)
  obtain a b c d e where q: "sqlite_u64 ''created_at'' (dm_created_at_ms m) = Ok a"
    "sqlite_u64 ''updated_at'' (dm_updated_at_ms m) = Ok b" "optional_sqlite_u64 ''total_length'' (dm_total_length m) = Ok c"
    "sqlite_u64 ''covered_bytes'' (dm_covered_bytes m) = Ok d" "optional_sqlite_u64 ''queue_position'' (dm_queue_position m) = Ok e"
    "row = \<lparr>dr_state = pd_state pd, dr_created_at = a, dr_updated_at = b,
            dr_target_path = pd_target_path pd, dr_part_path = pd_part_path pd, dr_total_length = c,
            dr_covered_bytes = d, dr_queue_position = e, dr_priority = sint (dm_priority m),
            dr_error_kind = dm_error_kind m, dr_space_reserved = (if dm_space_reserved m then 1 else 0)\<rparr>"
    using assms(4) by (auto simp: download_params_def Let_def and_then_eq_Inr prepared_parts(1) [OF assms(3)])
  have i: "sql_i32 (sint (dm_priority m)) = Ok (dm_priority m)"
    using sint_range_size [of "dm_priority m"] by (simp add: sql_i32_def word_size)
  have "map_transpose error_kind_new (dm_error_kind m) = Ok (dm_error_kind m)" "download_id_from_slice (dm_id m) = Ok (dm_id m)"
    using assms(2) error_kind_round by (auto simp: metadata_wf_def)
  then show ?thesis
    using i sqlite_ints(1) [OF q(1)] sqlite_ints(1) [OF q(2)] sqlite_ints(2) [OF q(3)] sqlite_ints(1) [OF q(4)]
      sqlite_ints(2) [OF q(5)] encode_path_round [OF p prepared_parts(3) [OF assms(3)]]
      encode_path_round [OF p prepared_parts(4) [OF assms(3)]]
    by (simp add: download_from_raw_def q(6) prepared_parts(9) [OF assms(3)] state_codes parse_sql_bool_def)
qed

lemma load_saved:
  assumes "env_laws env" and "metadata_wf (me_url env) m" and "prepared_new env m = Ok pd" and "download_params pd = Ok drow"
    and "identity_params (me_url env) pd = Ok irow" and "saved env m drow irow s s'" and "st_faults s' = []"
  shows "load_download env (dm_id m) s' = (s', Ok (Some m))"
proof -
  have ua: "url_laws (me_url env)"
    using assms(1) by (simp add: env_laws_def)
  have v: "validate_metadata env m = Ok ()"
    using prepared_parts(2) [OF assms(3)] .
  have rows: "map_of (st_downloads s') (dm_id m) = Some drow" "map_of (st_identities s') (dm_id m) = Some irow"
    using assms(6) by (simp_all add: saved_def update_conv')
  have red: "load_redirects (me_url env) (dm_id m) s' = (s', Ok (idm_redirect_chain (dm_identity m)))"
    using assms(2,7) validate_metadata_parts(2) [OF v]
    by (simp add: load_redirects_def sql_bind_def select_row_lists [OF assms(6)] length_row_lists collect_redirects [OF ua]
        metadata_wf_def identity_wf_def)
  have his: "load_history (me_url env) (dm_id m) s' = (s', Ok (dm_url_history m))"
    using assms(2,7) validate_metadata_parts(3) [OF v]
    by (simp add: load_history_def sql_bind_def select_row_lists [OF assms(6)] length_row_lists collect_history [OF ua]
        metadata_wf_def)
  have "load_identity env (dm_id m) s' = (s', Ok (dm_identity m))"
    using assms(7) by (simp add: load_identity_def sql_bind_def rows red into_identity_round [OF assms(1,2,3,5)])
  moreover have eq: "\<lparr>dm_id = dm_id m, dm_state = dm_state m, dm_created_at_ms = dm_created_at_ms m,
      dm_updated_at_ms = dm_updated_at_ms m, dm_target_path = dm_target_path m, dm_part_path = dm_part_path m,
      dm_total_length = dm_total_length m, dm_covered_bytes = dm_covered_bytes m, dm_queue_position = dm_queue_position m,
      dm_priority = dm_priority m, dm_error_kind = dm_error_kind m, dm_space_reserved = dm_space_reserved m,
      dm_identity = dm_identity m, dm_url_history = dm_url_history m\<rparr> = m"
    by (cases m) simp
  ultimately show ?thesis
    using assms(7) his v
    by (simp add: load_download_def sql_bind_def rows download_from_raw_round [OF assms(1,2,3,4)] finish_download_def Let_def eq)
qed

text \<open>What a reader of one download sees of the tables.\<close>

definition row_view :: "bytes \<Rightarrow> md_store \<Rightarrow> _" where
  "row_view i s = (map_of (st_downloads s) i, map_of (st_identities s) i, redirect_rows i s, history_rows i s)"

lemma load_download_view:
  assumes "st_faults s = []" and "st_faults t = []" and "row_view i s = row_view i t"
  shows "snd (load_download env i s) = snd (load_download env i t)"
proof (cases "map_of (st_downloads t) i")
  case None
  then show ?thesis
    using assms by (simp add: load_download_def sql_bind_def row_view_def)
next
  case (Some row)
  have i: "lr_id l = i" if "download_from_raw env i row = Ok l" for l
    using that by (auto simp: download_from_raw_def and_then_eq_Inr download_id_from_slice_def try_from_bytes_def split: if_splits)
  obtain r where "load_redirects (me_url env) i s = (s, r)" "load_redirects (me_url env) i t = (t, r)"
    using assms by (simp add: load_redirects_def sql_bind_def row_view_def)
  then obtain d where d: "load_identity env i s = (s, d)" "load_identity env i t = (t, d)"
    using assms by (cases "map_of (st_identities t) i"; cases r) (simp_all add: load_identity_def sql_bind_def row_view_def)
  obtain h where h: "load_history (me_url env) i s = (s, h)" "load_history (me_url env) i t = (t, h)"
    using assms by (simp add: load_history_def sql_bind_def row_view_def)
  have f: "\<exists>r. finish_download env l s = (s, r) \<and> finish_download env l t = (t, r)" if "lr_id l = i" for l
    using that d h by (cases d; cases h) (simp_all add: finish_download_def sql_bind_def Let_def)
  show ?thesis
  proof (cases "download_from_raw env i row")
    case (Inr l)
    then obtain r where "finish_download env l s = (s, r)" "finish_download env l t = (t, r)"
      using f i by blast
    then show ?thesis
      using assms Some Inr by (cases r) (simp_all add: load_download_def sql_bind_def row_view_def)
  qed (use assms Some in \<open>simp add: load_download_def sql_bind_def row_view_def\<close>)
qed

lemma saved_other_view:
  assumes "saved env m drow irow s s'" and "i \<noteq> dm_id m"
  shows "row_view i s' = row_view i s"
proof -
  have "filter (\<lambda>r. rr_download r = i) (redirect_list ua j n rs) = []" "filter (\<lambda>r. hr_download r = i) (history_list ua j n es) = []"
    if "j \<noteq> i" for ua :: "'a url_api" and j n rs es
    using that by (auto simp: redirect_list_def history_list_def filter_empty_conv)
  moreover have "(\<lambda>r :: redirect_row. rr_download r \<noteq> dm_id m \<and> rr_download r = i) = (\<lambda>r. rr_download r = i)"
    "(\<lambda>r :: history_row. hr_download r \<noteq> dm_id m \<and> hr_download r = i) = (\<lambda>r. hr_download r = i)"
    using assms(2) by auto
  ultimately show ?thesis
    using assms by (simp add: row_view_def saved_def update_conv' redirect_rows_def history_rows_def)
qed

text \<open>
  C12.  The database keeps download records faithfully and atomically.  After a save that reports success
  the record loads back exactly as saved, and every other download loads as before; a save that reports
  an error, at whichever statement SQLite failed, has changed no table.
\<close>

theorem save_load_roundtrip:
  assumes "env_laws env" and "metadata_wf (me_url env) m" and "save_download env m s = (s', r)"
  shows "case r of
      Ok _ \<Rightarrow> (st_faults s' = [] \<longrightarrow> load_download env (dm_id m) s' = (s', Ok (Some m))) \<and>
        (\<forall>i. i \<noteq> dm_id m \<longrightarrow>
           snd (load_download env i (s'\<lparr>st_faults := []\<rparr>)) = snd (load_download env i (s\<lparr>st_faults := []\<rparr>)))
    | Err _ \<Rightarrow> same_tables s s'"
proof (cases r)
  case (Inl e)
  then show ?thesis
    using assms(3) transaction_Err
    by (cases "prepared_new env m") (auto simp: save_download_def sql_bind_def same_tables_def split: prod.splits sum.splits)
next
  case (Inr u)
  then obtain pd drow irow where sv: "prepared_new env m = Ok pd" "download_params pd = Ok drow"
    "identity_params (me_url env) pd = Ok irow" "saved env m drow irow s s'"
    using save_download_Ok assms(3) by blast
  have "row_view i (s'\<lparr>st_faults := []\<rparr>) = row_view i (s\<lparr>st_faults := []\<rparr>)" if "i \<noteq> dm_id m" for i
    using saved_other_view [OF sv(4) that] by (simp add: row_view_def redirect_rows_def history_rows_def)
  then show ?thesis
    using Inr load_saved [OF assms(1,2) sv] load_download_view [of "s'\<lparr>st_faults := []\<rparr>" "s\<lparr>st_faults := []\<rparr>"] by auto
qed

definition empty_store :: md_store where
  "empty_store = \<lparr>st_downloads = [], st_identities = [], st_redirects = [], st_history = [], st_checkpoints = [], st_faults = []\<rparr>"

subsection \<open>Saving succeeds on a working database\<close>

lemma quiet_faults [simp]: "st_faults s = [] \<Longrightarrow> s\<lparr>st_faults := []\<rparr> = s"
  by (cases s) simp

lemma statement_quiet [simp]:
  "st_faults s = [] \<Longrightarrow> statement f s = (case f s of None \<Rightarrow> (s, Err MeSqlite) | Some (s2, a) \<Rightarrow> (s2, Ok a))"
  by (simp add: statement_def Let_def)

lemma write_redirects_quiet:
  assumes "st_faults s = []" and "map_of (st_downloads s) i \<noteq> None" and "n + length rs \<le> 2 ^ 63"
    and "list_all (\<lambda>r. rr_download r = i \<longrightarrow> rr_hop r < int n) (st_redirects s)"
  shows "write_redirects ua i n rs s = (s\<lparr>st_redirects := st_redirects s @ redirect_list ua i n rs\<rparr>, Ok ())"
  using assms
proof (induction rs arbitrary: n s)
  case (Cons r rs)
  let ?row = "\<lparr>rr_download = i, rr_hop = int n, rr_public_url = ua_as_str ua (ur_public_url r), rr_secret_ref = ur_secret_ref r\<rparr>"
  let ?s = "s\<lparr>st_redirects := st_redirects s @ [?row]\<rparr>"
  have "insert_redirect ?row s = (?s, Ok ())"
    using Cons.prems by (auto simp: insert_redirect_def list_ex_iff list_all_iff)
  moreover have "write_redirects ua i (Suc n) rs ?s = (?s\<lparr>st_redirects := st_redirects ?s @ redirect_list ua i (Suc n) rs\<rparr>, Ok ())"
    using Cons.prems by (intro Cons.IH) (auto simp: list_all_iff)
  ultimately show ?case
    using Cons.prems(3) by (simp add: sql_bind_def sqlite_index_def)
qed simp

lemma write_history_quiet:
  assumes "st_faults s = []" and "map_of (st_downloads s) i \<noteq> None" and "n + length es \<le> 2 ^ 63"
    and "list_all (\<lambda>r. hr_download r = i \<longrightarrow> hr_entry r < int n) (st_history s)"
    and "list_all (\<lambda>e. unat (he_seen_at_ms e) < 2 ^ 63) es"
  shows "write_history ua i n es s = (s\<lparr>st_history := st_history s @ history_list ua i n es\<rparr>, Ok ())"
  using assms
proof (induction es arbitrary: n s)
  case (Cons e es)
  let ?row = "\<lparr>hr_download = i, hr_entry = int n, hr_public_url = ua_as_str ua (ur_public_url (he_url e)),
      hr_secret_ref = ur_secret_ref (he_url e), hr_seen_at = uint (he_seen_at_ms e)\<rparr>"
  let ?s = "s\<lparr>st_history := st_history s @ [?row]\<rparr>"
  have "insert_history ?row s = (?s, Ok ())"
    using Cons.prems by (auto simp: insert_history_def list_ex_iff list_all_iff)
  moreover have "write_history ua i (Suc n) es ?s = (?s\<lparr>st_history := st_history ?s @ history_list ua i (Suc n) es\<rparr>, Ok ())"
    using Cons.prems by (intro Cons.IH) (auto simp: list_all_iff)
  ultimately show ?case
    using Cons.prems(3,5) by (simp add: sql_bind_def sqlite_index_def sqlite_u64_def)
qed simp

lemma try_each_Ok: "try_each f xs = Ok u \<longleftrightarrow> (\<forall>x \<in> set xs. f x = Ok ())"
  by (induction xs) (auto simp: and_then_eq_Inr)

lemma validate_metadata_ints:
  assumes "validate_metadata env m = Ok ()"
  shows "\<exists>a b c d e f. sqlite_u64 ''created_at'' (dm_created_at_ms m) = Ok a \<and> sqlite_u64 ''updated_at'' (dm_updated_at_ms m) = Ok b \<and>
      optional_sqlite_u64 ''total_length'' (dm_total_length m) = Ok c \<and> sqlite_u64 ''covered_bytes'' (dm_covered_bytes m) = Ok d \<and>
      optional_sqlite_u64 ''queue_position'' (dm_queue_position m) = Ok e \<and>
      sqlite_u64 ''probed_at'' (idm_probed_at_ms (dm_identity m)) = Ok f"
    and "list_all (\<lambda>e. unat (he_seen_at_ms e) < 2 ^ 63) (dm_url_history m)"
proof -
  show "\<exists>a b c d e f. sqlite_u64 ''created_at'' (dm_created_at_ms m) = Ok a \<and> sqlite_u64 ''updated_at'' (dm_updated_at_ms m) = Ok b \<and>
      optional_sqlite_u64 ''total_length'' (dm_total_length m) = Ok c \<and> sqlite_u64 ''covered_bytes'' (dm_covered_bytes m) = Ok d \<and>
      optional_sqlite_u64 ''queue_position'' (dm_queue_position m) = Ok e \<and>
      sqlite_u64 ''probed_at'' (idm_probed_at_ms (dm_identity m)) = Ok f"
    using assms by (auto simp: validate_metadata_def and_then_eq_Inr)
  have "try_each (validate_history_entry env) (dm_url_history m) = Ok ()"
    using assms by (auto simp: validate_metadata_def and_then_eq_Inr split: if_splits)
  then show "list_all (\<lambda>e. unat (he_seen_at_ms e) < 2 ^ 63) (dm_url_history m)"
    by (auto simp: try_each_Ok list_all_iff validate_history_entry_def sqlite_u64_def and_then_eq_Inr split: if_splits)
qed

lemma write_prepared_quiet:
  assumes "metadata_wf (me_url env) m" and "prepared_new env m = Ok pd" and "st_faults s = []"
  shows "\<exists>s'. write_prepared env pd s = (s', Ok ()) \<and> st_faults s' = []"
proof -
  have v: "validate_metadata env m = Ok ()" and pm: "pd_metadata pd = m"
    using prepared_parts [OF assms(2)] by blast+
  obtain drow irow where rows: "download_params pd = Ok drow" "identity_params (me_url env) pd = Ok irow"
    "dr_space_reserved drow \<in> {0, 1}" "ir_range_state irow = pd_range_state pd" "ir_range_observation irow = pd_range_observation pd"
    using validate_metadata_ints(1) [OF v] by (auto simp: download_params_def identity_params_def Let_def pm)
  have rs: "pd_range_state pd \<in> {''proven'', ''absent'', ''unknown''}"
    "pd_range_state pd = ''proven'' \<longleftrightarrow> pd_range_observation pd \<noteq> None"
    using prepared_parts(5) [OF assms(2)]
    by (cases "pd_range_observation pd"; auto simp: range_state_parts_def and_then_eq_Inr split: range_support.splits)+
  have id: "length (dm_id m) = 16"
    using assms(1) by (auto simp: metadata_wf_def download_id_from_slice_def split: if_splits)
  have len: "length (idm_redirect_chain (dm_identity m)) \<le> 2 ^ 63" "length (dm_url_history m) \<le> 2 ^ 63"
    using validate_metadata_parts(2,3) [OF v] by (simp_all add: MAX_REDIRECTS_def MAX_HISTORY_ENTRIES_def)
  define s1 where "s1 = s\<lparr>st_downloads := AList.update (dm_id m) drow (st_downloads s),
      st_identities := AList.update (dm_id m) irow (st_identities s),
      st_redirects := filter (\<lambda>r. rr_download r \<noteq> dm_id m) (st_redirects s)\<rparr>"
  define s2 where "s2 = s1\<lparr>st_redirects := st_redirects s1 @ redirect_list (me_url env) (dm_id m) 0 (idm_redirect_chain (dm_identity m)),
      st_history := filter (\<lambda>r. hr_download r \<noteq> dm_id m) (st_history s)\<rparr>"
  have q: "st_faults s1 = []" "map_of (st_downloads s1) (dm_id m) \<noteq> None"
    using assms(3) by (simp_all add: s1_def update_conv')
  have w: "write_redirects (me_url env) (dm_id m) 0 (idm_redirect_chain (dm_identity m)) s1 =
      (s1\<lparr>st_redirects := st_redirects s1 @ redirect_list (me_url env) (dm_id m) 0 (idm_redirect_chain (dm_identity m))\<rparr>, Ok ())"
    using len by (intro write_redirects_quiet [OF q]) (simp_all add: s1_def list_all_iff)
  have h: "write_history (me_url env) (dm_id m) 0 (dm_url_history m) s2 =
      (s2\<lparr>st_history := st_history s2 @ history_list (me_url env) (dm_id m) 0 (dm_url_history m)\<rparr>, Ok ())"
    using len validate_metadata_ints(2) [OF v] q by (intro write_history_quiet) (simp_all add: s2_def list_all_iff)
  have "write_prepared env pd s = write_history (me_url env) (dm_id m) 0 (dm_url_history m) s2"
    using assms(3) rows rs id w
    by (simp add: write_prepared_def Let_def sql_bind_def pm insert_download_def insert_identity_def delete_redirects_def
        delete_history_def update_conv' s1_def s2_def)
  then show ?thesis
    using h q(1) by (simp add: s2_def)
qed

text \<open>A record whose preparation succeeds is saved whenever SQLite does not fail.\<close>

lemma save_quiet:
  assumes "metadata_wf (me_url env) m" and "prepared_new env m = Ok pd" and "st_faults s = []"
  shows "\<exists>s'. save_download env m s = (s', Ok ()) \<and> st_faults s' = []"
proof -
  obtain s' where "write_prepared env pd s = (s', Ok ())" "st_faults s' = []"
    using write_prepared_quiet [OF assms] by blast
  then show ?thesis
    using assms(2,3) by (simp add: save_download_def sql_bind_def transaction_def)
qed

lemma demo_prepared:
  "prepared_new demo_env demo_metadata = Ok \<lparr>pd_metadata = demo_metadata,
     pd_target_path = 0x82 # 0 # 0x44 # path_bytes ''/d/f'', pd_part_path = 0x82 # 0 # 0x4b # path_bytes ''/d/f.dppart'',
     pd_range_state = ''proven'', pd_range_observation = Some [0x88, 0x01], pd_validator_kind = ''strong-etag'',
     pd_validator_value = Some ''a'', pd_digest = Some ''sha-256:AA'', pd_state = ''paused'', pd_protocol = ''h2''\<rparr>"
proof -
  have "encode_path demo_env ''/d/f'' = Ok (0x82 # 0 # 0x44 # path_bytes ''/d/f'')"
    "encode_path demo_env ''/d/f.dppart'' = Ok (0x82 # 0 # 0x4b # path_bytes ''/d/f.dppart'')"
    by (simp_all add: encode_path_def demo_paths encode_wire_def demo_env_def short_path_def path_bytes_def)
  then show ?thesis
    using demo_encodes demo_range_encodes
    by (simp add: prepared_new_def range_state_parts_def) (simp add: demo_metadata_def demo_identity_def demo_proof_def digest_text_def)
qed

lemma demo_save: "\<exists>s'. save_download demo_env demo_metadata empty_store = (s', Ok ()) \<and> st_faults s' = []"
  using save_quiet [OF demo_env_wf demo_prepared] by (simp add: empty_store_def)

theorem save_load_roundtrip_witness:
  "\<exists>s'. save_download demo_env demo_metadata empty_store = (s', Ok ()) \<and>
     load_download demo_env demo_id s' = (s', Ok (Some demo_metadata))"
proof -
  obtain s' where s: "save_download demo_env demo_metadata empty_store = (s', Ok ())" "st_faults s' = []"
    using demo_save by blast
  moreover have "dm_id demo_metadata = demo_id"
    by (simp add: demo_metadata_def)
  ultimately show ?thesis
    using save_load_roundtrip [OF demo_env_laws demo_env_wf s(1)] by auto
qed

section \<open>The cache\<close>

lemma insert_checkpoint_Ok:
  assumes "insert_checkpoint i row s = (s', Ok u)"
  shows "st_downloads s' = st_downloads s" "st_identities s' = st_identities s"
    "st_redirects s' = st_redirects s" "st_history s' = st_history s" "st_checkpoints s' = AList.update i row (st_checkpoints s)"
  using statement_Ok [OF assms [unfolded insert_checkpoint_def]] by (auto split: if_splits)

lemma total_length_tables: "download_total_length i s = (s', r) \<Longrightarrow> same_tables s s'"
  using select_tables [of "\<lambda>s. map_of (st_downloads s) i" s]
  by (auto simp: download_total_length_def sql_bind_def split: prod.splits sum.splits)

lemma save_checkpoint_Ok:
  assumes "save_checkpoint env i seq now cp s = (s', Ok b)"
  shows "st_downloads s' = st_downloads s" "st_identities s' = st_identities s"
    "st_redirects s' = st_redirects s" "st_history s' = st_history s"
    and "b \<Longrightarrow> \<exists>bs row. encode_cbor env cp = Ok bs \<and>
      st_checkpoints s' = AList.update i \<lparr>ck_journal_seq = uint seq, ck_covered_bytes = uint (cp_covered_bytes cp),
        ck_interval_map = bs, ck_written_at = uint now\<rparr> (st_checkpoints s) \<and>
      map_of (st_downloads s) i = Some row \<and> optional_rust_u64 ''downloads.total_length'' (dr_total_length row) = Ok (Some (cp_total_length cp))"
proof -
  obtain s1 t where t: "download_total_length i s = (s1, Ok t)" "cp_total_length cp = t"
    using assms by (auto simp: save_checkpoint_def sql_rules split: if_splits)
  have tab: "same_tables s s1"
    using total_length_tables [OF t(1)] .
  have row: "\<exists>row. map_of (st_downloads s) i = Some row \<and> optional_rust_u64 ''downloads.total_length'' (dr_total_length row) = Ok (Some t)"
    using t(1) select_tables [of "\<lambda>s. map_of (st_downloads s) i" s]
    by (auto simp: download_total_length_def sql_rules and_then_eq_Inr ok_or_eq_Inr select_def statement_def Let_def split: if_splits)
  consider "s' = s1" "\<not> b"
    | bs where "encode_cbor env cp = Ok bs" "insert_checkpoint i \<lparr>ck_journal_seq = uint seq,
        ck_covered_bytes = uint (cp_covered_bytes cp), ck_interval_map = bs, ck_written_at = uint now\<rparr> s1 = (s', Ok ())" "b"
    using assms t
    by (auto simp: save_checkpoint_def sql_rules sqlite_u64_def split: if_splits sum.splits metadata_error.splits metadata_format.splits)
  then have r: "st_downloads s' = st_downloads s \<and> st_identities s' = st_identities s \<and>
      st_redirects s' = st_redirects s \<and> st_history s' = st_history s \<and>
      (b \<longrightarrow> (\<exists>bs. encode_cbor env cp = Ok bs \<and>
      st_checkpoints s' = AList.update i \<lparr>ck_journal_seq = uint seq, ck_covered_bytes = uint (cp_covered_bytes cp),
        ck_interval_map = bs, ck_written_at = uint now\<rparr> (st_checkpoints s)))"
    using tab by cases (auto simp: same_tables_def insert_checkpoint_Ok)
  then show "st_downloads s' = st_downloads s" "st_identities s' = st_identities s"
    "st_redirects s' = st_redirects s" "st_history s' = st_history s"
    by blast+
  show "\<exists>bs row. encode_cbor env cp = Ok bs \<and>
      st_checkpoints s' = AList.update i \<lparr>ck_journal_seq = uint seq, ck_covered_bytes = uint (cp_covered_bytes cp),
        ck_interval_map = bs, ck_written_at = uint now\<rparr> (st_checkpoints s) \<and>
      map_of (st_downloads s) i = Some row \<and> optional_rust_u64 ''downloads.total_length'' (dr_total_length row) = Ok (Some (cp_total_length cp))" if b
    using r row that t(2) by blast
qed

lemma checkpoint_saved:
  assumes "env_laws env" and "checkpoint_try_new t ivs = Ok cp" and "save_checkpoint env i seq now cp s = (s', Ok True)"
    and "st_faults s' = []"
  shows "load_checkpoint env i s' = (s', Ok (Some \<lparr>pc_journal_sequence = seq, pc_written_at_ms = now, pc_checkpoint = cp\<rparr>))"
proof -
  obtain bs row where sv: "encode_cbor env cp = Ok bs"
    "st_checkpoints s' = AList.update i \<lparr>ck_journal_seq = uint seq, ck_covered_bytes = uint (cp_covered_bytes cp),
        ck_interval_map = bs, ck_written_at = uint now\<rparr> (st_checkpoints s)"
    "map_of (st_downloads s) i = Some row" "optional_rust_u64 ''downloads.total_length'' (dr_total_length row) = Ok (Some (cp_total_length cp))"
    using save_checkpoint_Ok(5) [OF assms(3)] by blast
  have "st_downloads s' = st_downloads s"
    using save_checkpoint_Ok(1) [OF assms(3)] .
  then have "checkpoint_join i s' = Some (\<lparr>ck_journal_seq = uint seq, ck_covered_bytes = uint (cp_covered_bytes cp),
        ck_interval_map = bs, ck_written_at = uint now\<rparr>, dr_total_length row)"
    using sv by (simp add: checkpoint_join_def update_conv')
  then show ?thesis
    using assms(4) checkpoint_round [OF assms(1,2) sv(1)] sv(4)
    by (simp add: load_checkpoint_def sql_bind_def map_transpose_def checkpoint_from_row_def rust_u64_def)
qed

end
