(* ===== verification/Recovery.thy ===== *)
theory Recovery
  imports MetadataStore PartFile JournalReplay JournalState
begin

text \<open>
  Restart reconciliation, \<open>downpour-storage/src/recovery.rs\<close>: the part file, the journal, the interval map
  and the database record of one download are brought back into agreement, with the journal as the
  authority.  The files are a map from paths; \<open>ra_open_fault\<close> names the paths whose opening the
  operating system refuses.
\<close>

section \<open>Data\<close>

definition RECOVERY_WORKER :: worker_id where
  "RECOVERY_WORKER = WorkerId (- 1)"

datatype checkpoint_divergence =
    NoCheckpoint
  | CheckpointUnreadable
  | Agreed
  | JournalAhead u64 u64
  | SqliteAhead u64 u64
  | SameCoverageDifferentIntervals u64

datatype part_file_extent =
    Intact
  | Reextended u64 u64
  | Overlong u64 u64

record reconciliation =
  rc_state :: download_state
  rc_error_kind :: "string option"
  rc_intervals :: interval_map
  rc_covered_bytes :: u64
  rc_next_sequence :: u64
  rc_sealed :: "bytes option"
  rc_divergence :: checkpoint_divergence
  rc_extent :: part_file_extent
  rc_journal_tail_repaired :: bool
  rc_space_reserved :: bool

datatype recovery_error =
    UnknownDownload
  | AlreadyTerminal download_state
  | ReMetadata metadata_error
  | RePartFile part_file_error
  | ReIo io_error
  | ReInterval interval_map_error

record recovery_world =
  rw_store :: md_store
  rw_files :: "path \<Rightarrow> os_file option"

record 'u recovery_api =
  ra_env :: "'u md_env"
  ra_crc :: "bytes \<Rightarrow> u32"
  ra_cuts :: "bytes \<Rightarrow> reader"
  ra_alloc :: linux_alloc
  ra_file_len :: "os_file \<Rightarrow> io_error + u64"
  ra_blocks :: "os_file \<Rightarrow> io_error + u64"
  ra_open_fault :: "path \<Rightarrow> io_error option"

definition open_path :: "'u recovery_api \<Rightarrow> recovery_world \<Rightarrow> path \<Rightarrow> io_error + os_file" where
  "open_path ra w p =
     (case ra_open_fault ra p of
        Some e \<Rightarrow> Err e
      | None \<Rightarrow> ok_or (io_new IoNotFound) (rw_files w p))"

text \<open>What an operation left of the file it had opened.\<close>

definition put_file :: "path \<Rightarrow> os_file option \<Rightarrow> recovery_world \<Rightarrow> recovery_world" where
  "put_file p f w = (case f of None \<Rightarrow> w | Some g \<Rightarrow> w\<lparr>rw_files := (rw_files w)(p \<mapsto> g)\<rparr>)"

section \<open>Parts\<close>

fun merge_loop :: "(u64 \<times> u64) list \<Rightarrow> completed_block list \<Rightarrow> recovery_error + (u64 \<times> u64) list" where
  "merge_loop merged [] = Ok merged"
| "merge_loop merged (b # bs) =
     and_then (map_err (\<lambda>_. ReIo (io_new IoInvalidData)) (cb_end b)) (\<lambda>e.
       merge_loop
         (if merged \<noteq> [] \<and> snd (last merged) = cb_offset b
          then butlast merged @ [(fst (last merged), e)]
          else merged @ [(cb_offset b, e)]) bs)"

definition merge_adjacent :: "completed_block list \<Rightarrow> recovery_error + (u64 \<times> u64) list" where
  "merge_adjacent blocks = merge_loop [] blocks"

fun rebuild :: "interval_map \<Rightarrow> u64 \<Rightarrow> (u64 \<times> u64) list \<Rightarrow> recovery_error + interval_map \<times> u64" where
  "rebuild im covered [] = Ok (im, covered)"
| "rebuild im covered (r # rs) =
     (case grant im r RECOVERY_WORKER of
        (im1, Err e) \<Rightarrow> Err (ReInterval e)
      | (im1, Ok _) \<Rightarrow>
          (case im_complete im1 r RECOVERY_WORKER of
             (im2, Err e) \<Rightarrow> Err (ReInterval e)
           | (im2, Ok _) \<Rightarrow>
               and_then (ok_or (ReIo (io_new IoInvalidData)) (checked_add covered (snd r - fst r))) (\<lambda>covered'.
                 rebuild im2 covered' rs)))"

definition compare_checkpoint ::
    "'u md_env \<Rightarrow> bytes \<Rightarrow> u64 \<Rightarrow> (u64 \<times> u64) list \<Rightarrow> md_store \<Rightarrow> md_store \<times> checkpoint_divergence" where
  "compare_checkpoint env i journal_covered_bytes merged st =
     (case load_checkpoint env i st of
        (st1, Ok None) \<Rightarrow> (st1, NoCheckpoint)
      | (st1, Err _) \<Rightarrow> (st1, CheckpointUnreadable)
      | (st1, Ok (Some cached)) \<Rightarrow>
          (let cp = pc_checkpoint cached;
               sqlite_covered_bytes = cp_covered_bytes cp;
               same_intervals = (cp_intervals cp = merged)
           in (st1,
               if sqlite_covered_bytes = journal_covered_bytes then
                 (if same_intervals then Agreed else SameCoverageDifferentIntervals journal_covered_bytes)
               else if sqlite_covered_bytes < journal_covered_bytes
               then JournalAhead journal_covered_bytes sqlite_covered_bytes
               else SqliteAhead journal_covered_bytes sqlite_covered_bytes)))"

definition rec_fail ::
    "'u md_env \<Rightarrow> 'u download_metadata \<Rightarrow> string \<Rightarrow> u64 \<Rightarrow> recovery_world \<Rightarrow> recovery_world \<times> (recovery_error + reconciliation)" where
  "rec_fail env m kind now_ms w =
     (case error_kind_new kind of
        Err e \<Rightarrow> (w, Err (ReMetadata e))
      | Ok error_kind \<Rightarrow>
          (let total_length = (case dm_total_length m of Some n \<Rightarrow> n | None \<Rightarrow> 0);
               m1 = m\<lparr>dm_state := Failed, dm_error_kind := Some error_kind, dm_covered_bytes := 0, dm_updated_at_ms := now_ms\<rparr>
           in case save_download env m1 (rw_store w) of
                (st1, Err e) \<Rightarrow> (w\<lparr>rw_store := st1\<rparr>, Err (ReMetadata e))
              | (st1, Ok _) \<Rightarrow>
                  (w\<lparr>rw_store := st1\<rparr>,
                   Ok \<lparr>rc_state = Failed, rc_error_kind = Some error_kind, rc_intervals = im_new total_length,
                       rc_covered_bytes = 0, rc_next_sequence = 0, rc_sealed = None, rc_divergence = NoCheckpoint,
                       rc_extent = Intact, rc_journal_tail_repaired = False, rc_space_reserved = False\<rparr>)))"

definition complete_ranges :: "interval_map \<Rightarrow> (u64 \<times> u64) list" where
  "complete_ranges im = map (\<lambda>i. (iv_start i, iv_end i)) (filter (\<lambda>i. iv_state i = Complete) (im_intervals im))"

definition checkpoint_of :: "u64 \<Rightarrow> interval_map \<Rightarrow> metadata_error + checkpoint" where
  "checkpoint_of effective_length im =
     and_then (map_collect (\<lambda>(s, e). interval_try_new s e) (complete_ranges im)) (checkpoint_try_new effective_length)"

definition persisted_metadata ::
    "'u download_metadata \<Rightarrow> reconciliation \<Rightarrow> u64 \<Rightarrow> u64 \<Rightarrow> 'u download_metadata" where
  "persisted_metadata m reconciled effective_length now_ms =
     (let m1 = (if dm_total_length m \<noteq> Some effective_length
                then m\<lparr>dm_identity := (dm_identity m)\<lparr>idm_range_support := Unknown\<rparr>\<rparr> else m)
      in m1\<lparr>dm_state := rc_state reconciled, dm_error_kind := None, dm_total_length := Some effective_length,
            dm_covered_bytes := rc_covered_bytes reconciled, dm_space_reserved := rc_space_reserved reconciled,
            dm_updated_at_ms := now_ms\<rparr>)"

definition persist ::
    "'u md_env \<Rightarrow> 'u download_metadata \<Rightarrow> reconciliation \<Rightarrow> u64 \<Rightarrow> u64 \<Rightarrow> recovery_world \<Rightarrow>
     recovery_world \<times> (recovery_error + reconciliation)" where
  "persist env m reconciled effective_length now_ms w =
     (let m1 = persisted_metadata m reconciled effective_length now_ms in
      case save_download env m1 (rw_store w) of
        (st1, Err e) \<Rightarrow> (w\<lparr>rw_store := st1\<rparr>, Err (ReMetadata e))
      | (st1, Ok _) \<Rightarrow>
          (case checkpoint_of effective_length (rc_intervals reconciled) of
             Err e \<Rightarrow> (w\<lparr>rw_store := st1\<rparr>, Err (ReMetadata e))
           | Ok cp \<Rightarrow>
               (case save_checkpoint env (dm_id m1) (rc_next_sequence reconciled) now_ms cp st1 of
                  (st2, Err e) \<Rightarrow> (w\<lparr>rw_store := st2\<rparr>, Err (ReMetadata e))
                | (st2, Ok _) \<Rightarrow> (w\<lparr>rw_store := st2\<rparr>, Ok reconciled))))"

section \<open>Reconciliation\<close>

text \<open>What the replayed records prove, within the bytes the part file still has.\<close>

definition rebuild_from ::
    "effective_state \<Rightarrow> u64 \<Rightarrow> recovery_error + (u64 \<times> u64) list \<times> interval_map \<times> u64" where
  "rebuild_from st observed_length =
     (let blocks = filter (\<lambda>b. case cb_end b of Ok e \<Rightarrow> e \<le> observed_length | Err _ \<Rightarrow> False) (es_blocks st) in
      and_then (merge_adjacent blocks) (\<lambda>merged.
      and_then (rebuild (im_new (es_effective_length st)) 0 merged) (\<lambda>(im, covered).
        Ok (merged, im, covered))))"

definition reconcile_replayed ::
    "'u recovery_api \<Rightarrow> 'u download_metadata \<Rightarrow> u64 \<Rightarrow> u64 \<Rightarrow> part_file_extent \<Rightarrow> bool \<Rightarrow> u64 \<Rightarrow> replay_outcome \<Rightarrow>
     recovery_world \<Rightarrow> recovery_world \<times> (recovery_error + reconciliation)" where
  "reconcile_replayed ra m total_length observed_length extent space_reserved now_ms replayed w =
     (if fh_transfer_id (ro_header replayed) \<noteq> dm_id m \<or> fh_total_length (ro_header replayed) \<noteq> total_length
      then rec_fail (ra_env ra) m ''storage.journal-mismatched'' now_ms w
      else
        (case (try_from_nat (length (ro_records replayed)) :: u64 option) of
           None \<Rightarrow> (w, Err (ReIo (io_new IoInvalidData)))
         | Some next_sequence \<Rightarrow>
             (case effective_state (ro_header replayed) (ro_records replayed) of
                Err _ \<Rightarrow> rec_fail (ra_env ra) m ''storage.journal-invalid'' now_ms w
              | Ok st \<Rightarrow>
                  (case rebuild_from st observed_length of
                     Err e \<Rightarrow> (w, Err e)
                   | Ok (merged, im, covered_bytes) \<Rightarrow>
                       (let (st1, divergence) = compare_checkpoint (ra_env ra) (dm_id m) covered_bytes merged (rw_store w) in
                        persist (ra_env ra) m
                          \<lparr>rc_state = Paused, rc_error_kind = None, rc_intervals = im, rc_covered_bytes = covered_bytes,
                           rc_next_sequence = next_sequence, rc_sealed = es_sealed st, rc_divergence = divergence,
                           rc_extent = extent, rc_journal_tail_repaired = (ro_stop replayed \<noteq> CleanEof),
                           rc_space_reserved = space_reserved\<rparr>
                          (es_effective_length st) now_ms (w\<lparr>rw_store := st1\<rparr>))))))"

definition reconcile_journal ::
    "'u recovery_api \<Rightarrow> 'u download_metadata \<Rightarrow> u64 \<Rightarrow> u64 \<Rightarrow> part_file_extent \<Rightarrow> bool \<Rightarrow> path \<Rightarrow> u64 \<Rightarrow>
     recovery_world \<Rightarrow> recovery_world \<times> (recovery_error + reconciliation)" where
  "reconcile_journal ra m total_length observed_length extent space_reserved journal_path now_ms w =
     (case recover_journal (ra_crc ra) (ra_cuts ra) (open_path ra w journal_path) of
        (f, Ok outcome) \<Rightarrow>
          reconcile_replayed ra m total_length observed_length extent space_reserved now_ms outcome
            (put_file journal_path f w)
      | (f, Err (ReplayFormat _)) \<Rightarrow>
          rec_fail (ra_env ra) m ''storage.journal-unreadable'' now_ms (put_file journal_path f w)
      | (f, Err (ReplayIo source)) \<Rightarrow>
          if io_kind_of source = IoNotFound then
            persist (ra_env ra) m
              \<lparr>rc_state = Paused, rc_error_kind = None, rc_intervals = im_new total_length, rc_covered_bytes = 0,
               rc_next_sequence = 0, rc_sealed = None, rc_divergence = NoCheckpoint, rc_extent = extent,
               rc_journal_tail_repaired = False, rc_space_reserved = space_reserved\<rparr>
              total_length now_ms (put_file journal_path f w)
          else (put_file journal_path f w, Err (ReIo source)))"

definition extent_of :: "recovered_part_file \<Rightarrow> u64 \<Rightarrow> part_file_extent" where
  "extent_of r total_length =
     (if rp_reextended r then Reextended (rp_observed_length r) total_length
      else if rp_observed_length r > total_length then Overlong (rp_observed_length r) total_length
      else Intact)"

definition reconcile_download ::
    "'u recovery_api \<Rightarrow> bytes \<Rightarrow> path \<Rightarrow> u64 \<Rightarrow> recovery_world \<Rightarrow> recovery_world \<times> (recovery_error + reconciliation)" where
  "reconcile_download ra i journal_path now_ms w =
     (case load_download (ra_env ra) i (rw_store w) of
        (st1, Err e) \<Rightarrow> (w\<lparr>rw_store := st1\<rparr>, Err (ReMetadata e))
      | (st1, Ok None) \<Rightarrow> (w\<lparr>rw_store := st1\<rparr>, Err UnknownDownload)
      | (st1, Ok (Some m)) \<Rightarrow>
          (let w1 = w\<lparr>rw_store := st1\<rparr> in
           if dm_state m = Completed \<or> dm_state m = Failed then (w1, Err (AlreadyTerminal (dm_state m)))
           else if rw_files w1 (dm_part_path m) = None
           then rec_fail (ra_env ra) m ''storage.part-file-missing'' now_ms w1
           else
             (case dm_total_length m of
                None \<Rightarrow> rec_fail (ra_env ra) m ''storage.length-unknown'' now_ms w1
              | Some total_length \<Rightarrow>
                  (case pf_open_existing (ra_alloc ra) (ra_file_len ra) (ra_blocks ra) (open_path ra w1)
                          (dm_part_path m) total_length of
                     (f, Err e) \<Rightarrow> (put_file (dm_part_path m) f w1, Err (RePartFile e))
                   | (f, Ok recovered) \<Rightarrow>
                       reconcile_journal ra m total_length (rp_observed_length recovered)
                         (extent_of recovered total_length) (rp_space_reserved recovered) journal_path now_ms
                         (put_file (dm_part_path m) f w1)))))"

section \<open>Rebuilding the map\<close>

definition covers :: "(u64 \<times> u64) list \<Rightarrow> u64 \<Rightarrow> bool" where
  "covers rs x = (\<exists>(s, e) \<in> set rs. s \<le> x \<and> x < e)"

definition block_covers :: "completed_block \<Rightarrow> u64 \<Rightarrow> bool" where
  "block_covers b x = (cb_offset b \<le> x \<and> unat x < block_end b)"

lemma covers_simps [simp]:
  "\<not> covers [] x"
  "covers (r # rs) x \<longleftrightarrow> fst r \<le> x \<and> x < snd r \<or> covers rs x"
  "covers (rs @ qs) x \<longleftrightarrow> covers rs x \<or> covers qs x"
  by (auto simp: covers_def)

lemma ascending_snoc:
  "ascending t p (rs @ [(s, e)]) \<longleftrightarrow>
     ascending t p rs \<and> (if rs = [] then p else snd (last rs)) \<le> s \<and> s < e \<and> e \<le> t"
  by (induction rs arbitrary: p) auto

lemma block_end_word:
  assumes "block_in (unat t) b"
  obtains e where "cb_end b = Ok e" "unat e = block_end b" "cb_offset b < e" "e \<le> t"
proof -
  have n: "unat (cb_offset b) + unat (ucast (cb_len b) :: u64) < 2 ^ 64"
    using assms unat_lt_2p [of t] by (simp add: block_in_def block_end_def)
  have l: "0 < unat (cb_len b)"
    using assms by (simp add: block_in_def unat_gt_0)
  let ?e = "cb_offset b + ucast (cb_len b) :: u64"
  have u: "unat ?e = block_end b"
    using n by (simp add: block_end_def unat_add_lem [THEN iffD1])
  show ?thesis
  proof
    show "cb_end b = Ok ?e"
      using n by (simp add: cb_end_def checked_add_def)
    show "cb_offset b < ?e" "?e \<le> t"
      using u l assms by (simp_all add: word_less_nat_alt word_le_nat_alt block_end_def block_in_def)
  qed (rule u)
qed

text \<open>Merging keeps the order and the covered bytes.\<close>

lemma merge_loop_spec:
  assumes "ascending t 0 acc" and "acc \<noteq> [] \<Longrightarrow> list_all (\<lambda>b. snd (last acc) \<le> cb_offset b) bs"
    and "list_all (block_in (unat t)) bs" and "sorted_wrt before bs"
  shows "\<exists>rs. merge_loop acc bs = Ok rs \<and> ascending t 0 rs \<and>
    (\<forall>x. covers rs x \<longleftrightarrow> covers acc x \<or> (\<exists>b \<in> set bs. block_covers b x))"
  using assms
proof (induction bs arbitrary: acc)
  case (Cons b bs)
  obtain e where e: "cb_end b = Ok e" "unat e = block_end b" "cb_offset b < e" "e \<le> t"
    using Cons.prems(3) block_end_word by (auto elim: block_end_word)
  have later: "list_all (\<lambda>c. e \<le> cb_offset c) bs"
    using Cons.prems(4) e(2) by (auto simp: list_all_iff before_def word_le_nat_alt)
  have bc: "block_covers b x \<longleftrightarrow> cb_offset b \<le> x \<and> x < e" for x
    using e(2) by (simp add: block_covers_def word_less_nat_alt)
  show ?case
  proof (cases "acc \<noteq> [] \<and> snd (last acc) = cb_offset b")
    case True
    then obtain pre s where acc: "acc = pre @ [(s, cb_offset b)]"
      by (metis append_butlast_last_id prod.collapse)
    have "ascending t 0 (pre @ [(s, e)])"
      using Cons.prems(1) e(3,4) by (auto simp: acc ascending_snoc)
    then obtain rs where "merge_loop (pre @ [(s, e)]) bs = Ok rs" "ascending t 0 rs"
      "\<forall>x. covers rs x \<longleftrightarrow> covers (pre @ [(s, e)]) x \<or> (\<exists>b \<in> set bs. block_covers b x)"
      using Cons.IH [of "pre @ [(s, e)]"] Cons.prems(3,4) later by auto
    moreover have "covers (pre @ [(s, e)]) x \<longleftrightarrow> covers acc x \<or> block_covers b x" for x
      using Cons.prems(1) e(3) by (auto simp: acc bc ascending_snoc)
    ultimately show ?thesis
      using e(1) by (simp add: acc) blast
  next
    case False
    have "ascending t 0 (acc @ [(cb_offset b, e)])"
      using Cons.prems(1,2) e(3,4) by (auto simp: ascending_snoc)
    then obtain rs where "merge_loop (acc @ [(cb_offset b, e)]) bs = Ok rs" "ascending t 0 rs"
      "\<forall>x. covers rs x \<longleftrightarrow> covers (acc @ [(cb_offset b, e)]) x \<or> (\<exists>b \<in> set bs. block_covers b x)"
      using Cons.IH [of "acc @ [(cb_offset b, e)]"] Cons.prems(3,4) later by auto
    then show ?thesis
      using e(1) False by (auto simp: bc)
  qed
qed simp

text \<open>Granting and completing ascending ranges of a pending tail never fails.\<close>

lemma rebuild_spec:
  assumes "invariants_hold im" and "ascending (im_total_length im) p rs" and "unat covered \<le> unat p"
    and "\<And>x. p \<le> x \<Longrightarrow> x < im_total_length im \<Longrightarrow> byte_state im x = Some Pending"
  shows "\<exists>im' c. rebuild im covered rs = Ok (im', c) \<and> invariants_hold im' \<and> im_total_length im' = im_total_length im \<and>
    unat c = unat covered + span rs \<and>
    (\<forall>x. byte_state im' x = (if covers rs x then Some Complete else byte_state im x))"
  using assms
proof (induction rs arbitrary: im p covered)
  case (Cons r rs)
  obtain s e where r: "r = (s, e)"
    by (cases r)
  have b: "p \<le> s" "s < e" "e \<le> im_total_length im" "ascending (im_total_length im) e rs"
    using Cons.prems(2) by (simp_all add: r)
  have "snd (grant im r RECOVERY_WORKER) = Ok ()"
    using Cons.prems(4) b by (auto simp: grant_Ok [OF Cons.prems(1)] r)
  then obtain im1 where g: "grant im r RECOVERY_WORKER = (im1, Ok ())"
    by (cases "grant im r RECOVERY_WORKER") simp
  have i1: "invariants_hold im1" "im_total_length im1 = im_total_length im"
    "byte_state im1 = upd_range (byte_state im) r (Some (InProgress RECOVERY_WORKER))"
    using grant_inv [OF Cons.prems(1), of r RECOVERY_WORKER] grant_state [OF Cons.prems(1), of r RECOVERY_WORKER] g by simp_all
  have "snd (im_complete im1 r RECOVERY_WORKER) = Ok ()"
    using i1(2,3) b by (simp add: im_complete_Ok [OF i1(1)] r upd_range_def)
  then obtain im2 where c: "im_complete im1 r RECOVERY_WORKER = (im2, Ok ())"
    by (cases "im_complete im1 r RECOVERY_WORKER") simp
  have i2: "invariants_hold im2" "im_total_length im2 = im_total_length im"
    "byte_state im2 = upd_range (byte_state im1) r (Some Complete)"
    using im_complete_inv [OF i1(1), of r RECOVERY_WORKER] im_complete_state [OF i1(1), of r RECOVERY_WORKER] c i1(2) by simp_all
  have d: "unat (e - s) = unat e - unat s" "unat s < unat e" "unat p \<le> unat s"
    using b by (simp_all add: unat_minus_le word_less_nat_alt word_le_nat_alt)
  then have n: "unat covered + unat (e - s) < 2 ^ 64"
    using Cons.prems(3) unat_lt_2p [of e] by simp
  then have a: "checked_add covered (e - s) = Some (covered + (e - s))" "unat (covered + (e - s)) = unat covered + (unat e - unat s)"
    using d by (simp_all add: checked_add_def unat_add_lem [THEN iffD1])
  have le: "unat (covered + (e - s)) \<le> unat e"
    using a(2) d Cons.prems(3) by linarith
  have "byte_state im2 x = Some Pending" if "e \<le> x" "x < im_total_length im2" for x
    using that i1(3) i2(2,3) Cons.prems(4) [of x] b by (auto simp: upd_range_def r)
  then obtain im' k where "rebuild im2 (covered + (e - s)) rs = Ok (im', k)" "invariants_hold im'"
    "im_total_length im' = im_total_length im2" "unat k = unat (covered + (e - s)) + span rs"
    "\<forall>x. byte_state im' x = (if covers rs x then Some Complete else byte_state im2 x)"
    using Cons.IH [OF i2(1) _ le] i2(2) b(4) by auto
  then show ?case
    using g c a i1(3) i2(2,3) by (auto simp: r upd_range_def)
qed simp

text \<open>The bytes the journal proves and the part file still has room for.\<close>

definition durable_at :: "effective_state \<Rightarrow> u64 \<Rightarrow> u64 \<Rightarrow> bool" where
  "durable_at st observed_length x =
     (\<exists>b \<in> set (es_blocks st). block_end b \<le> unat observed_length \<and> block_covers b x)"

definition rebuilt :: "effective_state \<Rightarrow> u64 \<Rightarrow> interval_map \<Rightarrow> u64 \<Rightarrow> bool" where
  "rebuilt st observed_length im covered =
     (invariants_hold im \<and> im_total_length im = es_effective_length st \<and>
      (\<forall>x. byte_state im x =
         (if x < es_effective_length st
          then Some (if durable_at st observed_length x then Complete else Pending) else None)) \<and>
      unat covered = card {x. durable_at st observed_length x})"

lemma rebuild_from_spec:
  assumes "effective_state h rs = Ok st"
  shows "\<exists>merged im c. rebuild_from st obs = Ok (merged, im, c) \<and> rebuilt st obs im c"
proof -
  let ?t = "es_effective_length st"
  let ?bs = "filter (\<lambda>b. case cb_end b of Ok e \<Rightarrow> e \<le> obs | Err _ \<Rightarrow> False) (es_blocks st)"
  have wf: "list_all (block_in (unat ?t)) (es_blocks st)" "sorted_wrt before (es_blocks st)"
    using assms by (auto elim: effective_state_Ok)
  have sel: "(case cb_end b of Ok e \<Rightarrow> e \<le> obs | Err _ \<Rightarrow> False) \<longleftrightarrow> block_end b \<le> unat obs" if "b \<in> set (es_blocks st)" for b
    using wf(1) that by (auto simp: list_all_iff word_le_nat_alt elim!: block_end_word [of ?t b])
  have "list_all (block_in (unat ?t)) ?bs" "sorted_wrt before ?bs"
    using wf by (auto simp: list_all_iff sorted_wrt_filter)
  then obtain merged where m: "merge_adjacent ?bs = Ok merged" "ascending ?t 0 merged"
    "\<forall>x. covers merged x \<longleftrightarrow> (\<exists>b \<in> set ?bs. block_covers b x)"
    using merge_loop_spec [of ?t "[]" ?bs] by (auto simp: merge_adjacent_def)
  have cov: "covers merged x \<longleftrightarrow> durable_at st obs x" for x
    using m(3) sel by (auto simp: durable_at_def)
  obtain im c where r: "rebuild (im_new ?t) 0 merged = Ok (im, c)" "invariants_hold im" "im_total_length im = ?t"
    "unat c = span merged" "\<forall>x. byte_state im x = (if covers merged x then Some Complete else byte_state (im_new ?t) x)"
    using rebuild_spec [of "im_new ?t" 0 merged 0] m(2) by auto
  have "{x. durable_at st obs x} = {b. \<exists>(s, e) \<in> set merged. s \<le> b \<and> b < e}"
    using cov by (auto simp: covers_def)
  then have "unat c = card {x. durable_at st obs x}"
    using r(4) ascending_card [OF m(2)] by simp
  moreover have "x < ?t" if "covers merged x" for x
    using that ascending_less [OF m(2)] by (fastforce simp: covers_def)
  ultimately have "rebuilt st obs im c"
    using r(2,3,5) cov by (auto simp: rebuilt_def)
  then show ?thesis
    using m(1) r(1) by (simp add: rebuild_from_def)
qed

section \<open>Outcomes\<close>

lemma put_file_simps [simp]:
  "rw_store (put_file p f w) = rw_store w"
  "rw_files (put_file p f w) q = (if q = p \<and> f \<noteq> None then f else rw_files w q)"
  by (auto simp: put_file_def split: option.splits)

lemma persist_files: "persist env m rc eff now w = (w', res) \<Longrightarrow> rw_files w' = rw_files w"
  by (auto simp: persist_def Let_def split: prod.splits sum.splits)

lemma rec_fail_files: "rec_fail env m kind now w = (w', res) \<Longrightarrow> rw_files w' = rw_files w"
  by (auto simp: rec_fail_def Let_def split: prod.splits sum.splits)

lemma persist_Ok: "persist env m rc eff now w = (w', Ok r) \<Longrightarrow> r = rc"
  by (auto simp: persist_def Let_def split: prod.splits sum.splits)

lemma rec_fail_Ok:
  "rec_fail env m kind now w = (w', Ok r) \<Longrightarrow> rc_state r = Failed \<and> rc_error_kind r = Some kind \<and> rc_covered_bytes r = 0 \<and>
     (\<exists>n. rc_intervals r = im_new n)"
  by (auto simp: rec_fail_def error_kind_new_def Let_def split: prod.splits sum.splits if_splits)

lemma load_download_id:
  assumes "load_download env i s = (s', Ok (Some m))"
  shows "dm_id m = i"
  using assms
  by (auto simp: load_download_def sql_rules finish_download_def map_err_eq_Inr download_from_raw_def and_then_eq_Inr
      download_id_from_slice_def try_from_bytes_def Let_def split: option.splits if_splits)

lemma open_existing_observed:
  assumes "pf_open_existing ops fl bl op p n = (f, Ok rec)" and "\<forall>g n. fl g = Ok n \<longrightarrow> unat n = length (f_cache g)"
    and "op p = Ok g"
  shows "unat (rp_observed_length rec) = length (f_cache g)" and "f \<noteq> None"
  using assms by (auto simp: pf_open_existing_def Let_def split: if_splits sum.splits prod.splits)

lemma recover_journal_outcome:
  assumes "healthy (cuts (f_cache f))" and "stream (cuts (f_cache f)) = f_cache f" and "length (f_cache f) < 2 ^ 64"
  shows "recover_journal crc cuts (Ok f) = (g, Ok out) \<Longrightarrow> replay_bytes crc (f_cache f) = Ok out"
    and "recover_journal crc cuts (Ok f) = (g, Err (ReplayFormat e)) \<Longrightarrow> replay_bytes crc (f_cache f) = Err (ReplayFormat e)"
  using replay_reader_bytes [OF assms(1), of crc] assms(2,3)
  by (auto simp: recover_journal_def split: sum.splits prod.splits if_splits)

text \<open>The journal belongs to this download and its records make sense together.\<close>

definition journal_usable :: "(bytes \<Rightarrow> u32) \<Rightarrow> bytes \<Rightarrow> bytes \<Rightarrow> u64 option \<Rightarrow> replay_outcome \<Rightarrow> effective_state \<Rightarrow> bool" where
  "journal_usable crc content i total_length out st =
     (replay_bytes crc content = Ok out \<and> fh_transfer_id (ro_header out) = i \<and>
      total_length = Some (fh_total_length (ro_header out)) \<and>
      effective_state (ro_header out) (ro_records out) = Ok st)"

text \<open>What the operating system is relied on for: reads deliver the file, and its length is its length.\<close>

definition recovery_laws :: "'u recovery_api \<Rightarrow> bool" where
  "recovery_laws ra =
     ((\<forall>bs. healthy (ra_cuts ra bs) \<and> stream (ra_cuts ra bs) = bs) \<and>
      (\<forall>g n. ra_file_len ra g = Ok n \<longrightarrow> unat n = length (f_cache g)) \<and>
      ra_open_fault ra = (\<lambda>_. None))"

lemma reconcile_replayed_outcome:
  assumes "replay_bytes crc content = Ok out" and "reconcile_replayed ra m n obs ext sp now out w = (w', Ok r)"
    and "dm_total_length m = Some n"
  shows "rc_state r = Failed \<and> rc_error_kind r \<noteq> None \<and> (\<forall>x. byte_state (rc_intervals r) x \<noteq> Some Complete) \<and>
      (\<nexists>out st. journal_usable crc content (dm_id m) (dm_total_length m) out st) \<or>
    rc_state r = Paused \<and> rc_error_kind r = None \<and>
      (\<exists>out st. journal_usable crc content (dm_id m) (dm_total_length m) out st \<and>
        rebuilt st obs (rc_intervals r) (rc_covered_bytes r) \<and> unat (rc_next_sequence r) = length (ro_records out) \<and>
        rc_sealed r = es_sealed st \<and> (rc_journal_tail_repaired r \<longleftrightarrow> ro_stop out \<noteq> CleanEof))"
proof (cases "\<exists>st. journal_usable crc content (dm_id m) (dm_total_length m) out st")
  case False
  then have "\<nexists>out st. journal_usable crc content (dm_id m) (dm_total_length m) out st"
    using assms(1) by (auto simp: journal_usable_def)
  moreover have "\<exists>kind. rec_fail (ra_env ra) m kind now w = (w', Ok r)"
    using False assms
    by (auto simp: reconcile_replayed_def journal_usable_def split: if_splits option.splits sum.splits prod.splits)
  ultimately show ?thesis
    using rec_fail_Ok by (fastforce split: if_splits)
next
  case True
  then obtain st where st: "journal_usable crc content (dm_id m) (dm_total_length m) out st" ..
  then have es: "effective_state (ro_header out) (ro_records out) = Ok st" "fh_transfer_id (ro_header out) = dm_id m"
    "fh_total_length (ro_header out) = n"
    using assms(3) by (auto simp: journal_usable_def)
  obtain merged im c where rb: "rebuild_from st obs = Ok (merged, im, c)" "rebuilt st obs im c"
    using rebuild_from_spec [OF es(1)] by blast
  obtain k where k: "try_from_nat (length (ro_records out)) = Some (k :: u64)"
    using assms(2) es by (auto simp: reconcile_replayed_def split: option.splits)
  obtain st1 dv where cc: "compare_checkpoint (ra_env ra) (dm_id m) c merged (rw_store w) = (st1, dv)"
    by (cases "compare_checkpoint (ra_env ra) (dm_id m) c merged (rw_store w)")
  have "r = \<lparr>rc_state = Paused, rc_error_kind = None, rc_intervals = im, rc_covered_bytes = c,
      rc_next_sequence = k, rc_sealed = es_sealed st, rc_divergence = dv, rc_extent = ext,
      rc_journal_tail_repaired = (ro_stop out \<noteq> CleanEof), rc_space_reserved = sp\<rparr>"
    using assms(2) es rb(1) k cc by (auto simp: reconcile_replayed_def dest!: persist_Ok)
  then show ?thesis
    using st rb(2) k by (auto simp: try_from_nat_Some)
qed

lemma reconcile_outcome:
  assumes "recovery_laws ra" and "load_download (ra_env ra) i (rw_store w) = (st1, Ok (Some m))"
    and "rw_files w (dm_part_path m) = Some pf" and "rw_files w jp = Some jf" and "jp \<noteq> dm_part_path m"
    and "length (f_cache jf) < 2 ^ 64" and "length (f_cache pf) < 2 ^ 64"
    and "\<And>g e. recover_journal (ra_crc ra) (ra_cuts ra) (Ok jf) = (g, Err (ReplayIo e)) \<Longrightarrow> io_kind_of e \<noteq> IoNotFound"
    and "reconcile_download ra i jp now w = (w', Ok r)"
  shows "rc_state r = Failed \<and> rc_error_kind r \<noteq> None \<and> (\<forall>x. byte_state (rc_intervals r) x \<noteq> Some Complete) \<and>
      (\<nexists>out st. journal_usable (ra_crc ra) (f_cache jf) i (dm_total_length m) out st) \<or>
    rc_state r = Paused \<and> rc_error_kind r = None \<and>
      (\<exists>out st. journal_usable (ra_crc ra) (f_cache jf) i (dm_total_length m) out st \<and>
        rebuilt st (of_nat (length (f_cache pf))) (rc_intervals r) (rc_covered_bytes r) \<and>
        unat (rc_next_sequence r) = length (ro_records out) \<and>
        rc_sealed r = es_sealed st \<and> (rc_journal_tail_repaired r \<longleftrightarrow> ro_stop out \<noteq> CleanEof))"
proof (cases "dm_total_length m")
  case None
  let ?w1 = "w\<lparr>rw_store := st1\<rparr>"
  have "rec_fail (ra_env ra) m ''storage.length-unknown'' now ?w1 = (w', Ok r)"
    using assms(9) None assms(2,3) by (auto simp: reconcile_download_def Let_def split: if_splits)
  then show ?thesis
    using rec_fail_Ok None by (fastforce simp: journal_usable_def split: if_splits)
next
  case (Some n)
  let ?w1 = "w\<lparr>rw_store := st1\<rparr>"
  have i: "dm_id m = i"
    using load_download_id [OF assms(2)] .
  have op: "open_path ra ?w1 (dm_part_path m) = Ok pf"
    using assms(1,3) by (simp add: open_path_def recovery_laws_def)
  obtain f rec where rec: "pf_open_existing (ra_alloc ra) (ra_file_len ra) (ra_blocks ra) (open_path ra ?w1) (dm_part_path m) n = (f, Ok rec)"
    "reconcile_journal ra m n (rp_observed_length rec) (extent_of rec n) (rp_space_reserved rec) jp now (put_file (dm_part_path m) f ?w1) = (w', Ok r)"
    using assms(9) Some assms(2,3) by (auto simp: reconcile_download_def Let_def split: if_splits prod.splits sum.splits)
  have obs: "rp_observed_length rec = of_nat (length (f_cache pf))"
    using open_existing_observed(1) [OF rec(1) _ op] assms(1,7) by (simp add: recovery_laws_def word_unat_eq_iff unat_of_nat64)
  have jo: "open_path ra (put_file (dm_part_path m) f ?w1) jp = Ok jf"
    using assms(1,4,5) by (simp add: open_path_def recovery_laws_def)
  have rd: "healthy (ra_cuts ra (f_cache jf))" "stream (ra_cuts ra (f_cache jf)) = f_cache jf"
    using assms(1) by (simp_all add: recovery_laws_def)
  obtain g jr where jr: "recover_journal (ra_crc ra) (ra_cuts ra) (Ok jf) = (g, jr)"
    by (cases "recover_journal (ra_crc ra) (ra_cuts ra) (Ok jf)")
  show ?thesis
  proof (cases jr)
    case (Inr out)
    then have "replay_bytes (ra_crc ra) (f_cache jf) = Ok out"
      using recover_journal_outcome(1) [of "ra_cuts ra" jf, OF rd assms(6)] jr by simp
    then show ?thesis
      using reconcile_replayed_outcome [of "ra_crc ra" "f_cache jf" out ra m n] rec(2) jo jr Inr Some i obs
      by (simp add: reconcile_journal_def)
  next
    case (Inl e)
    then obtain e' where e': "e = ReplayFormat e'"
      using assms(8) rec(2) jo jr by (cases e) (auto simp: reconcile_journal_def split: if_splits)
    then have "replay_bytes (ra_crc ra) (f_cache jf) = Err (ReplayFormat e')"
      using recover_journal_outcome(2) [of "ra_cuts ra" jf, OF rd assms(6)] jr Inl by simp
    moreover have "rec_fail (ra_env ra) m ''storage.journal-unreadable'' now (put_file jp g (put_file (dm_part_path m) f ?w1)) = (w', Ok r)"
      using rec(2) jo jr Inl e' by (simp add: reconcile_journal_def)
    ultimately show ?thesis
      using rec_fail_Ok by (fastforce simp: journal_usable_def split: if_splits)
  qed
qed

text \<open>
  C6.  The journal is the authority at restart.  A reconciliation that returns has either failed the
  download with a reason and nothing marked complete, and then the journal was unusable (unreadable,
  another transfer's, another length's, or self-contradictory); or it left the download paused with the
  interval map rebuilt from the journal alone: exactly the bytes of recorded blocks that the part file
  is still long enough to hold are complete, every other byte is pending, the covered count is the
  number of complete bytes, and the next sequence number is the number of replayed records.  The
  SQLite checkpoint has no influence.
\<close>

theorem recovery_restores_durable:
  assumes "recovery_laws ra" and "load_download (ra_env ra) i (rw_store w) = (st1, Ok (Some m))"
    and "rw_files w (dm_part_path m) = Some pf" and "rw_files w jp = Some jf" and "jp \<noteq> dm_part_path m"
    and "length (f_cache jf) < 2 ^ 64" and "length (f_cache pf) < 2 ^ 64"
    and "\<And>g e. recover_journal (ra_crc ra) (ra_cuts ra) (Ok jf) = (g, Err (ReplayIo e)) \<Longrightarrow> io_kind_of e \<noteq> IoNotFound"
    and "reconcile_download ra i jp now w = (w', Ok r)"
  shows "rc_state r = Failed \<and> rc_error_kind r \<noteq> None \<and> (\<forall>x. byte_state (rc_intervals r) x \<noteq> Some Complete) \<and>
      (\<nexists>out st. journal_usable (ra_crc ra) (f_cache jf) i (dm_total_length m) out st) \<or>
    rc_state r = Paused \<and> rc_error_kind r = None \<and>
      (\<exists>out st. journal_usable (ra_crc ra) (f_cache jf) i (dm_total_length m) out st \<and>
        rebuilt st (of_nat (length (f_cache pf))) (rc_intervals r) (rc_covered_bytes r) \<and>
        unat (rc_next_sequence r) = length (ro_records out) \<and>
        rc_sealed r = es_sealed st \<and> (rc_journal_tail_repaired r \<longleftrightarrow> ro_stop out \<noteq> CleanEof))"
  using assms by (rule reconcile_outcome)

section \<open>What recovery leaves behind\<close>

lemma recover_journal_keeps:
  assumes "healthy (cuts (f_cache f))" and "stream (cuts (f_cache f)) = f_cache f" and "length (f_cache f) < 2 ^ 64"
    and "recover_journal crc cuts (Ok f) = (g, jr)"
  shows "\<exists>h n. g = Some h \<and> f_cache h = take n (f_cache f) \<and>
    (\<forall>out. replay_bytes crc (f_cache f) = Ok out \<longrightarrow> unat (ro_valid_bytes out) \<le> n)"
proof (cases "replay_bytes crc (f_cache f)")
  case (Inl e)
  then have "g = Some f"
    using assms replay_reader_bytes [OF assms(1), of crc] by (auto simp: recover_journal_def)
  then show ?thesis
    using Inl by (intro exI [of _ f] exI [of _ "length (f_cache f)"]) simp
next
  case (Inr out)
  let ?n = "unat (ro_valid_bytes out)"
  have n: "?n \<le> length (f_cache f)"
    using replay_sound [OF Inr assms(3)] by blast
  have rd: "replay_reader crc (cuts (f_cache f)) = Ok out"
    using Inr assms(2,3) replay_reader_bytes [OF assms(1), of crc] by simp
  obtain f1 r1 where sl: "file_set_len f ?n = (f1, r1)"
    by (cases "file_set_len f ?n")
  obtain f2 r2 where sy: "file_sync f1 = (f2, r2)"
    by (cases "file_sync f1")
  have c1: "f_cache f1 = f_cache f \<or> f_cache f1 = take ?n (f_cache f)"
    using sl n by (auto simp: file_set_len_def split: prod.splits fault.splits dest!: next_fault_content)
  have "g = Some f \<or> g = Some f1 \<or> g = Some f2"
    using assms(4) sl sy by (auto simp: recover_journal_def rd split: sum.splits if_splits)
  then obtain h where h: "g = Some h" "f_cache h = f_cache f \<or> f_cache h = take ?n (f_cache f)"
    using c1 file_sync_result(1) [OF sy] by auto
  then obtain k where "f_cache h = take k (f_cache f)" "?n \<le> k"
    using n by (metis order_refl take_all_iff)
  then show ?thesis
    using h(1) Inr by auto
qed

lemma reconcile_replayed_files:
  assumes "reconcile_replayed ra m n obs ext sp now out w = (w', res)"
  shows "rw_files w' = rw_files w"
  using assms persist_files rec_fail_files
  by (fastforce simp: reconcile_replayed_def Let_def split: if_splits option.splits sum.splits prod.splits)

lemma reconcile_journal_files:
  assumes "reconcile_journal ra m n obs ext sp jp now w = (w', res)"
  shows "rw_files w' = rw_files (put_file jp (fst (recover_journal (ra_crc ra) (ra_cuts ra) (open_path ra w jp))) w)"
  using assms persist_files rec_fail_files reconcile_replayed_files
  by (fastforce simp: reconcile_journal_def split: if_splits sum.splits prod.splits replay_error.splits)

definition at_rest :: "reconciliation \<Rightarrow> bool" where
  "at_rest r = (rc_state r \<in> {Paused, Failed} \<and> (\<forall>x k. byte_state (rc_intervals r) x \<noteq> Some (InProgress k)))"

lemma rec_fail_at_rest: "rec_fail env m kind now w = (w', Ok r) \<Longrightarrow> at_rest r"
  using rec_fail_Ok by (fastforce simp: at_rest_def split: if_splits)

lemma replayed_at_rest:
  assumes "reconcile_replayed ra m n obs ext sp now out w = (w', Ok r)"
  shows "at_rest r"
proof (cases "\<exists>st. effective_state (ro_header out) (ro_records out) = Ok st \<and> rc_state r = Paused")
  case True
  then obtain st where st: "effective_state (ro_header out) (ro_records out) = Ok st" "rc_state r = Paused"
    by blast
  obtain merged im c where rb: "rebuild_from st obs = Ok (merged, im, c)" "rebuilt st obs im c"
    using rebuild_from_spec [OF st(1)] by blast
  have "rc_intervals r = im"
    using assms st rb(1)
    by (auto simp: reconcile_replayed_def Let_def split: if_splits option.splits prod.splits dest!: persist_Ok rec_fail_Ok)
  then show ?thesis
    using st(2) rb(2) by (simp add: at_rest_def rebuilt_def)
next
  case False
  then have "\<exists>kind. rec_fail (ra_env ra) m kind now w = (w', Ok r)"
    using assms
    by (auto simp: reconcile_replayed_def Let_def split: if_splits option.splits sum.splits prod.splits dest!: persist_Ok)
  then show ?thesis
    using rec_fail_at_rest by blast
qed

lemma reconcile_at_rest:
  assumes "reconcile_download ra i jp now w = (w', Ok r)"
  shows "at_rest r"
proof -
  have "at_rest r" if j: "reconcile_journal ra m n obs ext sp jp now w1 = (w', Ok r)" for m n obs ext sp w1
  proof (cases "snd (recover_journal (ra_crc ra) (ra_cuts ra) (open_path ra w1 jp))")
    case (Inr out)
    then show ?thesis
      using j replayed_at_rest by (auto simp: reconcile_journal_def split: prod.splits)
  next
    case (Inl e)
    obtain g where g: "recover_journal (ra_crc ra) (ra_cuts ra) (open_path ra w1 jp) = (g, Err e)"
      using Inl by (cases "recover_journal (ra_crc ra) (ra_cuts ra) (open_path ra w1 jp)") simp
    show ?thesis
    proof (cases e)
      case (ReplayFormat x)
      then show ?thesis
        using j g by (auto simp: reconcile_journal_def intro: rec_fail_at_rest)
    next
      case (ReplayIo x)
      then show ?thesis
        using j g by (auto simp: reconcile_journal_def at_rest_def split: if_splits dest!: persist_Ok)
    qed
  qed
  then show ?thesis
    using assms rec_fail_at_rest
    by (auto simp: reconcile_download_def Let_def split: prod.splits sum.splits option.splits if_splits)
qed


section \<open>The record after a restart\<close>

lemma persisted_metadata_wf:
  assumes "metadata_wf ua m"
  shows "metadata_wf ua (persisted_metadata m rc eff now)" and "dm_id (persisted_metadata m rc eff now) = dm_id m"
    and "dm_total_length (persisted_metadata m rc eff now) = Some eff"
    and "dm_part_path (persisted_metadata m rc eff now) = dm_part_path m"
    and "dm_state (persisted_metadata m rc eff now) = rc_state rc"
  using assms
  by (auto simp: metadata_wf_def identity_wf_def persisted_metadata_def range_support_wf_def Let_def)

text \<open>A returned reconciliation is in the database.\<close>

lemma persist_stores:
  assumes "env_laws env" and "metadata_wf (me_url env) m" and "persist env m rc eff now w = (w', Ok r)"
    and "st_faults (rw_store w') = []"
  shows "snd (load_download env (dm_id m) (rw_store w')) = Ok (Some (persisted_metadata m rc eff now))"
proof -
  let ?m = "persisted_metadata m rc eff now"
  have wf: "metadata_wf (me_url env) ?m" "dm_id ?m = dm_id m"
    using persisted_metadata_wf [OF assms(2)] by blast+
  obtain st1 cp b where p: "save_download env ?m (rw_store w) = (st1, Ok ())"
    "save_checkpoint env (dm_id ?m) (rc_next_sequence rc) now cp st1 = (rw_store w', Ok b)"
    using assms(3) by (auto simp: persist_def Let_def split: prod.splits sum.splits)
  let ?q = "st1\<lparr>st_faults := []\<rparr>"
  obtain pd drow irow where sv: "prepared_new env ?m = Ok pd" "download_params pd = Ok drow"
    "identity_params (me_url env) pd = Ok irow" "saved env ?m drow irow (rw_store w) st1"
    using save_download_Ok [OF p(1)] by blast
  have "load_download env (dm_id ?m) ?q = (?q, Ok (Some ?m))"
    using sv(4) by (intro load_saved [OF assms(1) wf(1) sv(1-3)]) (simp_all add: saved_def)
  moreover have "row_view (dm_id m) (rw_store w') = row_view (dm_id m) ?q"
    by (simp add: row_view_def redirect_rows_def history_rows_def save_checkpoint_Ok [OF p(2)])
  ultimately show ?thesis
    using load_download_view [of "rw_store w'" ?q "dm_id m" env] assms(4) wf(2) by simp
qed

lemma recover_journal_quiet:
  assumes "healthy (cuts (f_cache f))" and "stream (cuts (f_cache f)) = f_cache f" and "length (f_cache f) < 2 ^ 64"
    and "f_faults f = []" and "replay_bytes crc (f_cache f) = Ok out"
  shows "\<exists>h. recover_journal crc cuts (Ok f) = (Some h, Ok out) \<and> f_faults h = [] \<and> length (f_cache h) < 2 ^ 64 \<and>
    replay_bytes crc (f_cache h) = Ok (out\<lparr>ro_stop := CleanEof\<rparr>)"
proof -
  have "replay_reader crc (cuts (f_cache f)) = Ok out"
    using assms(2,3,5) replay_reader_bytes [OF assms(1), of crc] by simp
  then have "\<exists>h. recover_journal crc cuts (Ok f) = (Some h, Ok out) \<and> f_faults h = []"
    using assms(4)
    by (cases "ro_stop out = CleanEof") (simp_all add: recover_journal_def file_set_len_def file_sync_def next_fault_def)
  then obtain h where h: "recover_journal crc cuts (Ok f) = (Some h, Ok out)" "f_faults h = []"
    by blast
  have "f_cache h = take (unat (ro_valid_bytes out)) (f_cache f)" "replay_bytes crc (f_cache h) = Ok (out\<lparr>ro_stop := CleanEof\<rparr>)"
    using recover_journal_repairs [of cuts f, OF assms(1-3) h(1)] by blast+
  then show ?thesis
    using h assms(3) by auto
qed

lemma reconcile_usable:
  assumes "recovery_laws ra" and "load_download (ra_env ra) i (rw_store w) = (st1, Ok (Some m))"
    and "rw_files w (dm_part_path m) = Some pf" and "rw_files w jp = Some jf" and "jp \<noteq> dm_part_path m"
    and "length (f_cache jf) < 2 ^ 64" and "f_faults jf = []"
    and "journal_usable (ra_crc ra) (f_cache jf) i (dm_total_length m) out st"
    and "reconcile_download ra i jp now w = (w', Ok r)"
  shows "\<exists>h w2. persist (ra_env ra) m r (es_effective_length st) now w2 = (w', Ok r) \<and> rw_files w' jp = Some h \<and>
    f_faults h = [] \<and> length (f_cache h) < 2 ^ 64 \<and> replay_bytes (ra_crc ra) (f_cache h) = Ok (out\<lparr>ro_stop := CleanEof\<rparr>) \<and>
    rw_files w' (dm_part_path m) \<noteq> None \<and> rc_state r = Paused"
proof -
  let ?w1 = "w\<lparr>rw_store := st1\<rparr>" and ?n = "fh_total_length (ro_header out)"
  have u: "replay_bytes (ra_crc ra) (f_cache jf) = Ok out" "fh_transfer_id (ro_header out) = dm_id m" "dm_total_length m = Some ?n"
    "effective_state (ro_header out) (ro_records out) = Ok st"
    using assms(8) load_download_id [OF assms(2)] by (auto simp: journal_usable_def)
  have rd: "healthy (ra_cuts ra (f_cache jf))" "stream (ra_cuts ra (f_cache jf)) = f_cache jf"
    using assms(1) by (simp_all add: recovery_laws_def)
  obtain h where h: "recover_journal (ra_crc ra) (ra_cuts ra) (Ok jf) = (Some h, Ok out)" "f_faults h = []"
    "length (f_cache h) < 2 ^ 64" "replay_bytes (ra_crc ra) (f_cache h) = Ok (out\<lparr>ro_stop := CleanEof\<rparr>)"
    using recover_journal_quiet [of "ra_cuts ra" jf, OF rd assms(6,7) u(1)] by blast
  obtain f rec where rec: "pf_open_existing (ra_alloc ra) (ra_file_len ra) (ra_blocks ra) (open_path ra ?w1) (dm_part_path m) ?n = (f, Ok rec)"
    "reconcile_journal ra m ?n (rp_observed_length rec) (extent_of rec ?n) (rp_space_reserved rec) jp now (put_file (dm_part_path m) f ?w1) = (w', Ok r)"
    using assms(9) u(3) assms(2,3) by (auto simp: reconcile_download_def Let_def split: if_splits prod.splits sum.splits)
  have jo: "open_path ra (put_file (dm_part_path m) f ?w1) jp = Ok jf"
    using assms(1,4,5) by (simp add: open_path_def recovery_laws_def)
  let ?w2 = "put_file jp (Some h) (put_file (dm_part_path m) f ?w1)"
  obtain merged im c where rb: "rebuild_from st (rp_observed_length rec) = Ok (merged, im, c)"
    using rebuild_from_spec [OF u(4)] by blast
  have rr: "reconcile_replayed ra m ?n (rp_observed_length rec) (extent_of rec ?n) (rp_space_reserved rec) now out ?w2 = (w', Ok r)"
    using rec(2) jo h(1) by (simp add: reconcile_journal_def)
  then obtain rc w3 where p: "persist (ra_env ra) m rc (es_effective_length st) now w3 = (w', Ok r)" "rc_state rc = Paused"
    using u rb by (auto simp: reconcile_replayed_def Let_def split: option.splits prod.splits)
  have "rw_files w' = rw_files ?w2"
    using reconcile_replayed_files [OF rr] .
  then have "rw_files w' jp = Some h" "rw_files w' (dm_part_path m) \<noteq> None"
    using assms(3,5) by (auto split: if_splits)
  then show ?thesis
    using p persist_Ok [OF p(1)] h by blast
qed

text \<open>
  C20.  A truncated download does not survive two restarts.  When the journal holds a \<open>Truncate\<close> that
  changed the length, the first restart stores the new length in the database but leaves the header of
  the journal alone; the second restart compares the two, finds them different and fails the download,
  although its journal and its data are intact.
\<close>

theorem truncated_download_fails_second_restart:
  assumes "recovery_laws ra" and "env_laws (ra_env ra)" and "metadata_wf (me_url (ra_env ra)) m"
    and "load_download (ra_env ra) i (rw_store w) = (st1, Ok (Some m))"
    and "rw_files w (dm_part_path m) = Some pf" and "rw_files w jp = Some jf" and "jp \<noteq> dm_part_path m"
    and "length (f_cache jf) < 2 ^ 64" and "f_faults jf = []"
    and "journal_usable (ra_crc ra) (f_cache jf) i (dm_total_length m) out st"
    and "es_effective_length st \<noteq> fh_total_length (ro_header out)"
    and "reconcile_download ra i jp now w = (w1, Ok r1)" and "st_faults (rw_store w1) = []"
    and "\<And>g. rw_files w1 (dm_part_path m) = Some g \<Longrightarrow> length (f_cache g) < 2 ^ 64"
    and "reconcile_download ra i jp later w1 = (w2, Ok r2)"
  shows "rc_state r1 = Paused \<and> rc_state r2 = Failed \<and> rc_error_kind r2 \<noteq> None"
proof -
  have i: "dm_id m = i"
    using load_download_id [OF assms(4)] .
  obtain h w0 where f: "persist (ra_env ra) m r1 (es_effective_length st) now w0 = (w1, Ok r1)"
    "rw_files w1 jp = Some h" "f_faults h = []" "length (f_cache h) < 2 ^ 64"
    "replay_bytes (ra_crc ra) (f_cache h) = Ok (out\<lparr>ro_stop := CleanEof\<rparr>)" "rw_files w1 (dm_part_path m) \<noteq> None" "rc_state r1 = Paused"
    using reconcile_usable [OF assms(1,4-10,12)] by blast
  let ?m = "persisted_metadata m r1 (es_effective_length st) now"
  have m: "dm_part_path ?m = dm_part_path m" "dm_total_length ?m = Some (es_effective_length st)"
    using persisted_metadata_wf [OF assms(3)] by blast+
  obtain s2 where l: "load_download (ra_env ra) i (rw_store w1) = (s2, Ok (Some ?m))"
    using persist_stores [OF assms(2,3) f(1) assms(13)] i by (cases "load_download (ra_env ra) i (rw_store w1)") auto
  have quiet: "recover_journal (ra_crc ra) (ra_cuts ra) (Ok h) \<noteq> (g, Err (ReplayIo e))" for g e
    using recover_journal_quiet [of "ra_cuts ra" h, OF _ _ f(4,3,5)] assms(1) by (auto simp: recovery_laws_def)
  have un: "\<nexists>out st. journal_usable (ra_crc ra) (f_cache h) i (dm_total_length ?m) out st"
    using f(5) m(2) assms(11) by (auto simp: journal_usable_def)
  obtain g where g: "rw_files w1 (dm_part_path ?m) = Some g"
    using f(6) m(1) by auto
  have "rc_state r2 = Failed \<and> rc_error_kind r2 \<noteq> None"
    using reconcile_outcome [OF assms(1) l g f(2) _ f(4) _ _ assms(15)] quiet un assms(7,14) g m(1) by auto
  then show ?thesis
    using f(7) by blast
qed

section \<open>Recovery succeeds on a working machine\<close>

lemma save_checkpoint_quiet:
  assumes "st_faults s = []" and "map_of (st_downloads s) i = Some row"
    and "optional_rust_u64 ''downloads.total_length'' (dr_total_length row) = Ok (Some (cp_total_length cp))"
    and "encode_cbor env cp = Ok bs" and "unat seq < 2 ^ 63" and "unat now < 2 ^ 63" and "unat (cp_covered_bytes cp) < 2 ^ 63"
  shows "\<exists>s'. save_checkpoint env i seq now cp s = (s', Ok True) \<and> st_faults s' = []"
  using assms
  by (simp add: save_checkpoint_def download_total_length_def sql_bind_def sqlite_u64_def insert_checkpoint_def)

lemma load_quiet_faults:
  assumes "st_faults s = []"
  shows "st_faults (fst (load_download env i s)) = []"
proof (cases "map_of (st_downloads s) i")
  case (Some row)
  obtain r where r: "load_redirects (me_url env) j s = (s, r j)" for j
    using assms by (simp add: load_redirects_def sql_bind_def)
  have d: "fst (load_identity env j s) = s" for j
    using assms r [of j] by (cases "map_of (st_identities s) j"; cases "r j") (simp_all add: load_identity_def sql_bind_def)
  have h: "fst (load_history (me_url env) j s) = s" for j
    using assms by (simp add: load_history_def sql_bind_def)
  have "fst (finish_download env l s) = s" for l
    using d [of "lr_id l"] h [of "lr_id l"] by (auto simp: finish_download_def sql_bind_def Let_def split: prod.splits sum.splits)
  then show ?thesis
    using assms Some by (auto simp: load_download_def sql_bind_def split: prod.splits sum.splits) (metis fst_conv)+
qed (use assms in \<open>simp add: load_download_def sql_bind_def\<close>)

lemma saved_row:
  assumes "saved env m drow irow s s'" and "download_params pd = Ok drow" and "pd_metadata pd = m"
  shows "map_of (st_downloads s') (dm_id m) = Some drow"
    and "optional_rust_u64 f (dr_total_length drow) = Ok (dm_total_length m)"
proof -
  show "map_of (st_downloads s') (dm_id m) = Some drow"
    using assms(1) by (simp add: saved_def update_conv')
  obtain c where "optional_sqlite_u64 ''total_length'' (dm_total_length m) = Ok c" "dr_total_length drow = c"
    using assms(2,3) by (auto simp: download_params_def Let_def and_then_eq_Inr)
  then show "optional_rust_u64 f (dr_total_length drow) = Ok (dm_total_length m)"
    using sqlite_ints(2) by blast
qed

lemma ascending_span: "ascending t p ivs \<Longrightarrow> p \<le> t \<Longrightarrow> unat p + span ivs \<le> unat t"
proof (induction t p ivs rule: ascending.induct)
  case (2 t p s e ivs)
  then have "unat e + span ivs \<le> unat t" "unat p \<le> unat s" "unat s < unat e"
    by (simp_all add: word_le_nat_alt word_less_nat_alt)
  then show ?case
    by simp
qed (simp add: word_le_nat_alt)

lemma persist_quiet:
  assumes "metadata_wf (me_url env) m" and "prepared_new env (persisted_metadata m rc eff now) = Ok pd"
    and "checkpoint_of eff (rc_intervals rc) = Ok cp" and "encode_cbor env cp = Ok bs"
    and "unat (rc_next_sequence rc) < 2 ^ 63" and "unat now < 2 ^ 63" and "unat eff < 2 ^ 63" and "st_faults (rw_store w) = []"
  shows "\<exists>w'. persist env m rc eff now w = (w', Ok rc) \<and> st_faults (rw_store w') = []"
proof -
  let ?m = "persisted_metadata m rc eff now"
  have m: "metadata_wf (me_url env) ?m" "dm_total_length ?m = Some eff"
    using persisted_metadata_wf [OF assms(1)] by blast+
  obtain st1 where s: "save_download env ?m (rw_store w) = (st1, Ok ())" "st_faults st1 = []"
    using save_quiet [OF m(1) assms(2,8)] by blast
  obtain drow irow where d: "download_params pd = Ok drow" "saved env ?m drow irow (rw_store w) st1"
    using save_download_Ok [OF s(1)] assms(2) by auto
  have t: "validate_intervals eff (cp_intervals cp) None = Ok cp" "cp_total_length cp = eff"
    using assms(3) by (auto simp: checkpoint_of_def checkpoint_try_new_def validate_intervals_def and_then_eq_Inr split: if_splits)
  have "validate_loop eff None 0 (cp_intervals cp) = Ok (cp_covered_bytes cp)"
    using t(1) by (cases cp) (simp add: validate_intervals_def and_then_eq_Inr split: if_splits)
  then have "ascending eff 0 (cp_intervals cp)" "unat (cp_covered_bytes cp) = span (cp_intervals cp)"
    using validate_loop_iff [of 0 None eff "cp_intervals cp" "cp_covered_bytes cp"] by simp_all
  then have "unat (cp_covered_bytes cp) < 2 ^ 63"
    using ascending_span [of eff 0 "cp_intervals cp"] assms(7) by simp
  then obtain st2 where "save_checkpoint env (dm_id ?m) (rc_next_sequence rc) now cp st1 = (st2, Ok True)" "st_faults st2 = []"
    using save_checkpoint_quiet [OF s(2) saved_row(1) [OF d(2,1) prepared_parts(1) [OF assms(2)]] _ assms(4,5,6)]
      saved_row(2) [OF d(2,1) prepared_parts(1) [OF assms(2)]] t(2) m(2) by auto
  then show ?thesis
    using s assms(3) by (simp add: persist_def Let_def)
qed

text \<open>With a usable journal, reconciliation comes down to rebuilding and persisting.\<close>

lemma reconcile_usable_runs:
  assumes "load_download (ra_env ra) i (rw_store w) = (st1, Ok (Some m))" and "dm_state m \<noteq> Completed" and "dm_state m \<noteq> Failed"
    and "rw_files w (dm_part_path m) = Some pf" and "dm_total_length m = Some n"
    and "pf_open_existing (ra_alloc ra) (ra_file_len ra) (ra_blocks ra) (open_path ra (w\<lparr>rw_store := st1\<rparr>)) (dm_part_path m) n = (f, Ok rec)"
    and "recover_journal (ra_crc ra) (ra_cuts ra) (open_path ra (put_file (dm_part_path m) f (w\<lparr>rw_store := st1\<rparr>)) jp) = (h, Ok out)"
    and "journal_usable crc content (dm_id m) (Some n) out st" and "length (ro_records out) < 2 ^ 64"
    and "rebuild_from st (rp_observed_length rec) = Ok (merged, im, c)"
    and "compare_checkpoint (ra_env ra) (dm_id m) c merged st1 = (st2, dv)"
  shows "reconcile_download ra i jp now w =
    persist (ra_env ra) m
      \<lparr>rc_state = Paused, rc_error_kind = None, rc_intervals = im, rc_covered_bytes = c,
       rc_next_sequence = of_nat (length (ro_records out)), rc_sealed = es_sealed st, rc_divergence = dv,
       rc_extent = extent_of rec n, rc_journal_tail_repaired = (ro_stop out \<noteq> CleanEof),
       rc_space_reserved = rp_space_reserved rec\<rparr> (es_effective_length st) now
      ((put_file jp h (put_file (dm_part_path m) f w))\<lparr>rw_store := st2\<rparr>)"
proof -
  have u: "fh_transfer_id (ro_header out) = dm_id m" "fh_total_length (ro_header out) = n"
    "effective_state (ro_header out) (ro_records out) = Ok st"
    using assms(8) by (auto simp: journal_usable_def)
  have w: "(put_file jp h (put_file (dm_part_path m) f (w\<lparr>rw_store := st1\<rparr>)))\<lparr>rw_store := st2\<rparr> =
      (put_file jp h (put_file (dm_part_path m) f w))\<lparr>rw_store := st2\<rparr>"
    by (simp add: put_file_def split: option.splits)
  show ?thesis
    using assms u
    by (simp add: reconcile_download_def reconcile_journal_def reconcile_replayed_def try_from_nat_def w Let_def)
qed

section \<open>An example\<close>

text \<open>A codec that knows a few values.\<close>

definition known :: "('w \<times> bytes) list \<Rightarrow> 'w cbor" where
  "known ps = \<lparr>cb_write = (\<lambda>w. ok_or ''unsupported'' (map_of ps w)),
     cb_read = (\<lambda>bs. case find (\<lambda>p. snd p = bs) ps of None \<Rightarrow> Err ''unsupported'' | Some p \<Rightarrow> Ok (fst p, length bs))\<rparr>"

definition plain_identity :: "string identity_metadata" where
  "plain_identity = demo_identity\<lparr>idm_range_support := Unknown\<rparr>"

definition plain_metadata :: "download_state \<Rightarrow> u64 \<Rightarrow> u64 \<Rightarrow> string option \<Rightarrow> string download_metadata" where
  "plain_metadata st total_len covered kind =
     demo_metadata\<lparr>dm_state := st, dm_total_length := Some total_len, dm_covered_bytes := covered,
       dm_error_kind := kind, dm_identity := plain_identity\<rparr>"

definition plain_snapshot :: "download_state \<Rightarrow> u64 \<Rightarrow> u64 \<Rightarrow> string option \<Rightarrow> snapshot_wire" where
  "plain_snapshot st total_len covered kind =
     IdentitySnapshotWireV1 1 demo_id (state_code st) 5 6 (PathWire 0 (path_bytes ''/d/f''))
       (PathWire 0 (path_bytes ''/d/f.dppart'')) (Some total_len) covered None 0 kind True
       (identity_to_wire demo_url plain_identity 2 None) [HistoryWire (from_reference demo_url demo_reference) 5]"

definition mismatched :: "string option" where
  "mismatched = Some ''storage.journal-mismatched''"

definition plain_env :: "string md_env" where
  "plain_env = demo_env\<lparr>
     me_checkpoint := known [(CheckpointWireV1 1 4 4 [(0, 4)], [0x84, 0x01, 0x04, 0x04, 0x81, 0x82, 0x00, 0x04])],
     me_snapshot := known [(plain_snapshot Paused 8 4 None, [0x8f, 0x01, 0]), (plain_snapshot Paused 4 4 None, [0x8f, 0x01, 1]),
       (plain_snapshot Failed 4 0 mismatched, [0x8f, 0x01, 2])]\<rparr>"

definition plain_header :: file_header where
  "plain_header = \<lparr>fh_transfer_id = demo_id, fh_total_length = 8, fh_block_size = 4, fh_validator_hash = replicate 32 0\<rparr>"

definition plain_records :: "framed_record list" where
  "plain_records = [\<lparr>fr_sequence = 0, fr_record = BlockComplete 0 4 (replicate 32 9)\<rparr>, \<lparr>fr_sequence = 1, fr_record = Truncate 4\<rparr>]"

definition plain_journal :: os_file where
  "plain_journal = \<lparr>f_cache = encode_header (\<lambda>_. 0) plain_header @ journal_body (\<lambda>_. 0) plain_records, f_stable = [], f_faults = []\<rparr>"

definition plain_part :: os_file where
  "plain_part = \<lparr>f_cache = [1, 2, 3, 4, 0, 0, 0, 0], f_stable = [], f_faults = []\<rparr>"

definition plain_api :: "string recovery_api" where
  "plain_api = \<lparr>ra_env = plain_env, ra_crc = (\<lambda>_. 0), ra_cuts = (\<lambda>bs. if bs = [] then [] else [RdData bs]),
     ra_alloc = \<lparr>la_fallocate_keep_size = (\<lambda>f. (f, Ok ())), la_posix_fallocate = (\<lambda>f. (f, Ok ()))\<rparr>,
     ra_file_len = (\<lambda>f. if length (f_cache f) < 2 ^ 64 then Ok (of_nat (length (f_cache f))) else Err (io_new IoOther)),
     ra_blocks = (\<lambda>_. Ok 1), ra_open_fault = (\<lambda>_. None)\<rparr>"

definition plain_files :: "path \<Rightarrow> os_file option" where
  "plain_files = [''/d/f.dppart'' \<mapsto> plain_part, ''/d/j'' \<mapsto> plain_journal]"

lemma known_laws: "distinct (map snd ps) \<Longrightarrow> cbor_laws (known ps)"
proof -
  assume d: "distinct (map snd ps)"
  have "find (\<lambda>p. snd p = bs) ps = Some (w, bs)" if "map_of ps w = Some bs" for w bs
    using d that
  proof (induction ps)
    case (Cons p ps)
    then have "bs \<in> snd ` set ps" if "fst p \<noteq> w"
      using that map_of_SomeD [of ps w bs] by (force split: if_splits)
    then show ?case
      using Cons by (auto split: if_splits)
  qed simp
  then show ?thesis
    by (auto simp: cbor_laws_def known_def ok_or_eq_Inr)
qed

lemma plain_env_laws: "env_laws plain_env"
proof -
  have "snapshot_head_law (me_snapshot plain_env)"
    by (auto simp: snapshot_head_law_def plain_env_def known_def ok_or_eq_Inr split: if_splits)
  moreover have "checkpoint_head_law (me_checkpoint plain_env)"
    by (auto simp: checkpoint_head_law_def plain_env_def known_def ok_or_eq_Inr cbor_head_def cbor_initial_def split: if_splits)
  ultimately show ?thesis
    using demo_env_laws by (simp add: env_laws_def plain_env_def known_laws)
qed

lemma plain_laws: "recovery_laws plain_api"
  by (auto simp: recovery_laws_def plain_api_def unat_of_nat64 split: if_splits)

lemma plain_url [simp]: "me_url plain_env = demo_url" "me_path plain_env = short_path"
  by (simp_all add: plain_env_def demo_env_def)

lemma plain_wf: "metadata_wf demo_url (plain_metadata Paused t c None)"
  using demo_metadata_wf
  by (simp add: metadata_wf_def plain_metadata_def demo_metadata_def identity_wf_def plain_identity_def demo_identity_def range_support_wf_def)

lemma plain_wf_failed: "metadata_wf demo_url (plain_metadata Failed t c mismatched)"
  using demo_metadata_wf
  by (simp add: metadata_wf_def plain_metadata_def demo_metadata_def identity_wf_def plain_identity_def demo_identity_def range_support_wf_def
      mismatched_def error_kind_new_def MAX_ERROR_KIND_BYTES_def is_ascii_lowercase_def is_ascii_digit_def ord_of_def)

lemma plain_prepared:
  assumes "(st, t, c, k) \<in> {(Paused, 8, 4, None), (Paused, 4, 4, None), (Failed, 4, 0, mismatched)}"
  shows "\<exists>pd. prepared_new plain_env (plain_metadata st t c k) = Ok pd"
proof -
  let ?m = "plain_metadata st t c k"
  have p: "encode_path plain_env ''/d/f'' = Ok (0x82 # 0 # 0x44 # path_bytes ''/d/f'')"
    "encode_path plain_env ''/d/f.dppart'' = Ok (0x82 # 0 # 0x4b # path_bytes ''/d/f.dppart'')"
    by (simp_all add: encode_path_def demo_paths encode_wire_def short_path_def path_bytes_def)
  have r: "validate_url_reference demo_url demo_reference = Ok ()"
    by (simp add: validate_url_reference_def demo_url_def demo_reference_def check_len_def try_opt_def MAX_URL_BYTES_def
        MAX_SECRET_REF_BYTES_def)
  then have i: "validate_identity plain_env plain_identity = Ok ()"
    by (simp add: validate_identity_def plain_identity_def demo_identity_def try_opt_def check_len_def
        MAX_URL_BYTES_def MAX_HEADER_BYTES_def MAX_FILENAME_BYTES_def check_server_digest_def check_range_support_def)
      (simp add: demo_url_def)
  have "idm_range_support plain_identity = Unknown" "idm_probed_at_ms plain_identity = 5"
    "length (idm_redirect_chain plain_identity) = 1"
    by (simp_all add: plain_identity_def demo_identity_def)
  then have "validate_metadata plain_env ?m = Ok ()"
    using assms r i
    by (auto simp: validate_metadata_def plain_metadata_def demo_metadata_def sqlite_u64_def optional_sqlite_u64_def map_transpose_def
        MAX_REDIRECTS_def MAX_HISTORY_ENTRIES_def try_opt_def validate_history_entry_def demo_paths mismatched_def
        check_len_def MAX_ERROR_KIND_BYTES_def)
  moreover have "from_metadata plain_env ?m = Ok (plain_snapshot st t c k)"
    by (simp add: from_metadata_def plain_metadata_def demo_metadata_def demo_paths plain_snapshot_def)
       (simp add: plain_identity_def range_support_to_wire_def demo_identity_def)
  moreover have "\<exists>bs. encode_wire (me_snapshot plain_env) (plain_snapshot st t c k) FmtIdentitySnapshot = Ok bs \<and> length bs = 3"
    using assms by (auto simp: encode_wire_def plain_env_def known_def)
  ultimately have "\<exists>bs. encode_identity_snapshot plain_env ?m = Ok bs"
    by (auto simp: encode_identity_snapshot_def check_payload_len_def MAX_PAYLOAD_LEN_def)
  then show ?thesis
    using p by (auto simp: prepared_new_def plain_metadata_def demo_metadata_def plain_identity_def range_state_parts_def)
qed

definition plain_outcome :: replay_outcome where
  "plain_outcome = \<lparr>ro_header = plain_header, ro_records = plain_records,
     ro_valid_bytes = of_nat (length (f_cache plain_journal)), ro_stop = CleanEof\<rparr>"

definition plain_state :: effective_state where
  "plain_state = \<lparr>es_effective_length = 4, es_truncate = Some 4, es_identities = [],
     es_blocks = [\<lparr>cb_offset = 0, cb_len = 4, cb_blake3 = replicate 32 9\<rparr>], es_sealed = None\<rparr>"

definition plain_map :: interval_map where
  "plain_map = \<lparr>im_total_length = 4, im_intervals = [\<lparr>iv_start = 0, iv_end = 4, iv_state = Complete\<rparr>]\<rparr>"

definition plain_result :: reconciliation where
  "plain_result = \<lparr>rc_state = Paused, rc_error_kind = None, rc_intervals = plain_map, rc_covered_bytes = 4,
     rc_next_sequence = 2, rc_sealed = None, rc_divergence = NoCheckpoint, rc_extent = Intact,
     rc_journal_tail_repaired = False, rc_space_reserved = True\<rparr>"

lemma plain_replay: "replay_bytes (\<lambda>_. 0) (f_cache plain_journal) = Ok plain_outcome" "length (f_cache plain_journal) < 2 ^ 64"
proof -
  have wf: "wf_header plain_header" "wf_frames 0 plain_records"
    by (simp_all add: wf_header_def plain_header_def plain_records_def MAX_PAYLOAD_LEN_def demo_id_def)
  show l: "length (f_cache plain_journal) < 2 ^ 64"
    using wf(1) by (simp add: plain_journal_def HEADER_LEN_def plain_records_def length_frame_bytes)
  show "replay_bytes (\<lambda>_. 0) (f_cache plain_journal) = Ok plain_outcome"
    using replay_of_journal [OF wf, of "\<lambda>_. 0" "[]"] l wf(1)
    by (simp add: plain_journal_def plain_outcome_def peel.simps [of "\<lambda>_. 0" _ "[]"] decode_short stop_of_def HEADER_LEN_def)
qed

lemma plain_effective: "effective_state plain_header plain_records = Ok plain_state"
  by (simp add: effective_state_def plain_header_def plain_records_def plain_state_def cb_end_def checked_add_def Let_def
      word_lt_unat word_le_unat)

lemma plain_usable: "journal_usable (\<lambda>_. 0) (f_cache plain_journal) demo_id (Some 8) plain_outcome plain_state"
  using plain_replay plain_effective by (simp add: journal_usable_def plain_outcome_def plain_header_def)

lemma plain_rebuild: "rebuild_from plain_state 8 = Ok ([(0, 4)], plain_map, 4)"
  by (simp add: rebuild_from_def plain_state_def cb_end_def checked_add_def merge_adjacent_def plain_map_def im_new_def
      grant_def im_complete_def validate_range_def range_matches_def replace_range_def replace_step_def normalise_def push_merged_def
      word_lt_unat word_le_unat)

lemma plain_load:
  "\<exists>s. st_faults s = [] \<and> st_checkpoints s = [] \<and>
     load_download plain_env demo_id s = (s, Ok (Some (plain_metadata Paused 8 4 None)))"
proof -
  let ?m = "plain_metadata Paused 8 4 None"
  obtain pd where pd: "prepared_new plain_env ?m = Ok pd"
    using plain_prepared by blast
  have wf: "metadata_wf (me_url plain_env) ?m"
    using plain_wf by simp
  obtain s where s: "save_download plain_env ?m empty_store = (s, Ok ())" "st_faults s = []"
    using save_quiet [OF wf pd, of empty_store] by (auto simp: empty_store_def)
  obtain drow irow where d: "download_params pd = Ok drow" "identity_params (me_url plain_env) pd = Ok irow"
    "saved plain_env ?m drow irow empty_store s"
    using save_download_Ok [OF s(1)] pd by auto
  have "dm_id ?m = demo_id"
    by (simp add: plain_metadata_def demo_metadata_def)
  then show ?thesis
    using load_saved [OF plain_env_laws wf pd d s(2)] s(2) d(3) by (auto simp: saved_def empty_store_def)
qed

lemma plain_recover:
  "\<exists>h. recover_journal (ra_crc plain_api) (ra_cuts plain_api) (Ok plain_journal) = (Some h, Ok plain_outcome)"
proof -
  have "healthy (ra_cuts plain_api (f_cache plain_journal))" "stream (ra_cuts plain_api (f_cache plain_journal)) = f_cache plain_journal"
    using plain_laws by (simp_all add: recovery_laws_def)
  moreover have "ra_crc plain_api = (\<lambda>_. 0)" "f_faults plain_journal = []"
    by (simp_all add: plain_api_def plain_journal_def)
  ultimately show ?thesis
    using recover_journal_quiet [of "ra_cuts plain_api" plain_journal "\<lambda>_. 0" plain_outcome] plain_replay by auto
qed

lemma plain_compare:
  "st_faults s = [] \<Longrightarrow> st_checkpoints s = [] \<Longrightarrow> compare_checkpoint env i c m s = (s, NoCheckpoint)"
  by (simp add: compare_checkpoint_def load_checkpoint_def sql_bind_def checkpoint_join_def map_transpose_def)

lemma plain_first:
  assumes "st_faults s = []" and "st_checkpoints s = []"
    and "load_download plain_env demo_id s = (s, Ok (Some (plain_metadata Paused 8 4 None)))"
  shows "\<exists>w1. reconcile_download plain_api demo_id ''/d/j'' 6 \<lparr>rw_store = s, rw_files = plain_files\<rparr> = (w1, Ok plain_result) \<and>
    st_faults (rw_store w1) = [] \<and> rw_files w1 ''/d/f.dppart'' = Some plain_part"
proof -
  let ?m = "plain_metadata Paused 8 4 None"
  obtain h where h: "recover_journal (ra_crc plain_api) (ra_cuts plain_api) (Ok plain_journal) = (Some h, Ok plain_outcome)"
    using plain_recover by blast
  have m: "dm_part_path ?m = ''/d/f.dppart''" "dm_total_length ?m = Some 8" "dm_state ?m = Paused" "dm_id ?m = demo_id"
    by (simp_all add: plain_metadata_def demo_metadata_def)
  let ?w = "\<lparr>rw_store = s, rw_files = plain_files\<rparr>"
  let ?w2 = "put_file ''/d/j'' (Some h) (put_file ''/d/f.dppart'' (Some plain_part) ?w)"
  have pm: "persisted_metadata ?m plain_result 4 6 = plain_metadata Paused 4 4 None"
    by (simp add: persisted_metadata_def plain_metadata_def plain_result_def demo_metadata_def plain_identity_def demo_identity_def)
  have cp: "checkpoint_of 4 plain_map = Ok \<lparr>cp_total_length = 4, cp_covered_bytes = 4, cp_intervals = [(0, 4)]\<rparr>"
    by (simp add: checkpoint_of_def complete_ranges_def plain_map_def interval_try_new_def checkpoint_try_new_def validate_intervals_def
        checked_add_def MAX_CHECKPOINT_INTERVALS_def)
  have enc: "\<exists>bs. encode_cbor plain_env \<lparr>cp_total_length = 4, cp_covered_bytes = 4, cp_intervals = [(0, 4)]\<rparr> = Ok bs"
    by (simp add: encode_cbor_def encode_wire_def plain_env_def known_def check_payload_len_def MAX_CHECKPOINT_BYTES_def)
  obtain pd where pd: "prepared_new plain_env (persisted_metadata ?m plain_result 4 6) = Ok pd"
    using plain_prepared [of Paused 4 4 None] pm by auto
  obtain bs where bs: "encode_cbor plain_env \<lparr>cp_total_length = 4, cp_covered_bytes = 4, cp_intervals = [(0, 4)]\<rparr> = Ok bs"
    using enc by blast
  have "rc_intervals plain_result = plain_map" "rc_next_sequence plain_result = 2" "metadata_wf (me_url plain_env) ?m"
    using plain_wf by (simp_all add: plain_result_def)
  then have "\<exists>w'. persist plain_env ?m plain_result 4 6 ?w2 = (w', Ok plain_result) \<and> st_faults (rw_store w') = []"
    using assms(1) cp by (intro persist_quiet [OF _ pd _ bs]) simp_all
  then obtain w1 where w1: "persist plain_env ?m plain_result 4 6 ?w2 = (w1, Ok plain_result)" "st_faults (rw_store w1) = []"
    by blast
  let ?rec = "\<lparr>rp_part = \<lparr>pf_file = plain_part, pf_path = ''/d/f.dppart'', pf_total_length = 8, pf_method = SetLength\<rparr>,
      rp_observed_length = 8, rp_reextended = False, rp_space_reserved = True\<rparr> :: recovered_part_file"
  have 1: "load_download (ra_env plain_api) demo_id (rw_store ?w) = (s, Ok (Some ?m))"
    using assms(3) by (simp add: plain_api_def)
  have 2: "dm_state ?m \<noteq> Completed" "dm_state ?m \<noteq> Failed" "rw_files ?w (dm_part_path ?m) = Some plain_part"
    by (simp_all add: m plain_files_def)
  have 3: "pf_open_existing (ra_alloc plain_api) (ra_file_len plain_api) (ra_blocks plain_api)
      (open_path plain_api (?w\<lparr>rw_store := s\<rparr>)) (dm_part_path ?m) 8 = (Some plain_part, Ok ?rec)"
    by (simp add: m pf_open_existing_def i64_max_def open_path_def plain_api_def plain_files_def plain_part_def pf_allocated_size_def
        saturating_mul_def Let_def)
  have 4: "recover_journal (ra_crc plain_api) (ra_cuts plain_api)
      (open_path plain_api (put_file (dm_part_path ?m) (Some plain_part) (?w\<lparr>rw_store := s\<rparr>)) ''/d/j'') = (Some h, Ok plain_outcome)"
    using h by (simp add: m open_path_def) (simp add: plain_api_def plain_files_def)
  have 5: "journal_usable (\<lambda>_. 0) (f_cache plain_journal) (dm_id ?m) (Some 8) plain_outcome plain_state"
    "length (ro_records plain_outcome) < 2 ^ 64" "rebuild_from plain_state (rp_observed_length ?rec) = Ok ([(0, 4)], plain_map, 4)"
    using plain_usable plain_rebuild by (simp_all add: m plain_outcome_def plain_records_def)
  note run = reconcile_usable_runs [OF 1 2 m(2) 3 4 5 plain_compare [OF assms(1,2)], of 6]
  have "reconcile_download plain_api demo_id ''/d/j'' 6 ?w = persist plain_env ?m plain_result 4 6 ?w2"
    unfolding run
    by (simp add: m plain_result_def plain_state_def extent_of_def plain_outcome_def plain_records_def plain_api_def put_file_def)
  then show ?thesis
    using w1 persist_files [OF w1(1)] by simp
qed

lemma reconcile_mismatched_runs:
  assumes "load_download (ra_env ra) i (rw_store w) = (st1, Ok (Some m))" and "dm_state m \<noteq> Completed" and "dm_state m \<noteq> Failed"
    and "rw_files w (dm_part_path m) = Some pf" and "dm_total_length m = Some n"
    and "pf_open_existing (ra_alloc ra) (ra_file_len ra) (ra_blocks ra) (open_path ra (w\<lparr>rw_store := st1\<rparr>)) (dm_part_path m) n = (f, Ok rec)"
    and "recover_journal (ra_crc ra) (ra_cuts ra) (open_path ra (put_file (dm_part_path m) f (w\<lparr>rw_store := st1\<rparr>)) jp) = (h, Ok out)"
    and "fh_total_length (ro_header out) \<noteq> n"
  shows "reconcile_download ra i jp now w =
    rec_fail (ra_env ra) m ''storage.journal-mismatched'' now (put_file jp h (put_file (dm_part_path m) f (w\<lparr>rw_store := st1\<rparr>)))"
  using assms by (simp add: reconcile_download_def reconcile_journal_def reconcile_replayed_def Let_def)

lemma plain_second:
  assumes "load_download plain_env demo_id (rw_store w) = (st1, Ok (Some (plain_metadata Paused 4 4 None)))"
    and "st_faults st1 = []" and "rw_files w ''/d/f.dppart'' = Some plain_part" and "rw_files w ''/d/j'' = Some j"
    and "f_faults j = []" and "length (f_cache j) < 2 ^ 64"
    and "replay_bytes (\<lambda>_. 0) (f_cache j) = Ok out" and "ro_header out = plain_header"
  shows "\<exists>w2 r. reconcile_download plain_api demo_id ''/d/j'' 6 w = (w2, Ok r)"
proof -
  let ?m = "plain_metadata Paused 4 4 None"
  have m: "dm_part_path ?m = ''/d/f.dppart''" "dm_total_length ?m = Some 4" "dm_state ?m = Paused" "dm_id ?m = demo_id"
    by (simp_all add: plain_metadata_def demo_metadata_def)
  let ?rec = "\<lparr>rp_part = \<lparr>pf_file = plain_part, pf_path = ''/d/f.dppart'', pf_total_length = 4, pf_method = SetLength\<rparr>,
      rp_observed_length = 8, rp_reextended = False, rp_space_reserved = True\<rparr> :: recovered_part_file"
  have 1: "load_download (ra_env plain_api) demo_id (rw_store w) = (st1, Ok (Some ?m))"
    using assms(1) by (simp add: plain_api_def)
  have 2: "dm_state ?m \<noteq> Completed" "dm_state ?m \<noteq> Failed" "rw_files w (dm_part_path ?m) = Some plain_part"
    using assms(3) by (simp_all add: m)
  have 3: "pf_open_existing (ra_alloc plain_api) (ra_file_len plain_api) (ra_blocks plain_api)
      (open_path plain_api (w\<lparr>rw_store := st1\<rparr>)) (dm_part_path ?m) 4 = (Some plain_part, Ok ?rec)"
    using assms(3)
    by (simp add: m pf_open_existing_def i64_max_def open_path_def plain_api_def pf_allocated_size_def saturating_mul_def Let_def)
       (simp add: plain_part_def)
  have cuts: "healthy (ra_cuts plain_api (f_cache j))" "stream (ra_cuts plain_api (f_cache j)) = f_cache j"
    "ra_crc plain_api = (\<lambda>_. 0)"
    using plain_laws by (simp_all add: recovery_laws_def plain_api_def)
  obtain h where h: "recover_journal (ra_crc plain_api) (ra_cuts plain_api) (Ok j) = (Some h, Ok out)"
    using recover_journal_quiet [of "ra_cuts plain_api" j, OF cuts(1,2) assms(6,5,7)] cuts(3) by auto
  have 4: "recover_journal (ra_crc plain_api) (ra_cuts plain_api)
      (open_path plain_api (put_file (dm_part_path ?m) (Some plain_part) (w\<lparr>rw_store := st1\<rparr>)) ''/d/j'') = (Some h, Ok out)"
    using h assms(4) by (simp add: m open_path_def) (simp add: plain_api_def)
  have 5: "fh_total_length (ro_header out) \<noteq> 4"
    using assms(8) by (simp add: plain_header_def)
  have e: "error_kind_new ''storage.journal-mismatched'' = Ok ''storage.journal-mismatched''"
    using plain_wf_failed by (simp add: metadata_wf_def plain_metadata_def mismatched_def)
  have f: "?m\<lparr>dm_state := Failed, dm_error_kind := Some ''storage.journal-mismatched'', dm_covered_bytes := 0, dm_updated_at_ms := 6\<rparr> =
      plain_metadata Failed 4 0 mismatched"
    by (simp add: plain_metadata_def demo_metadata_def mismatched_def)
  obtain pd where "prepared_new plain_env (plain_metadata Failed 4 0 mismatched) = Ok pd"
    using plain_prepared [of Failed 4 0 mismatched] by auto
  then obtain s' where "save_download plain_env (plain_metadata Failed 4 0 mismatched) st1 = (s', Ok ())"
    using save_quiet [of plain_env] plain_wf_failed assms(2) by force
  then show ?thesis
    unfolding reconcile_mismatched_runs [OF 1 2 m(2) 3 4 5, of 6]
    by (simp add: rec_fail_def e f Let_def m(2)) (simp add: plain_api_def)
qed

lemma plain_facts:
  "dm_part_path (plain_metadata Paused t c None) = ''/d/f.dppart''" "dm_id (plain_metadata Paused t c None) = demo_id"
  "dm_total_length (plain_metadata Paused t c None) = Some t" "plain_files ''/d/f.dppart'' = Some plain_part"
  "plain_files ''/d/j'' = Some plain_journal" "f_faults plain_journal = []" "length (f_cache plain_part) = 8"
  "ra_env plain_api = plain_env" "ra_crc plain_api = (\<lambda>_. 0)"
  "alloc_keeps (la_fallocate_keep_size (ra_alloc plain_api))" "alloc_keeps (la_posix_fallocate (ra_alloc plain_api))"
  by (simp_all add: plain_metadata_def demo_metadata_def plain_files_def plain_journal_def plain_part_def plain_api_def alloc_keeps_def)

theorem recovery_restores_durable_witness:
  "\<exists>s w'. reconcile_download plain_api demo_id ''/d/j'' 6 \<lparr>rw_store = s, rw_files = plain_files\<rparr> = (w', Ok plain_result) \<and>
     rc_state plain_result = Paused \<and>
     (\<exists>out st. journal_usable (\<lambda>_. 0) (f_cache plain_journal) demo_id (Some 8) out st \<and>
        rebuilt st 8 (rc_intervals plain_result) (rc_covered_bytes plain_result))"
proof -
  obtain s where s: "st_faults s = []" "st_checkpoints s = []"
    "load_download plain_env demo_id s = (s, Ok (Some (plain_metadata Paused 8 4 None)))"
    using plain_load by blast
  obtain w' where w: "reconcile_download plain_api demo_id ''/d/j'' 6 \<lparr>rw_store = s, rw_files = plain_files\<rparr> = (w', Ok plain_result)"
    using plain_first [OF s] by blast
  have "recover_journal (ra_crc plain_api) (ra_cuts plain_api) (Ok plain_journal) \<noteq> (g, Err (ReplayIo e))" for g e
    using plain_recover by auto
  then have "rc_state plain_result = Paused \<and> (\<exists>out st. journal_usable (\<lambda>_. 0) (f_cache plain_journal) demo_id (Some 8) out st \<and>
        rebuilt st 8 (rc_intervals plain_result) (rc_covered_bytes plain_result))"
    using recovery_restores_durable [OF plain_laws _ _ _ _ plain_replay(2) _ _ w, of s "plain_metadata Paused 8 4 None" plain_part] s(3)
    by (auto simp: plain_facts plain_result_def)
  then show ?thesis
    using w by blast
qed


theorem truncated_download_fails_second_restart_witness:
  "\<exists>s w1 w2 r2. reconcile_download plain_api demo_id ''/d/j'' 6 \<lparr>rw_store = s, rw_files = plain_files\<rparr> = (w1, Ok plain_result) \<and>
     reconcile_download plain_api demo_id ''/d/j'' 6 w1 = (w2, Ok r2) \<and> rc_state r2 = Failed"
proof -
  let ?m = "plain_metadata Paused 8 4 None"
  obtain s where s: "st_faults s = []" "st_checkpoints s = []"
    "load_download plain_env demo_id s = (s, Ok (Some ?m))"
    using plain_load by blast
  let ?w = "\<lparr>rw_store = s, rw_files = plain_files\<rparr>"
  obtain w1 where w: "reconcile_download plain_api demo_id ''/d/j'' 6 ?w = (w1, Ok plain_result)" "st_faults (rw_store w1) = []"
    "rw_files w1 ''/d/f.dppart'' = Some plain_part"
    using plain_first [OF s] by blast
  have h: "load_download (ra_env plain_api) demo_id (rw_store ?w) = (s, Ok (Some ?m))" "rw_files ?w (dm_part_path ?m) = Some plain_part"
    "rw_files ?w ''/d/j'' = Some plain_journal" "''/d/j'' \<noteq> dm_part_path ?m" "f_faults plain_journal = []"
    "journal_usable (ra_crc plain_api) (f_cache plain_journal) demo_id (dm_total_length ?m) plain_outcome plain_state"
    "metadata_wf (me_url (ra_env plain_api)) ?m" "env_laws (ra_env plain_api)"
    using s(3) plain_usable plain_wf plain_env_laws by (simp_all add: plain_facts)
  have d: "es_effective_length plain_state \<noteq> fh_total_length (ro_header plain_outcome)"
    by (simp add: plain_state_def plain_outcome_def plain_header_def)
  obtain j w0 where j: "persist (ra_env plain_api) ?m plain_result (es_effective_length plain_state) 6 w0 = (w1, Ok plain_result)"
    "rw_files w1 ''/d/j'' = Some j" "f_faults j = []" "length (f_cache j) < 2 ^ 64"
    "replay_bytes (ra_crc plain_api) (f_cache j) = Ok (plain_outcome\<lparr>ro_stop := CleanEof\<rparr>)"
    using reconcile_usable [OF plain_laws h(1-4) plain_replay(2) h(5,6) w(1)] by blast
  have "persisted_metadata ?m plain_result 4 6 = plain_metadata Paused 4 4 None"
    by (simp add: persisted_metadata_def plain_metadata_def plain_result_def demo_metadata_def plain_identity_def demo_identity_def)
  then have "snd (load_download plain_env demo_id (rw_store w1)) = Ok (Some (plain_metadata Paused 4 4 None))"
    using persist_stores [OF h(8,7) j(1) w(2)] by (simp add: plain_facts plain_state_def)
  then obtain st1 where l: "load_download plain_env demo_id (rw_store w1) = (st1, Ok (Some (plain_metadata Paused 4 4 None)))"
    by (cases "load_download plain_env demo_id (rw_store w1)") simp
  have "st_faults st1 = []"
    using load_quiet_faults [OF w(2)] l by (metis fst_conv)
  then obtain w2 r2 where r2: "reconcile_download plain_api demo_id ''/d/j'' 6 w1 = (w2, Ok r2)"
    using plain_second [OF l _ w(3) j(2-4)] j(5) by (auto simp: plain_facts plain_outcome_def)
  have "rc_state r2 = Failed"
    using truncated_download_fails_second_restart [OF plain_laws h(8,7,1-4) plain_replay(2) h(5,6) d w(1,2) _ r2] w(3)
    by (auto simp: plain_facts)
  then show ?thesis
    using w(1) r2 by blast
qed

end
