(* ===== verification/Spec2Isabelle.thy ===== *)
theory Spec2Isabelle
  imports Download Recovery
begin

text \<open>
  A verification library for Downpour, a download manager that promises that an interrupted download
  never loses, invents or splices bytes.  Sources are named relative to \<open>src/crates/\<close>.

  \<^bold>\<open>The program.\<close>  A probe asks the server what it can do (\<open>downpour-http\<close>, \<open>downpour-types\<close>).  The segment
  allocator (\<open>downpour-engine\<close>) hands disjoint byte ranges of the file to workers and records every byte
  as pending, in progress or complete in the interval map (\<open>downpour-intervals\<close>).  Workers send what they
  receive to one actor, the writer service, which owns the allocator and the durable writer.  The writer
  (\<open>downpour-storage\<close>) puts bytes into a preallocated part file and, in groups, synchronises the data,
  appends one checksummed record per block to a journal, synchronises the journal, and only then marks
  the bytes complete.  After a restart the journal is replayed and decides what is complete; an SQLite
  database holds the descriptive metadata and a disposable checkpoint.  A complete file is verified,
  sealed in the journal and renamed.

  \<^bold>\<open>Shared vocabulary.\<close>  \<open>Prelude\<close> has the machine integers as words with the checked and saturating
  operations of the standard library, \<open>Result\<close> as a sum and little-endian fields.  \<open>IoModel\<close> has I/O
  errors, readers that deliver a stream in arbitrary chunks with interruptions, and files with a cache
  and a stable content, injected faults and the set of contents a crash can leave.  \<open>FsModel\<close> adds a
  directory whose renames survive a crash only after it is synchronised.  \<open>AsciiText\<close> and \<open>Utf8\<close> have the
  string operations.

  \<^bold>\<open>Components.\<close>
  \<^item> \<open>IntervalMap\<close>: \<open>downpour-intervals/src/lib.rs\<close>.  The state is the list of intervals as in the source;
    the locale \<open>byte_ledger\<close> is what its clients rely on (a function from bytes to states) and is
    interpreted on the model.  Histories of operations keep the source's own invariant, complete bytes
    stay complete, and ownership moves only by a split.
  \<^item> \<open>SegmentAllocator\<close>: \<open>downpour-engine/src/lib.rs\<close>.  Grants are exclusive and choose the largest work.
  \<^item> \<open>JournalFormat\<close>, \<open>JournalReplay\<close>, \<open>JournalState\<close>, \<open>Compaction\<close>: \<open>downpour-storage/src/journal/\<close>.  The codecs
    are exact, replay returns the longest valid prefix whatever follows it, recovery repairs a torn tail
    in place, the fold of the records keeps exactly the blocks no truncation cut, and compaction keeps
    that state across every interruption.
  \<^item> \<open>PartFile\<close>, \<open>DurableWriter\<close>: \<open>downpour-storage/src/part_file.rs\<close>, \<open>writer.rs\<close>.  The two durability traits
    are records of operations; the flush changes the map only after both synchronisations.
  \<^item> \<open>WriterService\<close>: \<open>downpour-engine/src/writer_service.rs\<close>.  One handler per command and the receive loop;
    the locale \<open>durable_store\<close> states what the actor needs of its two files and is interpreted on the file
    model.  After a crash at any point of any command sequence the journal names only stable bytes.
  \<^item> \<open>ContentRange\<close>, \<open>Remote\<close>, \<open>Filename\<close>: \<open>downpour-types/src/\<close>.  Header parsing is strict and exact, a range
    proof exists only for a validated partial response, and a server-supplied name is reduced to one
    safe path component.
  \<^item> \<open>Completion\<close>: \<open>downpour-storage/src/completion.rs\<close>.  Only a verified file gets its final name.
  \<^item> \<open>Metadata\<close>, \<open>MetadataWire\<close>, \<open>MetadataStore\<close>: \<open>downpour-storage/src/metadata.rs\<close>.  Values and their guards,
    versioned wire forms, and the tables with transactions that roll back on every failure.
  \<^item> \<open>Recovery\<close>: \<open>downpour-storage/src/recovery.rs\<close>.  The reconciliation of one download at restart.

  \<^bold>\<open>Parameters.\<close>  BLAKE3, SHA-2, CRC-32C, base64, the URL parser, percent decoding, the CBOR reader and
  writer and the allocation calls of the operating system are arguments of the definitions that use
  them.  What a theorem needs of them is a named hypothesis (\<open>env_laws\<close>, \<open>recovery_laws\<close>, \<open>alloc_keeps\<close>) and
  every such theorem has a witness with concrete functions.

  \<^bold>\<open>Loops.\<close>  All loops are total functions: structural, or with a measure on the bytes or records left.  No
  fuel is used.

  \<^bold>\<open>Not modelled.\<close>  Opening the database (SQLite reporting on its own catalogue), process start-up and command
  line, the IPC transports and the tokio runtime are input and output without logic of their own.
  Windows paths that are not UTF-16 text and the macOS allocation call are other configurations of code
  that is modelled for Unix.
\<close>

end
